(* ===== verification/Prelude.thy ===== *)
theory Prelude
  imports Main "HOL-Library.Word"
begin

text \<open>
  What every component of the model shares: the outcome of a C computation, checked array and
  byte-block accesses, counting loops, and the types of \<^verbatim>\<open>util/vmsim_types.h\<close>.

  A C function that can abort (a failed \<^verbatim>\<open>assert\<close>), touch memory it does not own, divide by
  zero, block for ever on a lock of its own or loop for ever returns a value of type \<open>'a res\<close>:
  \<open>Inl\<close> of the fault, or \<open>Inr\<close> of the result. A theorem that an operation returns \<open>Inr\<close> is
  therefore a theorem that it is memory safe, that its assertions hold and that it returns.
\<close>

subsection \<open>Collections\<close>

text \<open>
  \<open>whole\<close> takes the invariants of joint states apart into those of their parts, \<open>mutex_run\<close> runs the
  operations on mutexes, \<open>serving\<close> the steps from a piece of mail to the job that it asks for.
\<close>

named_theorems whole
named_theorems mutex_run
named_theorems serving

subsection \<open>Faults and results\<close>

datatype fault =
    AssertFailed    \<comment> \<open>\<^verbatim>\<open>assert(e)\<close> with \<^verbatim>\<open>e\<close> false: the program aborts\<close>
  | OutOfBounds     \<comment> \<open>an access outside the object it is based on\<close>
  | NullDeref       \<comment> \<open>an access through \<^verbatim>\<open>NULL\<close> or a freed pointer\<close>
  | DivByZero
  | Deadlock        \<comment> \<open>waiting for a lock that the same flow of control holds\<close>
  | BadFree         \<comment> \<open>\<^verbatim>\<open>free\<close> of a pointer that \<^verbatim>\<open>malloc\<close> did not return\<close>
  | BadUnlock       \<comment> \<open>releasing a lock that is not held\<close>
  | IntOverflow     \<comment> \<open>a signed addition or product that does not fit an \<^verbatim>\<open>int\<close>\<close>
  | Diverges        \<comment> \<open>a loop that never ends\<close>

type_synonym 'a res = "fault + 'a"

definition rbind :: "'a res \<Rightarrow> ('a \<Rightarrow> 'b res) \<Rightarrow> 'b res" where
  "rbind m f = (case m of Inl e \<Rightarrow> Inl e | Inr x \<Rightarrow> f x)"

definition cassert :: "bool \<Rightarrow> unit res" where
  "cassert b = (if b then Inr () else Inl AssertFailed)"

lemma rbind_Inr [simp]: "rbind (Inr x) f = f x"
  by (simp add: rbind_def)

lemma rbind_Inl [simp]: "rbind (Inl e) f = Inl e"
  by (simp add: rbind_def)

lemma rbind_eq_Inr: "rbind m f = Inr y \<longleftrightarrow> (\<exists>x. m = Inr x \<and> f x = Inr y)"
  by (cases m) auto

lemma rbind_assoc: "rbind (rbind m f) g = rbind m (\<lambda>x. rbind (f x) g)"
  by (cases m) auto

lemma rbind_cong [fundef_cong]:
  "m = m' \<Longrightarrow> (\<And>x. m' = Inr x \<Longrightarrow> f x = f' x) \<Longrightarrow> rbind m f = rbind m' f'"
  by (cases m') auto

lemma cassert_True [simp]: "b \<Longrightarrow> cassert b = Inr ()"
  by (simp add: cassert_def)

lemma cassert_False [simp]: "\<not> b \<Longrightarrow> cassert b = Inl AssertFailed"
  by (simp add: cassert_def)

lemma cassert_eq_Inr [simp]: "cassert b = Inr u \<longleftrightarrow> b"
  by (simp add: cassert_def)

text \<open>Two partial maps with the same graph are equal.\<close>

lemma map_graph_eqI: "(\<And>x v. f x = Some v \<longleftrightarrow> g x = Some v) \<Longrightarrow> f = g"
  by (rule ext) (metis option.exhaust)

subsection \<open>Arrays\<close>

text \<open>An array is a list; an index outside it is a fault, whatever its sign.\<close>

definition arr_get :: "'a list \<Rightarrow> int \<Rightarrow> 'a res" where
  "arr_get xs i = (if 0 \<le> i \<and> i < int (length xs) then Inr (xs ! nat i) else Inl OutOfBounds)"

definition arr_set :: "'a list \<Rightarrow> int \<Rightarrow> 'a \<Rightarrow> 'a list res" where
  "arr_set xs i x = (if 0 \<le> i \<and> i < int (length xs) then Inr (xs[nat i := x]) else Inl OutOfBounds)"

lemma arr_get_in [simp]: "k < length xs \<Longrightarrow> arr_get xs (int k) = Inr (xs ! k)"
  by (simp add: arr_get_def)

lemma arr_set_in [simp]: "k < length xs \<Longrightarrow> arr_set xs (int k) x = Inr (xs[k := x])"
  by (simp add: arr_set_def)

lemma arr_get_nat [simp]: "0 \<le> i \<Longrightarrow> i < int (length xs) \<Longrightarrow> arr_get xs i = Inr (xs ! nat i)"
  by (simp add: arr_get_def)

lemma arr_set_nat [simp]:
  "0 \<le> i \<Longrightarrow> i < int (length xs) \<Longrightarrow> arr_set xs i x = Inr (xs[nat i := x])"
  by (simp add: arr_set_def)

lemma arr_get_out [simp]: "int (length xs) \<le> i \<Longrightarrow> arr_get xs i = Inl OutOfBounds"
  by (simp add: arr_get_def)

subsection \<open>Blocks of bytes\<close>

type_synonym byte = "8 word"

text \<open>
  \<^verbatim>\<open>memcpy\<close> out of a block of bytes, and into one: the copied range must lie inside the
  block, and the source buffer must hold as many bytes as are copied.
\<close>

definition mem_read :: "byte list \<Rightarrow> int \<Rightarrow> nat \<Rightarrow> byte list res" where
  "mem_read bs off n =
     (if 0 \<le> off \<and> off + int n \<le> int (length bs) then Inr (take n (drop (nat off) bs))
      else Inl OutOfBounds)"

definition overwrite :: "'a list \<Rightarrow> nat \<Rightarrow> 'a list \<Rightarrow> 'a list" where
  "overwrite bs off src = take off bs @ src @ drop (off + length src) bs"

definition mem_write :: "byte list \<Rightarrow> int \<Rightarrow> byte list \<Rightarrow> nat \<Rightarrow> byte list res" where
  "mem_write bs off src n =
     (if 0 \<le> off \<and> off + int n \<le> int (length bs) \<and> n \<le> length src
      then Inr (overwrite bs (nat off) (take n src)) else Inl OutOfBounds)"

lemma mem_read_in: "off + n \<le> length bs \<Longrightarrow> mem_read bs (int off) n = Inr (take n (drop off bs))"
  by (simp add: mem_read_def)

lemma mem_write_in:
  "off + n \<le> length bs \<Longrightarrow> n \<le> length src \<Longrightarrow>
   mem_write bs (int off) src n = Inr (overwrite bs off (take n src))"
  by (simp add: mem_write_def)

lemma length_overwrite [simp]: "off + length src \<le> length bs \<Longrightarrow> length (overwrite bs off src) = length bs"
  by (simp add: overwrite_def)

lemma nth_overwrite:
  "off + length src \<le> length bs \<Longrightarrow> i < length bs \<Longrightarrow>
   overwrite bs off src ! i = (if off \<le> i \<and> i < off + length src then src ! (i - off) else bs ! i)"
  by (auto simp: overwrite_def nth_append min_def)

text \<open>A block of bytes seen as consecutive pages of \<open>ps\<close> bytes.\<close>

definition page_at :: "nat \<Rightarrow> byte list \<Rightarrow> nat \<Rightarrow> byte list" where
  "page_at ps bs i = take ps (drop (i * ps) bs)"

lemma page_fits: "i < n \<Longrightarrow> length bs = n * ps \<Longrightarrow> i * ps + ps \<le> length (bs::byte list)"
  by (metis Suc_leI add.commute mult_Suc mult_le_mono1)

lemma length_page_at [simp]: "i < n \<Longrightarrow> length bs = n * ps \<Longrightarrow> length (page_at ps bs i) = ps"
  using page_fits [of i n bs ps] by (simp add: page_at_def)

lemma nth_page_at:
  "i < n \<Longrightarrow> length bs = n * ps \<Longrightarrow> j < ps \<Longrightarrow> page_at ps bs i ! j = bs ! (i * ps + j)"
  using page_fits [of i n bs ps] by (simp add: page_at_def)

lemma page_at_overwrite_same:
  assumes "i < n" "length bs = n * ps" "off + length src \<le> ps"
  shows "page_at ps (overwrite bs (i * ps + off) src) i = overwrite (page_at ps bs i) off src"
proof (rule nth_equalityI)
  have fit: "i * ps + off + length src \<le> length bs"
    using assms page_fits [of i n bs ps] by simp
  have len: "length (overwrite bs (i * ps + off) src) = n * ps" using fit assms(2) by simp
  show "length (page_at ps (overwrite bs (i * ps + off) src) i) = length (overwrite (page_at ps bs i) off src)"
    using assms len by simp
  fix j assume "j < length (page_at ps (overwrite bs (i * ps + off) src) i)"
  then have j: "j < ps" using assms(1) len by simp
  have "i * ps + j < length bs" using page_fits [OF assms(1,2)] j by simp
  then show "page_at ps (overwrite bs (i * ps + off) src) i ! j = overwrite (page_at ps bs i) off src ! j"
    using assms fit len j by (simp add: nth_page_at nth_overwrite)
qed

lemma page_at_overwrite_other:
  assumes "i < n" "k < n" "i \<noteq> k" "length bs = n * ps" "off + length src \<le> ps"
  shows "page_at ps (overwrite bs (i * ps + off) src) k = page_at ps bs k"
proof (rule nth_equalityI)
  have fit: "i * ps + off + length src \<le> length bs"
    using assms page_fits [of i n bs ps] by simp
  have len: "length (overwrite bs (i * ps + off) src) = n * ps" using fit assms(4) by simp
  show "length (page_at ps (overwrite bs (i * ps + off) src) k) = length (page_at ps bs k)"
    using assms len by simp
  fix j assume "j < length (page_at ps (overwrite bs (i * ps + off) src) k)"
  then have j: "j < ps" using assms(2) len by simp
  have kj: "k * ps + j < length bs" using page_fits [OF assms(2,4)] j by simp
  have "k * ps + ps \<le> i * ps \<or> i * ps + ps \<le> k * ps"
    using assms(3) by (metis Suc_leI add.commute linorder_neqE_nat mult_Suc mult_le_mono1)
  then have "\<not> (i * ps + off \<le> k * ps + j \<and> k * ps + j < i * ps + off + length src)"
    using j assms(5) by linarith
  then have "overwrite bs (i * ps + off) src ! (k * ps + j) = bs ! (k * ps + j)"
    by (simp only: nth_overwrite [OF fit kj] if_False)
  then show "page_at ps (overwrite bs (i * ps + off) src) k ! j = page_at ps bs k ! j"
    using nth_page_at [OF assms(2) len j] nth_page_at [OF assms(2,4) j] by simp
qed

subsection \<open>Counting loops\<close>

text \<open>
  \<^verbatim>\<open>for (i = lo; i < lo + n; ++i) s = f(i, s)\<close>: the loops of the source that run over a
  range fixed at the start and leave it only through a fault.
\<close>

primrec for_loop :: "nat \<Rightarrow> int \<Rightarrow> (int \<Rightarrow> 's \<Rightarrow> 's res) \<Rightarrow> 's \<Rightarrow> 's res" where
  "for_loop 0 i f s = Inr s"
| "for_loop (Suc n) i f s = rbind (f i s) (\<lambda>s'. for_loop n (i + 1) f s')"

text \<open>The loop rule: an invariant indexed by the number of rounds already made.\<close>

lemma for_loop_rule:
  assumes step: "\<And>j s. j < n \<Longrightarrow> P j s \<Longrightarrow> \<exists>s'. f (i + int j) s = Inr s' \<and> P (Suc j) s'"
    and init: "P 0 s"
  shows "\<exists>s'. for_loop n i f s = Inr s' \<and> P n s'"
  using assms
proof (induction n arbitrary: i s P)
  case 0
  then show ?case by simp
next
  case (Suc n)
  from Suc.prems(1) [of 0 s] Suc.prems(2) obtain s1 where s1: "f i s = Inr s1" "P 1 s1" by auto
  have "\<exists>s'. for_loop n (i + 1) f s1 = Inr s' \<and> P (Suc n) s'"
  proof (rule Suc.IH [where P = "\<lambda>j. P (Suc j)"])
    fix j s assume "j < n" "P (Suc j) s"
    then show "\<exists>s'. f (i + 1 + int j) s = Inr s' \<and> P (Suc (Suc j)) s'"
      using Suc.prems(1) [of "Suc j" s] by (simp add: algebra_simps)
  qed (use s1 in simp)
  with s1 show ?case by simp
qed

subsection \<open>Codes and addresses\<close>

datatype errcode_t = ecSuccess | ecFail | ecNotFound

definition posix_errcode :: "int \<Rightarrow> errcode_t" where
  "posix_errcode retcode = (if retcode = 0 then ecSuccess else ecFail)"

lemma posix_errcode_0 [simp]: "posix_errcode 0 = ecSuccess"
  by (simp add: posix_errcode_def)

type_synonym u32 = "32 word"
type_synonym procid_t = u32
type_synonym phys_addr_t = u32

lemma map_le_updD: "f(k \<mapsto> v) \<subseteq>\<^sub>m g \<Longrightarrow> g k = Some v"
  by (simp add: map_le_def)

lemma sint_small: "unat (w :: u32) < 2 ^ 31 \<Longrightarrow> sint w = int (unat w)"
  using signed_take_bit_int_eq_self [of 31 "int (unat w)"] by (simp add: sint_uint uint_nat del: of_nat_unat)

lemma unat_bound: "unat (w :: u32) < 2 ^ 32"
proof -
  have "unat w < 2 ^ LENGTH(32)" by (rule unsigned_less)
  then show ?thesis by simp
qed

lemma unat_small: "n < 2 ^ 32 \<Longrightarrow> unat (word_of_int (int n) :: u32) = n"
  by (simp add: unat_of_nat take_bit_nat_eq_self)

record virt_addr_t =
  va_pid :: procid_t
  va_page :: u32
  va_offset :: u32

text \<open>\<^verbatim>\<open>VIRT_ADDR_PAGE_EQ\<close> compares the process and the page, never the offset: a page of
  the virtual memory is a pair.\<close>

type_synonym vkey = "procid_t \<times> u32"

definition vkey :: "virt_addr_t \<Rightarrow> vkey" where
  "vkey v = (va_pid v, va_page v)"

definition virt_addr_page_eq :: "virt_addr_t \<Rightarrow> virt_addr_t \<Rightarrow> bool" where
  "virt_addr_page_eq v1 v2 \<longleftrightarrow> va_pid v1 = va_pid v2 \<and> va_page v1 = va_page v2"

lemma virt_addr_page_eq_iff [simp]: "virt_addr_page_eq v1 v2 \<longleftrightarrow> vkey v1 = vkey v2"
  by (simp add: virt_addr_page_eq_def vkey_def)

text \<open>\<^verbatim>\<open>SET_MSB\<close> ors a bit into the most significant position of an \<^verbatim>\<open>unsigned\<close>.\<close>

definition set_msb :: "u32 \<Rightarrow> bool \<Rightarrow> u32" where
  "set_msb v b = or v (push_bit 31 (if b then 1 else 0))"

end
