(* ===== verification/Locks.thy ===== *)
theory Locks
  imports Prelude
begin

text \<open>
  \<^verbatim>\<open>util/locks.c\<close>: the wrappers over POSIX readers-writer locks and mutexes. A lock is the
  number of readers and whether a writer holds it; \<^verbatim>\<open>pthread_rwlock_rdlock\<close> and its kin are
  modelled for one flow of control, so a request that would have to wait for a lock that is
  already held can never be granted and is the fault \<open>Deadlock\<close>.
\<close>

record rwlock_t =
  rw_readers :: nat
  rw_writer :: bool

definition rw_free :: rwlock_t where
  "rw_free = \<lparr>rw_readers = 0, rw_writer = False\<rparr>"

definition pthread_rwlock_rdlock :: "rwlock_t \<Rightarrow> (int \<times> rwlock_t) res" where
  "pthread_rwlock_rdlock l =
     (if rw_writer l then Inl Deadlock else Inr (0, l\<lparr>rw_readers := Suc (rw_readers l)\<rparr>))"

definition pthread_rwlock_wrlock :: "rwlock_t \<Rightarrow> (int \<times> rwlock_t) res" where
  "pthread_rwlock_wrlock l =
     (if rw_writer l \<or> 0 < rw_readers l then Inl Deadlock else Inr (0, l\<lparr>rw_writer := True\<rparr>))"

definition pthread_rwlock_unlock :: "rwlock_t \<Rightarrow> (int \<times> rwlock_t) res" where
  "pthread_rwlock_unlock l =
     (if rw_writer l then Inr (0, l\<lparr>rw_writer := False\<rparr>)
      else if 0 < rw_readers l then Inr (0, l\<lparr>rw_readers := rw_readers l - 1\<rparr>)
      else Inl BadUnlock)"

definition ebusy :: int where
  "ebusy = 16"

definition pthread_rwlock_destroy :: "rwlock_t \<Rightarrow> int" where
  "pthread_rwlock_destroy l = (if rw_writer l \<or> 0 < rw_readers l then ebusy else 0)"

definition rwlock_init :: "int \<Rightarrow> errcode_t \<times> rwlock_t" where
  \<comment> \<open>the argument is what \<^verbatim>\<open>pthread_rwlock_init\<close> returned\<close>
  "rwlock_init rc = (posix_errcode rc, rw_free)"

definition rwlock_acquire_read :: "rwlock_t \<Rightarrow> (errcode_t \<times> rwlock_t) res" where
  "rwlock_acquire_read l = rbind (pthread_rwlock_rdlock l) (\<lambda>(rc, l'). Inr (posix_errcode rc, l'))"

definition rwlock_acquire_write :: "rwlock_t \<Rightarrow> (errcode_t \<times> rwlock_t) res" where
  "rwlock_acquire_write l = rbind (pthread_rwlock_wrlock l) (\<lambda>(rc, l'). Inr (posix_errcode rc, l'))"

definition rwlock_release_read :: "rwlock_t \<Rightarrow> (errcode_t \<times> rwlock_t) res" where
  "rwlock_release_read l = rbind (pthread_rwlock_unlock l) (\<lambda>(rc, l'). Inr (posix_errcode rc, l'))"

definition rwlock_release_write :: "rwlock_t \<Rightarrow> (errcode_t \<times> rwlock_t) res" where
  "rwlock_release_write l = rbind (pthread_rwlock_unlock l) (\<lambda>(rc, l'). Inr (posix_errcode rc, l'))"

definition rwlock_destroy :: "rwlock_t \<Rightarrow> unit res" where
  "rwlock_destroy l =
     (let retcode = pthread_rwlock_destroy l
      in rbind (cassert (retcode \<noteq> ebusy)) (\<lambda>_. cassert (retcode = 0)))"

subsection \<open>The lock as its callers see it\<close>

text \<open>The callers ignore the returned code: only the lock is passed on.\<close>

definition rd_start :: "rwlock_t \<Rightarrow> rwlock_t res" where
  "rd_start l = rbind (rwlock_acquire_read l) (\<lambda>(_, l'). Inr l')"

definition wr_start :: "rwlock_t \<Rightarrow> rwlock_t res" where
  "wr_start l = rbind (rwlock_acquire_write l) (\<lambda>(_, l'). Inr l')"

definition rd_end :: "rwlock_t \<Rightarrow> rwlock_t res" where
  "rd_end l = rbind (rwlock_release_read l) (\<lambda>(_, l'). Inr l')"

definition wr_end :: "rwlock_t \<Rightarrow> rwlock_t res" where
  "wr_end l = rbind (rwlock_release_write l) (\<lambda>(_, l'). Inr l')"

abbreviation rw_reading :: rwlock_t where
  "rw_reading \<equiv> \<lparr>rw_readers = Suc 0, rw_writer = False\<rparr>"

abbreviation rw_writing :: rwlock_t where
  "rw_writing \<equiv> \<lparr>rw_readers = 0, rw_writer = True\<rparr>"

lemmas lock_defs = rd_start_def wr_start_def rd_end_def wr_end_def
  rwlock_acquire_read_def rwlock_acquire_write_def rwlock_release_read_def
  rwlock_release_write_def pthread_rwlock_rdlock_def pthread_rwlock_wrlock_def
  pthread_rwlock_unlock_def

text \<open>On a free lock every section opens and closes, and leaves the lock free.\<close>

lemma lock_steps [simp]:
  "rd_start rw_free = Inr rw_reading"
  "wr_start rw_free = Inr rw_writing"
  "rd_end rw_reading = Inr rw_free"
  "wr_end rw_writing = Inr rw_free"
  by (simp_all add: lock_defs rw_free_def)

text \<open>A lock that several readers share.\<close>

abbreviation rw_shared :: "nat \<Rightarrow> rwlock_t" where
  "rw_shared n \<equiv> \<lparr>rw_readers = n, rw_writer = False\<rparr>"

lemma rw_shared_0: "rw_shared 0 = rw_free"
  by (simp add: rw_free_def)

lemma shared_steps:
  "rd_start (rw_shared n) = Inr (rw_shared (Suc n))"
  "rd_end (rw_shared (Suc n)) = Inr (rw_shared n)"
  "wr_start (rw_shared (Suc n)) = Inl Deadlock"
  by (simp_all add: lock_defs)

lemma rwlock_destroy_free [simp]: "rwlock_destroy rw_free = Inr ()"
  by (simp add: rwlock_destroy_def pthread_rwlock_destroy_def rw_free_def ebusy_def)

text \<open>
  A held lock grants nothing that excludes its holder, and a read section may be shared:
  mutual exclusion of the two modes.
\<close>

lemma lock_excludes:
  "wr_start rw_reading = Inl Deadlock"
  "wr_start rw_writing = Inl Deadlock"
  "rd_start rw_writing = Inl Deadlock"
  "rd_end rw_free = Inl BadUnlock"
  by (simp_all add: lock_defs rw_free_def)

subsection \<open>Mutexes\<close>

text \<open>A mutex is whether it is held.\<close>

definition pthread_mutex_lock :: "bool \<Rightarrow> (int \<times> bool) res" where
  "pthread_mutex_lock m = (if m then Inl Deadlock else Inr (0, True))"

declare pthread_mutex_lock_def [mutex_run]

definition pthread_mutex_unlock :: "bool \<Rightarrow> (int \<times> bool) res" where
  "pthread_mutex_unlock m = (if m then Inr (0, False) else Inl BadUnlock)"

declare pthread_mutex_unlock_def [mutex_run]

definition mutex_lock :: "bool \<Rightarrow> (errcode_t \<times> bool) res" where
  "mutex_lock m = rbind (pthread_mutex_lock m) (\<lambda>(rc, m'). Inr (posix_errcode rc, m'))"

declare mutex_lock_def [mutex_run]

definition mutex_unlock :: "bool \<Rightarrow> (errcode_t \<times> bool) res" where
  "mutex_unlock m = rbind (pthread_mutex_unlock m) (\<lambda>(rc, m'). Inr (posix_errcode rc, m'))"

declare mutex_unlock_def [mutex_run]

definition pthread_mutex_destroy :: "bool \<Rightarrow> int" where
  "pthread_mutex_destroy m = (if m then ebusy else 0)"

definition mutex_destroy :: "bool \<Rightarrow> unit res" where
  "mutex_destroy m =
     (let retcode = pthread_mutex_destroy m
      in rbind (cassert (retcode \<noteq> ebusy)) (\<lambda>_. cassert (retcode = 0)))"

end
