(* ===== verification/Linked_Queue.thy ===== *)
theory Linked_Queue
  imports Prelude
begin

text \<open>
  \<^verbatim>\<open>util/list.c\<close> and \<^verbatim>\<open>util/queue.c\<close>: singly linked nodes on the heap and the FIFO queue built
  from them, at the level of pointers. A pointer is \<open>None\<close> (\<^verbatim>\<open>NULL\<close>) or an address of the
  store; the store holds the nodes of one queue, which nothing else points to.
\<close>

subsection \<open>The store\<close>

record 'a node_t =
  node_data :: "'a option"
  node_next :: "nat option"

text \<open>
  \<^verbatim>\<open>malloc\<close> hands out a fresh address, or \<^verbatim>\<open>NULL\<close>: \<open>nh_oom k\<close> says whether the \<open>k\<close>-th
  request fails.
\<close>

record 'a node_heap =
  nh_cells :: "nat \<rightharpoonup> 'a node_t"
  nh_brk :: nat
  nh_oom :: "nat \<Rightarrow> bool"

definition malloc_node :: "'a node_heap \<Rightarrow> (nat \<times> 'a node_heap) option" where
  "malloc_node h =
     (if nh_oom h (nh_brk h) then None
      else Some (nh_brk h,
             h\<lparr>nh_cells := (nh_cells h)(nh_brk h \<mapsto> \<lparr>node_data = None, node_next = None\<rparr>),
               nh_brk := Suc (nh_brk h)\<rparr>))"

definition node_load :: "'a node_heap \<Rightarrow> nat option \<Rightarrow> 'a node_t res" where
  "node_load h p = (case p of None \<Rightarrow> Inl NullDeref
     | Some a \<Rightarrow> (case nh_cells h a of None \<Rightarrow> Inl NullDeref | Some n \<Rightarrow> Inr n))"

definition node_store :: "'a node_heap \<Rightarrow> nat option \<Rightarrow> 'a node_t \<Rightarrow> 'a node_heap res" where
  "node_store h p n = (case p of None \<Rightarrow> Inl NullDeref
     | Some a \<Rightarrow> (case nh_cells h a of None \<Rightarrow> Inl NullDeref
         | Some _ \<Rightarrow> Inr (h\<lparr>nh_cells := (nh_cells h)(a \<mapsto> n)\<rparr>)))"

definition node_free :: "'a node_heap \<Rightarrow> nat option \<Rightarrow> 'a node_heap res" where
  "node_free h p = (case p of None \<Rightarrow> Inr h
     | Some a \<Rightarrow> (case nh_cells h a of None \<Rightarrow> Inl NullDeref
         | Some _ \<Rightarrow> Inr (h\<lparr>nh_cells := (nh_cells h)(a := None)\<rparr>)))"

subsection \<open>Nodes: list.c\<close>

definition node_init :: "'a node_heap \<Rightarrow> (nat \<times> 'a node_heap) res" where
  "node_init h = (case malloc_node h of
     None \<Rightarrow> rbind (cassert False) (\<lambda>_. Inl NullDeref)
   | Some (a, h1) \<Rightarrow>
       rbind (node_load h1 (Some a)) (\<lambda>n.
       rbind (node_store h1 (Some a) (n\<lparr>node_data := None, node_next := None\<rparr>)) (\<lambda>h2.
       Inr (a, h2))))"

definition node_set_data :: "'a node_heap \<Rightarrow> nat option \<Rightarrow> 'a option \<Rightarrow> (int \<times> 'a node_heap) res" where
  "node_set_data h nd data =
     (if nd \<noteq> None then
        rbind (node_load h nd) (\<lambda>n.
        rbind (node_store h nd (n\<lparr>node_data := data\<rparr>)) (\<lambda>h'. Inr (0, h')))
      else Inr (- 1, h))"

definition node_set_next :: "'a node_heap \<Rightarrow> nat option \<Rightarrow> nat option \<Rightarrow> (int \<times> 'a node_heap) res" where
  "node_set_next h nd nxt =
     (if nd \<noteq> None then
        rbind (node_load h nd) (\<lambda>n.
        rbind (node_store h nd (n\<lparr>node_next := nxt\<rparr>)) (\<lambda>h'. Inr (0, h')))
      else Inr (1, h))"

text \<open>The destructor of the data is a function on the client's state \<open>'s\<close>.\<close>

definition node_destroy ::
  "'a node_heap \<Rightarrow> nat option \<Rightarrow> ('a option \<Rightarrow> 's \<Rightarrow> 's) option \<Rightarrow> 's \<Rightarrow> (int \<times> 'a node_heap \<times> 's) res" where
  "node_destroy h nd destfunc s =
     (case destfunc of
        Some f \<Rightarrow> rbind (node_load h nd) (\<lambda>n.
                  rbind (node_free h nd) (\<lambda>h'. Inr (0, h', f (node_data n) s)))
      | None \<Rightarrow> rbind (node_free h nd) (\<lambda>h'. Inr (1, h', s)))"

text \<open>
  The traversal shared by \<^verbatim>\<open>list_for_each\<close> and \<^verbatim>\<open>queue_for_each\<close>. Every node has an address
  below \<open>nh_brk\<close>, so a walk that makes more rounds than that has met a node twice and never
  ends: the fuel \<open>Suc (nh_brk h)\<close> is exact.
\<close>

primrec for_each_walk ::
  "nat \<Rightarrow> 'a node_heap \<Rightarrow> nat option \<Rightarrow> ('a option \<Rightarrow> 's \<Rightarrow> 's) \<Rightarrow> 's \<Rightarrow> 's res" where
  "for_each_walk 0 h p f s = Inl Diverges"
| "for_each_walk (Suc k) h p f s =
     (if p = None then Inr s
      else rbind (node_load h p) (\<lambda>n. for_each_walk k h (node_next n) f (f (node_data n) s)))"

record list_t =
  list_head :: "nat option"
  list_size :: int

definition list_for_each :: "'a node_heap \<Rightarrow> list_t \<Rightarrow> ('a option \<Rightarrow> 's \<Rightarrow> 's) \<Rightarrow> 's \<Rightarrow> 's res" where
  "list_for_each h l f s = for_each_walk (Suc (nh_brk h)) h (list_head l) f s"

subsection \<open>The queue: queue.c\<close>

record 'a queue_t =
  q_head :: "nat option"
  q_tail :: "nat option"
  q_size :: int
  q_heap :: "'a node_heap"

text \<open>Request 0 of the store is the queue structure itself.\<close>

definition queue_init :: "(nat \<Rightarrow> bool) \<Rightarrow> 'a queue_t res" where
  "queue_init oom = rbind (cassert (\<not> oom 0)) (\<lambda>_.
     Inr \<lparr>q_head = None, q_tail = None, q_size = 0,
          q_heap = \<lparr>nh_cells = Map.empty, nh_brk = 1, nh_oom = oom\<rparr>\<rparr>)"

definition queue_pop :: "'a queue_t \<Rightarrow> ('a option \<times> 'a queue_t) res" where
  "queue_pop item =
     (if q_size item > 0 then
        let nodeToPop = q_head item;
            item1 = (if nodeToPop = q_tail item then item\<lparr>q_tail := None\<rparr> else item)
        in rbind (node_load (q_heap item1) (q_head item1)) (\<lambda>n.
           let item2 = item1\<lparr>q_head := node_next n\<rparr>
           in rbind (node_load (q_heap item2) nodeToPop) (\<lambda>m.
              rbind (node_destroy (q_heap item2) nodeToPop None ()) (\<lambda>(_, h', _).
              Inr (node_data m, item2\<lparr>q_heap := h', q_size := q_size item2 - 1\<rparr>))))
      else Inr (None, item))"

definition queue_push :: "'a queue_t \<Rightarrow> 'a \<Rightarrow> (int \<times> 'a queue_t) res" where
  "queue_push queue item =
     rbind (node_init (q_heap queue)) (\<lambda>(toPush, h1).
     rbind (node_set_data h1 (Some toPush) (Some item)) (\<lambda>(_, h2).
     rbind (node_set_next h2 (q_tail queue) (Some toPush)) (\<lambda>(toReturn, h3).
     let queue1 = (if toReturn = 1 then queue\<lparr>q_head := Some toPush\<rparr> else queue)
     in Inr (toReturn,
          queue1\<lparr>q_tail := Some toPush, q_size := q_size queue1 + 1, q_heap := h3\<rparr>))))"

definition queue_for_each :: "'a queue_t \<Rightarrow> ('a option \<Rightarrow> 's \<Rightarrow> 's) \<Rightarrow> 's \<Rightarrow> 's res" where
  "queue_for_each q f s = for_each_walk (Suc (nh_brk (q_heap q))) (q_heap q) (q_head q) f s"

definition queue_size :: "'a queue_t \<Rightarrow> int" where
  "queue_size item = q_size item"

text \<open>\<open>None\<close>: the queue structure has been freed.\<close>

definition queue_destroy :: "'a queue_t \<Rightarrow> int \<times> 'a queue_t option" where
  "queue_destroy dest = (if q_size dest = 0 then (0, None) else (- 1, Some dest))"

text \<open>
  \<^verbatim>\<open>while (queue_size(q) > 0) queue_pop(q);\<close> as \<^verbatim>\<open>ipt_destroy\<close> and \<^verbatim>\<open>process_dealloc\<close> write it.
\<close>

primrec queue_drain :: "nat \<Rightarrow> 'a queue_t \<Rightarrow> 'a queue_t res" where
  "queue_drain 0 q = Inl Diverges"
| "queue_drain (Suc k) q =
     (if queue_size q > 0 then rbind (queue_pop q) (\<lambda>(_, q'). queue_drain k q') else Inr q)"

subsection \<open>What a queue represents\<close>

text \<open>
  \<open>q_nodes c p as xs\<close>: from the pointer \<open>p\<close> the store \<open>c\<close> holds a \<^verbatim>\<open>NULL\<close>-terminated list of
  nodes at the addresses \<open>as\<close> whose data are \<open>xs\<close>.
\<close>

fun q_nodes :: "(nat \<rightharpoonup> 'a node_t) \<Rightarrow> nat option \<Rightarrow> nat list \<Rightarrow> 'a list \<Rightarrow> bool" where
  "q_nodes c p [] [] = (p = None)"
| "q_nodes c p (a # as) (x # xs) =
     (p = Some a \<and> (\<exists>nx. c a = Some \<lparr>node_data = Some x, node_next = nx\<rparr> \<and> q_nodes c nx as xs))"
| "q_nodes c p _ _ = False"

definition queue_rep :: "'a queue_t \<Rightarrow> nat list \<Rightarrow> 'a list \<Rightarrow> bool" where
  "queue_rep q as xs \<longleftrightarrow>
     q_nodes (nh_cells (q_heap q)) (q_head q) as xs \<and> distinct as \<and>
     dom (nh_cells (q_heap q)) = set as \<and> (\<forall>a \<in> set as. a < nh_brk (q_heap q)) \<and>
     q_tail q = (if as = [] then None else Some (last as)) \<and>
     q_size q = int (length xs) \<and> (\<forall>n. \<not> nh_oom (q_heap q) n)"

definition queue_inv :: "'a queue_t \<Rightarrow> bool" where
  "queue_inv q \<longleftrightarrow> (\<exists>as xs. queue_rep q as xs)"

text \<open>The abstraction: the data met by the code's own traversal.\<close>

definition queue_list :: "'a queue_t \<Rightarrow> 'a list" where
  "queue_list q = (case queue_for_each q (\<lambda>d acc. acc @ (case d of None \<Rightarrow> [] | Some x \<Rightarrow> [x])) [] of
     Inl _ \<Rightarrow> [] | Inr xs \<Rightarrow> xs)"

lemma q_nodes_length: "q_nodes c p as xs \<Longrightarrow> length as = length xs"
  by (induction c p as xs rule: q_nodes.induct) auto

lemma q_nodes_frame: "q_nodes c p as xs \<Longrightarrow> a \<notin> set as \<Longrightarrow> q_nodes (c(a := v)) p as xs"
  by (induction c p as xs rule: q_nodes.induct) auto

lemma q_nodes_snoc:
  assumes "q_nodes c p as xs" "as \<noteq> []" "distinct as" "b \<notin> set as" "c (last as) = Some n"
  shows "q_nodes (c(b \<mapsto> \<lparr>node_data = Some x, node_next = None\<rparr>,
                    last as \<mapsto> n\<lparr>node_next := Some b\<rparr>)) p (as @ [b]) (xs @ [x])"
  using assms
proof (induction c p as xs rule: q_nodes.induct)
  case (2 c p a as y ys)
  from "2.prems"(1) obtain nx where
    nx: "p = Some a" "c a = Some \<lparr>node_data = Some y, node_next = nx\<rparr>" "q_nodes c nx as ys" by auto
  show ?case
  proof (cases "as = []")
    case True
    with nx "2.prems" have "ys = []" by (cases ys) auto
    with True nx "2.prems" show ?thesis by auto
  next
    case False
    have "last as \<in> set as" using False by simp
    with "2.prems" False have "a \<noteq> last as" "a \<noteq> b" by auto
    with "2.IH" [OF nx(3)] "2.prems" False nx show ?thesis by auto
  qed
qed auto

lemma for_each_walk_nodes:
  "q_nodes (nh_cells h) p as xs \<Longrightarrow> length as < k \<Longrightarrow>
   for_each_walk k h p f s = Inr (fold (\<lambda>x. f (Some x)) xs s)"
proof (induction k arbitrary: p as xs s)
  case (Suc k)
  then show ?case by (cases as; cases xs) (auto simp: node_load_def)
qed simp

lemma queue_rep_fuel: "queue_rep q as xs \<Longrightarrow> length as < Suc (nh_brk (q_heap q))"
proof -
  assume rep: "queue_rep q as xs"
  then have "set as \<subseteq> {..<nh_brk (q_heap q)}" "distinct as" by (auto simp: queue_rep_def)
  then have "card (set as) \<le> nh_brk (q_heap q)" using card_mono [of "{..<nh_brk (q_heap q)}"] by auto
  then show ?thesis using \<open>distinct as\<close> by (simp add: distinct_card)
qed

lemma queue_for_each_rep:
  "queue_rep q as xs \<Longrightarrow> queue_for_each q f s = Inr (fold (\<lambda>x. f (Some x)) xs s)"
  using for_each_walk_nodes [of "q_heap q" "q_head q" as xs] queue_rep_fuel [of q as xs]
  by (simp add: queue_for_each_def queue_rep_def del: for_each_walk.simps)

lemma queue_list_rep: "queue_rep q as xs \<Longrightarrow> queue_list q = xs"
proof -
  assume "queue_rep q as xs"
  moreover have "fold (\<lambda>x acc. acc @ [x]) xs ys = ys @ xs" for ys
    by (induction xs arbitrary: ys) auto
  ultimately show ?thesis by (simp add: queue_list_def queue_for_each_rep)
qed

subsection \<open>Push and pop\<close>

lemma queue_push_rep:
  assumes rep: "queue_rep q as xs"
  shows "\<exists>q'. queue_push q x = Inr (if xs = [] then 1 else 0, q') \<and>
              queue_rep q' (as @ [nh_brk (q_heap q)]) (xs @ [x])"
proof (cases "as = []")
  case True
  with rep have "xs = []" by (cases xs) (auto simp: queue_rep_def)
  with True rep show ?thesis
    by (auto simp: queue_rep_def queue_push_def node_init_def malloc_node_def node_load_def
        node_store_def node_set_data_def node_set_next_def Let_def)
next
  case False
  let ?h = "q_heap q" and ?b = "nh_brk (q_heap q)"
  from rep have rep': "q_nodes (nh_cells ?h) (q_head q) as xs" "distinct as"
    "dom (nh_cells ?h) = set as" "\<forall>a \<in> set as. a < ?b" "q_tail q = Some (last as)"
    "q_size q = int (length xs)" "\<And>n. \<not> nh_oom ?h n"
    using False by (simp_all add: queue_rep_def)
  have xs: "xs \<noteq> []" using False q_nodes_length [OF rep'(1)] by auto
  have last: "last as \<in> set as" using False by simp
  then obtain n where n: "nh_cells ?h (last as) = Some n" using rep'(3) by blast
  have fresh: "?b \<notin> set as" and neq: "last as \<noteq> ?b" using rep'(4) last by auto
  note path = q_nodes_snoc [OF rep'(1) False rep'(2) fresh n, of x]
  show ?thesis
    using rep' n neq fresh xs last path
    by (auto simp: queue_rep_def queue_push_def node_init_def malloc_node_def node_load_def
        node_store_def node_set_data_def node_set_next_def Let_def fun_upd_twist split: if_splits)
qed

lemma queue_pop_rep_Nil: "queue_rep q as [] \<Longrightarrow> queue_pop q = Inr (None, q)"
  by (simp add: queue_rep_def queue_pop_def)

lemma queue_pop_rep_Cons:
  assumes rep: "queue_rep q as (x # xs)"
  shows "\<exists>q'. queue_pop q = Inr (Some x, q') \<and> queue_rep q' (tl as) xs"
proof -
  let ?c = "nh_cells (q_heap q)"
  obtain a bs where as: "as = a # bs" using rep by (cases as) (auto simp: queue_rep_def)
  from rep as obtain nx where nx: "q_head q = Some a"
    "?c a = Some \<lparr>node_data = Some x, node_next = nx\<rparr>" "q_nodes ?c nx bs xs"
    by (auto simp: queue_rep_def)
  have bs: "a \<notin> set bs" "distinct bs" "dom ?c = insert a (set bs)"
    using rep as by (auto simp: queue_rep_def)
  have path: "q_nodes (?c(a := None)) nx bs xs" by (rule q_nodes_frame [OF nx(3) bs(1)])
  have dom: "dom (?c(a := None)) = set bs" using bs by auto
  have tl: "(if q_head q = q_tail q then None else q_tail q) = (if bs = [] then None else Some (last bs))"
  proof (cases "bs = []")
    case False
    then have "last bs \<noteq> a" using bs(1) last_in_set by metis
    with False show ?thesis using rep as nx(1) by (simp add: queue_rep_def)
  qed (use rep as nx(1) in \<open>simp add: queue_rep_def\<close>)
  show ?thesis
    using rep as nx bs(2) path dom tl
    by (auto simp: queue_rep_def queue_pop_def node_load_def node_destroy_def node_free_def Let_def)
qed

subsection \<open>The interface of a queue\<close>

text \<open>
  What the clients of a queue use: the free-page list of the page table, the command queue of the
  page replacement manager and the mail boxes of the processes.
\<close>

locale fifo =
  fixes push :: "'q \<Rightarrow> 'a \<Rightarrow> (int \<times> 'q) res"
    and pop :: "'q \<Rightarrow> ('a option \<times> 'q) res"
    and count :: "'q \<Rightarrow> int"
    and contents :: "'q \<Rightarrow> 'a list"
    and ok :: "'q \<Rightarrow> bool"
  assumes push_ok: "ok q \<Longrightarrow> \<exists>q'. push q x = Inr (if contents q = [] then 1 else 0, q') \<and>
                      ok q' \<and> contents q' = contents q @ [x]"
    and pop_nil: "ok q \<Longrightarrow> contents q = [] \<Longrightarrow> pop q = Inr (None, q)"
    and pop_cons: "ok q \<Longrightarrow> contents q = x # xs \<Longrightarrow>
                     \<exists>q'. pop q = Inr (Some x, q') \<and> ok q' \<and> contents q' = xs"
    and count_ok: "ok q \<Longrightarrow> count q = int (length (contents q))"
begin

lemma push_any: "ok q \<Longrightarrow> \<exists>r q'. push q x = Inr (r, q') \<and> ok q' \<and> contents q' = contents q @ [x]"
  using push_ok by blast

text \<open>A producer: a counting loop that pushes one item a round.\<close>

lemma push_loop:
  assumes "ok q"
  shows "\<exists>q'. for_loop n i (\<lambda>j q. rbind (push q (g j)) (\<lambda>(_, q'). Inr q')) q = Inr q' \<and> ok q' \<and>
              contents q' = contents q @ map (\<lambda>j. g (i + int j)) [0..<n]"
proof -
  let ?P = "\<lambda>j q'. ok q' \<and> contents q' = contents q @ map (\<lambda>j. g (i + int j)) [0..<j]"
  have "\<exists>s'. rbind (push s (g (i + int j))) (\<lambda>(_, q'). Inr q') = Inr s' \<and> ?P (Suc j) s'"
    if "?P j s" for j s
    using push_any [of s "g (i + int j)"] that by force
  with assms show ?thesis using for_loop_rule [where P = ?P] by simp
qed

text \<open>A consumer that empties the queue: \<^verbatim>\<open>while (size > 0) pop\<close>, with fuel.\<close>

lemma pop_all:
  assumes "ok q" "length (contents q) < k"
    and drain: "\<And>k q. dr (Suc k) q = (if count q > 0 then rbind (pop q) (\<lambda>(_, q'). dr k q') else Inr q)"
  shows "\<exists>q'. dr k q = Inr q' \<and> ok q' \<and> contents q' = []"
  using assms(1,2)
proof (induction k arbitrary: q)
  case (Suc k)
  show ?case
  proof (cases "contents q")
    case Nil
    with Suc.prems show ?thesis by (simp add: drain count_ok)
  next
    case (Cons x xs)
    with Suc.prems obtain q' where "pop q = Inr (Some x, q')" "ok q'" "contents q' = xs"
      using pop_cons by blast
    with Cons Suc show ?thesis by (simp add: drain count_ok)
  qed
qed simp

end

lemma queue_inv_rep: "queue_inv q \<Longrightarrow> \<exists>as. queue_rep q as (queue_list q)"
  using queue_list_rep by (auto simp: queue_inv_def)

interpretation fq: fifo queue_push queue_pop queue_size queue_list queue_inv
proof unfold_locales
  fix q :: "'a queue_t" and x xs
  assume ok: "queue_inv q"
  then obtain as where as: "queue_rep q as (queue_list q)" using queue_inv_rep by blast
  show "\<exists>q'. queue_push q x = Inr (if queue_list q = [] then 1 else 0, q') \<and> queue_inv q' \<and>
          queue_list q' = queue_list q @ [x]"
    using queue_push_rep [OF as, of x] queue_list_rep by (fastforce simp: queue_inv_def)
  show "queue_list q = [] \<Longrightarrow> queue_pop q = Inr (None, q)"
    using as queue_pop_rep_Nil by metis
  show "queue_list q = x # xs \<Longrightarrow>
          \<exists>q'. queue_pop q = Inr (Some x, q') \<and> queue_inv q' \<and> queue_list q' = xs"
    using queue_pop_rep_Cons [of q as x xs] as queue_list_rep by (fastforce simp: queue_inv_def)
  show "queue_size q = int (length (queue_list q))"
    using as by (simp add: queue_rep_def queue_size_def)
qed

lemma queue_drain_ok:
  "queue_inv q \<Longrightarrow> length (queue_list q) < k \<Longrightarrow>
   \<exists>q'. queue_drain k q = Inr q' \<and> queue_inv q' \<and> queue_list q' = []"
  by (rule fq.pop_all) simp_all

lemma queue_init_ok:
  "(\<And>n. \<not> oom n) \<Longrightarrow> \<exists>q. queue_init oom = Inr q \<and> queue_inv q \<and> queue_list q = ([] :: 'a list)"
proof -
  assume oom: "\<And>n. \<not> oom n"
  let ?q = "\<lparr>q_head = None, q_tail = None, q_size = 0,
    q_heap = \<lparr>nh_cells = Map.empty, nh_brk = 1, nh_oom = oom\<rparr>\<rparr> :: 'a queue_t"
  have "queue_rep ?q [] []" using oom by (simp add: queue_rep_def)
  then show ?thesis
    using oom queue_list_rep [of ?q] by (auto simp: queue_init_def queue_inv_def)
qed

end
