(* ===== verification/Ipt.thy ===== *)
theory Ipt
  imports Locks Linked_Queue
begin

text \<open>
  \<^verbatim>\<open>vmsim/ipt.c\<close>: the inverted page table. Entry \<open>i\<close> describes the frame \<open>i\<close> of the main memory.
  The hash anchor table (HAT) holds the head of one doubly linked chain of entries per hash
  value; the frames in no chain are in the queue \<open>ipt_free_pages\<close>. The index \<open>- 1\<close> is
  \<^verbatim>\<open>IPT_INVALID\<close>.
\<close>

subsection \<open>Data\<close>

datatype ipt_ref_t = refNone | refRead | refWrite

record page_data_t =
  pd_addr :: virt_addr_t
  pd_dirty :: bool
  pd_referenced :: bool
  pd_valid :: bool
  pd_users :: int
  pd_page_age :: u32

record ipt_entry_t =
  ie_page_data :: page_data_t
  ie_next :: int
  ie_prev :: int

record hat_entry_t =
  hat_ipt_idx :: int

text \<open>The free list holds indices cast to \<^verbatim>\<open>void*\<close>.\<close>

record ipt_t =
  ipt_entries :: "ipt_entry_t list"
  ipt_hat :: "hat_entry_t list"
  ipt_size :: int
  ipt_free_pages :: "int queue_t"
  ipt_ref_count :: u32
  ipt_refcnt_lock :: rwlock_t

definition ipt_invalid :: int where
  "ipt_invalid = - 1"

definition zero_virt_addr :: virt_addr_t where
  "zero_virt_addr = \<lparr>va_pid = 0, va_page = 0, va_offset = 0\<rparr>"

definition zero_page_data :: page_data_t where
  "zero_page_data = \<lparr>pd_addr = zero_virt_addr, pd_dirty = False, pd_referenced = False,
     pd_valid = False, pd_users = 0, pd_page_age = 0\<rparr>"

subsection \<open>Access to the hash anchor table and the entries\<close>

text \<open>The product and the remainder are \<^verbatim>\<open>unsigned\<close>; the result is converted to \<^verbatim>\<open>int\<close>.\<close>

definition ipt_hash :: "ipt_t \<Rightarrow> virt_addr_t \<Rightarrow> int res" where
  "ipt_hash ipt addr =
     (let sz = (word_of_int (ipt_size ipt) :: u32)
      in if sz = 0 then Inl DivByZero else Inr (sint ((va_pid addr * va_page addr) mod sz)))"

definition ipt_hat_idx_of :: "ipt_t \<Rightarrow> virt_addr_t \<Rightarrow> int res" where
  "ipt_hat_idx_of ipt addr =
     rbind (ipt_hash ipt addr) (\<lambda>h. rbind (arr_get (ipt_hat ipt) h) (\<lambda>e. Inr (hat_ipt_idx e)))"

definition ipt_set_hat :: "ipt_t \<Rightarrow> virt_addr_t \<Rightarrow> int \<Rightarrow> ipt_t res" where
  "ipt_set_hat ipt addr idx =
     rbind (ipt_hash ipt addr) (\<lambda>h.
     rbind (arr_get (ipt_hat ipt) h) (\<lambda>e.
     rbind (arr_set (ipt_hat ipt) h (e\<lparr>hat_ipt_idx := idx\<rparr>)) (\<lambda>hat'.
     Inr (ipt\<lparr>ipt_hat := hat'\<rparr>))))"

definition upd_entry :: "ipt_t \<Rightarrow> int \<Rightarrow> (ipt_entry_t \<Rightarrow> ipt_entry_t) \<Rightarrow> ipt_t res" where
  "upd_entry ipt idx f =
     rbind (arr_get (ipt_entries ipt) idx) (\<lambda>e.
     rbind (arr_set (ipt_entries ipt) idx (f e)) (\<lambda>es. Inr (ipt\<lparr>ipt_entries := es\<rparr>)))"

text \<open>Popping an empty queue gives \<^verbatim>\<open>NULL\<close>, whose cast to \<^verbatim>\<open>int\<close> is 0.\<close>

definition ipt_get_next_free_entry :: "ipt_t \<Rightarrow> (int \<times> ipt_t) res" where
  "ipt_get_next_free_entry ipt =
     (if queue_size (ipt_free_pages ipt) = 0 then Inr (ipt_invalid, ipt)
      else rbind (queue_pop (ipt_free_pages ipt)) (\<lambda>(d, q).
           Inr (case d of None \<Rightarrow> 0 | Some i \<Rightarrow> i, ipt\<lparr>ipt_free_pages := q\<rparr>)))"

text \<open>
  The search along a chain. A walk of more rounds than there are entries has met an entry twice
  and never ends: the fuel is one more than the number of entries.
\<close>

primrec vaddr_walk :: "nat \<Rightarrow> ipt_t \<Rightarrow> virt_addr_t \<Rightarrow> int \<Rightarrow> int res" where
  "vaddr_walk 0 ipt addr idx = Inl Diverges"
| "vaddr_walk (Suc k) ipt addr idx =
     (if idx = ipt_invalid then Inr ipt_invalid
      else rbind (arr_get (ipt_entries ipt) idx) (\<lambda>e.
           if virt_addr_page_eq (pd_addr (ie_page_data e)) addr then Inr idx
           else rbind (cassert (pd_valid (ie_page_data e))) (\<lambda>_. vaddr_walk k ipt addr (ie_next e))))"

definition get_vaddr_idx :: "ipt_t \<Rightarrow> virt_addr_t \<Rightarrow> int res" where
  "get_vaddr_idx ipt addr =
     rbind (ipt_hat_idx_of ipt addr) (\<lambda>idx. vaddr_walk (Suc (length (ipt_entries ipt))) ipt addr idx)"

subsection \<open>Operations\<close>

text \<open>
  \<open>cal\<close> and \<open>calh\<close>: whether \<^verbatim>\<open>calloc\<close> found room for the entries and for the HAT; \<open>oom\<close> answers
  the requests of the free list; \<open>rc\<close> is what \<^verbatim>\<open>pthread_rwlock_init\<close> returned.
\<close>

definition ipt_init :: "bool \<Rightarrow> bool \<Rightarrow> (nat \<Rightarrow> bool) \<Rightarrow> int \<Rightarrow> ipt_t \<Rightarrow> int \<Rightarrow> (errcode_t \<times> ipt_t) res" where
  "ipt_init cal calh oom rc ipt sz =
     (if \<not> cal then Inr (ecFail, ipt\<lparr>ipt_entries := []\<rparr>)
      else
        let ipt1 = ipt\<lparr>ipt_entries := replicate (nat sz)
                         \<lparr>ie_page_data = zero_page_data, ie_next = 0, ie_prev = 0\<rparr>\<rparr>
        in if \<not> calh then Inr (ecFail, ipt1\<lparr>ipt_hat := []\<rparr>)
           else
             rbind (queue_init oom) (\<lambda>q.
             let ipt2 = ipt1\<lparr>ipt_hat := replicate (nat sz) \<lparr>hat_ipt_idx = 0\<rparr>, ipt_free_pages := q,
                             ipt_size := sz, ipt_ref_count := 0\<rparr>;
                 (ec, l) = rwlock_init rc
             in if ec \<noteq> ecSuccess then Inr (ecFail, ipt2)
                else rbind (for_loop (nat sz) 0
                       (\<lambda>i t. rbind (upd_entry t i (\<lambda>e. e\<lparr>ie_next := ipt_invalid, ie_prev := ipt_invalid\<rparr>)) (\<lambda>t1.
                              rbind (arr_get (ipt_hat t1) i) (\<lambda>he.
                              rbind (arr_set (ipt_hat t1) i (he\<lparr>hat_ipt_idx := ipt_invalid\<rparr>)) (\<lambda>hat'.
                              rbind (queue_push (ipt_free_pages t1) i) (\<lambda>(_, q').
                              Inr (t1\<lparr>ipt_hat := hat', ipt_free_pages := q'\<rparr>))))))
                       (ipt2\<lparr>ipt_refcnt_lock := l\<rparr>))
                     (\<lambda>ipt3. Inr (ecSuccess, ipt3))))"

definition fresh_slot :: "virt_addr_t \<Rightarrow> int \<Rightarrow> int \<Rightarrow> ipt_entry_t \<Rightarrow> ipt_entry_t" where
  "fresh_slot addr nxt prv e =
     e\<lparr>ie_next := nxt, ie_prev := prv,
       ie_page_data := (ie_page_data e)\<lparr>pd_addr := addr, pd_dirty := False, pd_referenced := False,
                          pd_valid := True, pd_page_age := set_msb 0 True\<rparr>\<rparr>"

definition init_ipt_slot :: "ipt_t \<Rightarrow> int \<Rightarrow> virt_addr_t \<Rightarrow> int \<Rightarrow> int \<Rightarrow> ipt_t res" where
  "init_ipt_slot ipt idx addr nxt prv = upd_entry ipt idx (fresh_slot addr nxt prv)"

definition ipt_has_translation :: "ipt_t \<Rightarrow> virt_addr_t \<Rightarrow> bool res" where
  "ipt_has_translation ipt addr = rbind (get_vaddr_idx ipt addr) (\<lambda>i. Inr (i \<noteq> ipt_invalid))"

definition ipt_is_dirty :: "ipt_t \<Rightarrow> virt_addr_t \<Rightarrow> bool res" where
  "ipt_is_dirty ipt addr =
     rbind (ipt_has_translation ipt addr) (\<lambda>b.
     rbind (cassert b) (\<lambda>_.
     rbind (get_vaddr_idx ipt addr) (\<lambda>i.
     rbind (arr_get (ipt_entries ipt) i) (\<lambda>e. Inr (pd_dirty (ie_page_data e))))))"

definition ipt_reference :: "ipt_t \<Rightarrow> virt_addr_t \<Rightarrow> ipt_ref_t \<Rightarrow> (errcode_t \<times> ipt_t) res" where
  "ipt_reference ipt addr reftype =
     rbind (ipt_has_translation ipt addr) (\<lambda>b.
     rbind (cassert b) (\<lambda>_.
     rbind (get_vaddr_idx ipt addr) (\<lambda>i.
     rbind (upd_entry ipt i (\<lambda>e. e\<lparr>ie_page_data := (ie_page_data e)\<lparr>pd_referenced := True\<rparr>\<rparr>)) (\<lambda>ipt1.
     rbind (if reftype = refWrite then
              rbind (get_vaddr_idx ipt1 addr) (\<lambda>i.
              upd_entry ipt1 i (\<lambda>e. e\<lparr>ie_page_data := (ie_page_data e)\<lparr>pd_dirty := True\<rparr>\<rparr>))
            else Inr ipt1) (\<lambda>ipt2.
     rbind (wr_start (ipt_refcnt_lock ipt2)) (\<lambda>l.
     rbind (wr_end l) (\<lambda>l'.
     Inr (ecSuccess, ipt2\<lparr>ipt_ref_count := ipt_ref_count ipt2 + 1, ipt_refcnt_lock := l'\<rparr>))))))))"

definition ipt_translate :: "ipt_t \<Rightarrow> virt_addr_t \<Rightarrow> (errcode_t \<times> phys_addr_t) res" where
  "ipt_translate ipt addr =
     rbind (get_vaddr_idx ipt addr) (\<lambda>i.
     let paddr = (word_of_int i :: phys_addr_t)
     in rbind (cassert (paddr \<noteq> word_of_int ipt_invalid)) (\<lambda>_. Inr (ecSuccess, paddr)))"

primrec last_walk :: "nat \<Rightarrow> ipt_t \<Rightarrow> int \<Rightarrow> int \<Rightarrow> int res" where
  "last_walk 0 ipt idx prev_idx = Inl Diverges"
| "last_walk (Suc k) ipt idx prev_idx =
     (if idx \<noteq> ipt_invalid
      then rbind (arr_get (ipt_entries ipt) idx) (\<lambda>e. last_walk k ipt (ie_next e) idx)
      else Inr prev_idx)"

definition ipt_hash_list_last_element :: "ipt_t \<Rightarrow> virt_addr_t \<Rightarrow> int res" where
  "ipt_hash_list_last_element ipt addr =
     rbind (ipt_hat_idx_of ipt addr) (\<lambda>idx.
     last_walk (Suc (length (ipt_entries ipt))) ipt idx ipt_invalid)"

definition ipt_add :: "ipt_t \<Rightarrow> virt_addr_t \<Rightarrow> (errcode_t \<times> ipt_t) res" where
  "ipt_add ipt addr =
     rbind (ipt_get_next_free_entry ipt) (\<lambda>(new_idx, ipt1).
     if new_idx = ipt_invalid then Inr (ecFail, ipt1)
     else
       rbind (ipt_hash_list_last_element ipt1 addr) (\<lambda>tail_idx.
       rbind (if tail_idx = ipt_invalid then ipt_set_hat ipt1 addr new_idx
              else upd_entry ipt1 tail_idx (\<lambda>e. e\<lparr>ie_next := new_idx\<rparr>)) (\<lambda>ipt2.
       rbind (init_ipt_slot ipt2 new_idx addr (- 1) tail_idx) (\<lambda>ipt3.
       Inr (ecSuccess, ipt3)))))"

definition ipt_remove :: "ipt_t \<Rightarrow> virt_addr_t \<Rightarrow> (errcode_t \<times> ipt_t) res" where
  "ipt_remove ipt addr =
     rbind (get_vaddr_idx ipt addr) (\<lambda>idx.
     if idx = ipt_invalid then Inr (ecNotFound, ipt)
     else
       rbind (arr_get (ipt_entries ipt) idx) (\<lambda>e.
       let prev_idx = ie_prev e; next_idx = ie_next e in
       rbind (if prev_idx = ipt_invalid then ipt_set_hat ipt addr next_idx else Inr ipt) (\<lambda>ipt1.
       rbind (if next_idx \<noteq> ipt_invalid
              then upd_entry ipt1 next_idx (\<lambda>e. e\<lparr>ie_prev := prev_idx\<rparr>) else Inr ipt1) (\<lambda>ipt2.
       rbind (if prev_idx \<noteq> ipt_invalid
              then upd_entry ipt2 prev_idx (\<lambda>e. e\<lparr>ie_next := next_idx\<rparr>) else Inr ipt2) (\<lambda>ipt3.
       rbind (upd_entry ipt3 idx (\<lambda>e. e\<lparr>ie_page_data := (ie_page_data e)\<lparr>pd_valid := False\<rparr>\<rparr>)) (\<lambda>ipt4.
       rbind (queue_push (ipt_free_pages ipt4) idx) (\<lambda>(_, q).
       Inr (ecSuccess, ipt4\<lparr>ipt_free_pages := q\<rparr>))))))))"

text \<open>
  The callback gets the frame number and may change the page data; \<open>'s\<close> is whatever else it
  writes (the file-level variables of the page replacement manager, for instance).
\<close>

definition ipt_for_each_entry ::
  "ipt_t \<Rightarrow> (phys_addr_t \<Rightarrow> page_data_t \<Rightarrow> 's \<Rightarrow> page_data_t \<times> 's) \<Rightarrow> 's \<Rightarrow> (errcode_t \<times> ipt_t \<times> 's) res" where
  "ipt_for_each_entry ipt func s =
     rbind (for_loop (nat (ipt_size ipt)) 0
       (\<lambda>i (t, s). rbind (arr_get (ipt_entries t) i) (\<lambda>e.
          if pd_valid (ie_page_data e) then
            let (pd, s') = func (word_of_int i) (ie_page_data e) s
            in rbind (upd_entry t i (\<lambda>e. e\<lparr>ie_page_data := pd\<rparr>)) (\<lambda>t'. Inr (t', s'))
          else Inr (t, s))) (ipt, s))
     (\<lambda>(t, s). Inr (ecSuccess, t, s))"

definition ipt_ref_count_of :: "ipt_t \<Rightarrow> (errcode_t \<times> u32 \<times> ipt_t) res" where
  "ipt_ref_count_of ipt =
     rbind (rd_start (ipt_refcnt_lock ipt)) (\<lambda>l.
     rbind (rd_end l) (\<lambda>l'. Inr (ecSuccess, ipt_ref_count ipt, ipt\<lparr>ipt_refcnt_lock := l'\<rparr>)))"

definition ipt_zero_ref_count :: "ipt_t \<Rightarrow> (errcode_t \<times> ipt_t) res" where
  "ipt_zero_ref_count ipt =
     rbind (wr_start (ipt_refcnt_lock ipt)) (\<lambda>l.
     rbind (wr_end l) (\<lambda>l'. Inr (ecSuccess, ipt\<lparr>ipt_ref_count := 0, ipt_refcnt_lock := l'\<rparr>)))"

text \<open>The result is what is left of the free list: \<open>None\<close> when it has been freed.\<close>

definition ipt_destroy :: "ipt_t \<Rightarrow> int queue_t option res" where
  "ipt_destroy ipt =
     rbind (rwlock_destroy (ipt_refcnt_lock ipt)) (\<lambda>_.
     rbind (queue_drain (Suc (nat (queue_size (ipt_free_pages ipt)))) (ipt_free_pages ipt)) (\<lambda>q.
     Inr (snd (queue_destroy q))))"

end
