(* ===== verification/Ipt_Chains.thy ===== *)
theory Ipt_Chains
  imports Ipt
begin

text \<open>
  The doubly linked chains of the inverted page table: segments of entries linked by \<open>ie_next\<close>
  and \<open>ie_prev\<close>, how they split, and what the updates of \<^verbatim>\<open>ipt_add\<close> and \<^verbatim>\<open>ipt_remove\<close> do to
  them.
\<close>

subsection \<open>Segments\<close>

text \<open>
  \<open>dseg es p i ks q j\<close>: starting at index \<open>i\<close>, whose predecessor is \<open>p\<close>, the links lead through
  the entries \<open>ks\<close> to the index \<open>j\<close>, whose predecessor is \<open>q\<close>.
\<close>

fun dseg :: "ipt_entry_t list \<Rightarrow> int \<Rightarrow> int \<Rightarrow> nat list \<Rightarrow> int \<Rightarrow> int \<Rightarrow> bool" where
  "dseg es p i [] q j = (p = q \<and> i = j)"
| "dseg es p i (k # ks) q j =
     (i = int k \<and> k < length es \<and> ie_prev (es ! k) = p \<and> dseg es (int k) (ie_next (es ! k)) ks q j)"

lemma dseg_append:
  "dseg es p i (xs @ ys) q j \<longleftrightarrow> (\<exists>r m. dseg es p i xs r m \<and> dseg es r m ys q j)"
  by (induction xs arbitrary: p i) auto

lemma dseg_bound: "dseg es p i ks q j \<Longrightarrow> k \<in> set ks \<Longrightarrow> k < length es"
  by (induction ks arbitrary: p i) auto

lemma dseg_last: "dseg es p i ks q j \<Longrightarrow> q = (if ks = [] then p else int (last ks))"
  by (induction ks arbitrary: p i) auto

lemma dseg_first: "dseg es p i ks q j \<Longrightarrow> i = (if ks = [] then j else int (hd ks))"
  by (cases ks) auto

lemma dseg_cong:
  assumes "dseg es p i ks q j" "length es' = length es"
    and "\<And>k. k \<in> set ks \<Longrightarrow> ie_next (es' ! k) = ie_next (es ! k) \<and> ie_prev (es' ! k) = ie_prev (es ! k)"
  shows "dseg es' p i ks q j"
  using assms(1,3)
proof (induction ks arbitrary: p i)
  case (Cons k ks)
  then show ?case using assms(2) by simp
qed simp

text \<open>A segment whose last entry gets another successor, or whose first entry another
  predecessor.\<close>

lemma dseg_relink_last:
  assumes "dseg es p i (xs @ [a]) q j" "length es' = length es"
    and "\<And>k. k \<in> set xs \<Longrightarrow> ie_next (es' ! k) = ie_next (es ! k)"
    and "\<And>k. k \<in> set (xs @ [a]) \<Longrightarrow> ie_prev (es' ! k) = ie_prev (es ! k)"
    and "ie_next (es' ! a) = m"
  shows "dseg es' p i (xs @ [a]) (int a) m"
proof -
  obtain r where r: "dseg es p i xs r (int a)" "a < length es" "ie_prev (es ! a) = r"
    using assms(1) by (auto simp: dseg_append)
  have "dseg es' p i xs r (int a)" by (rule dseg_cong [OF r(1)]) (use assms in auto)
  with r assms show ?thesis by (auto simp: dseg_append)
qed

lemma dseg_relink_first:
  assumes "dseg es p i (b # ys) q j" "length es' = length es"
    and "\<And>k. k \<in> set (b # ys) \<Longrightarrow> ie_next (es' ! k) = ie_next (es ! k)"
    and "\<And>k. k \<in> set ys \<Longrightarrow> ie_prev (es' ! k) = ie_prev (es ! k)"
    and "ie_prev (es' ! b) = p'"
  shows "dseg es' p' (int b) (b # ys) q j"
proof -
  have "dseg es' (int b) (ie_next (es ! b)) ys q j"
    by (rule dseg_cong [of es]) (use assms in auto)
  with assms show ?thesis by auto
qed

text \<open>Unlinking one entry, and linking one at the end.\<close>

lemma dseg_unlink:
  assumes seg: "dseg es p i (xs @ k # ys) q (- 1)" and len: "length es' = length es"
    and dist: "distinct (xs @ k # ys)" and j: "j = ie_next (es ! k)" and r: "r = ie_prev (es ! k)"
    and nxt: "\<And>a. a \<in> set (xs @ ys) \<Longrightarrow>
                ie_next (es' ! a) = (if xs \<noteq> [] \<and> a = last xs then j else ie_next (es ! a))"
    and prv: "\<And>a. a \<in> set (xs @ ys) \<Longrightarrow>
                ie_prev (es' ! a) = (if ys \<noteq> [] \<and> a = hd ys then r else ie_prev (es ! a))"
  shows "\<exists>q'. dseg es' p (if xs = [] then j else i) (xs @ ys) q' (- 1)"
proof -
  have k: "dseg es p i xs r (int k)" "dseg es (int k) j ys q (- 1)"
    using seg j r by (auto simp: dseg_append)
  have left: "dseg es' p (if xs = [] then j else i) xs r j"
  proof (cases xs rule: rev_cases)
    case (snoc zs a)
    have "dseg es' p i (zs @ [a]) (int a) j"
    proof (rule dseg_relink_last [OF _ len])
      show "dseg es p i (zs @ [a]) r (int k)" using k(1) snoc by simp
      show "ie_next (es' ! a) = j" using nxt [of a] snoc by simp
      show "ie_next (es' ! b) = ie_next (es ! b)" if "b \<in> set zs" for b
        using nxt [of b] that snoc dist by auto
      show "ie_prev (es' ! b) = ie_prev (es ! b)" if "b \<in> set (zs @ [a])" for b
        using prv [of b] that snoc dist by (cases ys) auto
    qed
    with k(1) snoc dseg_last [OF k(1)] show ?thesis by simp
  qed (use k in simp)
  have "\<exists>q'. dseg es' r j ys q' (- 1)"
  proof (cases ys)
    case (Cons b zs)
    have "dseg es' r (int b) (b # zs) q (- 1)"
    proof (rule dseg_relink_first [OF _ len])
      show "dseg es (int k) j (b # zs) q (- 1)" using k(2) Cons by simp
      show "ie_prev (es' ! b) = r" using prv [of b] Cons by simp
      show "ie_prev (es' ! a) = ie_prev (es ! a)" if "a \<in> set zs" for a
        using prv [of a] that Cons dist by auto
      show "ie_next (es' ! a) = ie_next (es ! a)" if "a \<in> set (b # zs)" for a
      proof -
        have "a \<notin> set xs" using that Cons dist by auto
        then have "xs \<noteq> [] \<Longrightarrow> a \<noteq> last xs" using last_in_set [of xs] by auto
        then show ?thesis using nxt [of a] that Cons by auto
      qed
    qed
    with k(2) Cons show ?thesis by auto
  qed (use k in simp)
  with left show ?thesis using dseg_append by blast
qed

lemma dseg_link_last:
  assumes seg: "dseg es p i ks q (- 1)" and len: "length es' = length es"
    and dist: "distinct ks" "k \<notin> set ks" "k < length es"
    and nxt: "\<And>a. a \<in> set ks \<Longrightarrow> ie_next (es' ! a) = (if a = last ks then int k else ie_next (es ! a))"
    and prv: "\<And>a. a \<in> set ks \<Longrightarrow> ie_prev (es' ! a) = ie_prev (es ! a)"
    and new: "ie_next (es' ! k) = - 1" "ie_prev (es' ! k) = q"
  shows "dseg es' p (if ks = [] then int k else i) (ks @ [k]) (int k) (- 1)"
proof (cases ks rule: rev_cases)
  case (snoc zs a)
  have "dseg es' p i (zs @ [a]) (int a) (int k)"
  proof (rule dseg_relink_last [OF _ len])
    show "dseg es p i (zs @ [a]) q (- 1)" using seg snoc by simp
    show "ie_next (es' ! a) = int k" using nxt [of a] snoc by simp
    show "ie_next (es' ! b) = ie_next (es ! b)" if "b \<in> set zs" for b
      using nxt [of b] that snoc dist by auto
    show "ie_prev (es' ! b) = ie_prev (es ! b)" if "b \<in> set (zs @ [a])" for b
      using prv [of b] that snoc by auto
  qed
  moreover have "q = int a" using dseg_last [OF seg] snoc by simp
  ultimately have "dseg es' p i ((zs @ [a]) @ [k]) (int k) (- 1)"
    using new dist(3) len by (subst dseg_append) auto
  with snoc show ?thesis by simp
qed (use seg new dist len in auto)

end
