(* ===== verification/Ipt_Proofs.thy ===== *)
theory Ipt_Proofs
  imports Ipt_Chains
begin

text \<open>
  The inverted page table as a partial map from virtual pages to frames together with a queue of
  spare frames: the representation invariant, what a lookup finds, and what every operation does
  to the map, the spare frames and the page data.
\<close>

subsection \<open>Abstraction and representation\<close>

abbreviation ipt_n :: "ipt_t \<Rightarrow> nat" where
  "ipt_n ipt \<equiv> length (ipt_entries ipt)"

definition ipt_pd :: "ipt_t \<Rightarrow> nat \<Rightarrow> page_data_t" where
  "ipt_pd ipt k = ie_page_data (ipt_entries ipt ! k)"

abbreviation ipt_key :: "ipt_t \<Rightarrow> nat \<Rightarrow> vkey" where
  "ipt_key ipt k \<equiv> vkey (pd_addr (ipt_pd ipt k))"

abbreviation ipt_valid :: "ipt_t \<Rightarrow> nat \<Rightarrow> bool" where
  "ipt_valid ipt k \<equiv> pd_valid (ipt_pd ipt k)"

definition ipt_abs :: "ipt_t \<Rightarrow> vkey \<rightharpoonup> nat" where
  "ipt_abs ipt key = find (\<lambda>k. ipt_valid ipt k \<and> ipt_key ipt k = key) [0..<ipt_n ipt]"

definition ipt_spare :: "ipt_t \<Rightarrow> nat list" where
  "ipt_spare ipt = map nat (queue_list (ipt_free_pages ipt))"

definition hash_of :: "nat \<Rightarrow> vkey \<Rightarrow> nat" where
  "hash_of n key = unat (fst key * snd key) mod n"

text \<open>\<open>B h\<close> is the chain of hash value \<open>h\<close>, \<open>F\<close> the list of spare frames.\<close>

definition ipt_rep :: "ipt_t \<Rightarrow> (nat \<Rightarrow> nat list) \<Rightarrow> nat list \<Rightarrow> bool" where
  "ipt_rep ipt B F \<longleftrightarrow>
     0 < ipt_n ipt \<and> ipt_n ipt < 2 ^ 31 \<and> ipt_size ipt = int (ipt_n ipt) \<and>
     length (ipt_hat ipt) = ipt_n ipt \<and> ipt_refcnt_lock ipt = rw_free \<and>
     queue_inv (ipt_free_pages ipt) \<and> queue_list (ipt_free_pages ipt) = map int F \<and>
     distinct F \<and> set F = {k. k < ipt_n ipt \<and> \<not> ipt_valid ipt k} \<and>
     (\<forall>h < ipt_n ipt. distinct (B h) \<and>
        (\<exists>q. dseg (ipt_entries ipt) (- 1) (hat_ipt_idx (ipt_hat ipt ! h)) (B h) q (- 1)) \<and>
        set (B h) = {k. k < ipt_n ipt \<and> ipt_valid ipt k \<and> hash_of (ipt_n ipt) (ipt_key ipt k) = h}) \<and>
     (\<forall>k < ipt_n ipt. \<forall>k' < ipt_n ipt. ipt_valid ipt k \<and> ipt_valid ipt k' \<and>
        ipt_key ipt k = ipt_key ipt k' \<longrightarrow> k = k')"

definition ipt_inv :: "ipt_t \<Rightarrow> bool" where
  "ipt_inv ipt \<longleftrightarrow> (\<exists>B F. ipt_rep ipt B F)"

lemma ipt_invI: "ipt_rep ipt B F \<Longrightarrow> ipt_inv ipt"
  unfolding ipt_inv_def by blast

lemma ipt_repD:
  assumes "ipt_rep ipt B F"
  shows "0 < ipt_n ipt" "ipt_n ipt < 2 ^ 31" "ipt_size ipt = int (ipt_n ipt)"
    "length (ipt_hat ipt) = ipt_n ipt" "ipt_refcnt_lock ipt = rw_free"
    "queue_inv (ipt_free_pages ipt)" "queue_list (ipt_free_pages ipt) = map int F" "distinct F"
    "set F = {k. k < ipt_n ipt \<and> \<not> ipt_valid ipt k}"
    "\<And>h. h < ipt_n ipt \<Longrightarrow> distinct (B h)"
    "\<And>h. h < ipt_n ipt \<Longrightarrow>
       \<exists>q. dseg (ipt_entries ipt) (- 1) (hat_ipt_idx (ipt_hat ipt ! h)) (B h) q (- 1)"
    "\<And>h. h < ipt_n ipt \<Longrightarrow>
       set (B h) = {k. k < ipt_n ipt \<and> ipt_valid ipt k \<and> hash_of (ipt_n ipt) (ipt_key ipt k) = h}"
    "\<And>k k'. k < ipt_n ipt \<Longrightarrow> k' < ipt_n ipt \<Longrightarrow> ipt_valid ipt k \<Longrightarrow> ipt_valid ipt k' \<Longrightarrow>
       ipt_key ipt k = ipt_key ipt k' \<Longrightarrow> k = k'"
  using assms unfolding ipt_rep_def by simp_all

lemma ipt_spare_rep: "ipt_rep ipt B F \<Longrightarrow> ipt_spare ipt = F"
  by (simp add: ipt_spare_def ipt_repD(7) o_def)

lemma hash_of_less: "0 < n \<Longrightarrow> hash_of n key < n"
  by (simp add: hash_of_def)

text \<open>The map, read off the entries.\<close>

lemma ipt_abs_Some:
  assumes "ipt_inv ipt"
  shows "ipt_abs ipt key = Some k \<longleftrightarrow> k < ipt_n ipt \<and> ipt_valid ipt k \<and> ipt_key ipt k = key"
proof -
  obtain B F where rep: "ipt_rep ipt B F" using assms by (auto simp: ipt_inv_def)
  show ?thesis
  proof
    assume "ipt_abs ipt key = Some k"
    then show "k < ipt_n ipt \<and> ipt_valid ipt k \<and> ipt_key ipt k = key"
      by (auto simp: ipt_abs_def find_Some_iff)
  next
    assume k: "k < ipt_n ipt \<and> ipt_valid ipt k \<and> ipt_key ipt k = key"
    have "\<not> (ipt_valid ipt j \<and> ipt_key ipt j = key)" if "j < k" for j
      using ipt_repD(13) [OF rep, of j k] k that by auto
    with k show "ipt_abs ipt key = Some k"
      by (auto simp: ipt_abs_def find_Some_iff intro!: exI [of _ k])
  qed
qed

lemma ipt_abs_None:
  "ipt_abs ipt key = None \<longleftrightarrow> (\<forall>k < ipt_n ipt. ipt_valid ipt k \<longrightarrow> ipt_key ipt k \<noteq> key)"
  by (auto simp: ipt_abs_def find_None_iff)

lemma ipt_abs_ran: "ipt_inv ipt \<Longrightarrow> ipt_abs ipt key = Some k \<Longrightarrow> k < ipt_n ipt"
  and ipt_abs_inj: "ipt_inv ipt \<Longrightarrow> ipt_abs ipt key = Some k \<Longrightarrow> ipt_abs ipt key' = Some k \<Longrightarrow> key = key'"
  by (auto simp: ipt_abs_Some)

lemma ipt_spare_set:
  assumes "ipt_inv ipt"
  shows "distinct (ipt_spare ipt)" "set (ipt_spare ipt) = {k. k < ipt_n ipt \<and> \<not> ipt_valid ipt k}"
  using assms ipt_repD(8,9) ipt_spare_rep by (auto simp: ipt_inv_def)

text \<open>Every frame is either spare or holds exactly one page.\<close>

lemma ipt_partition:
  "ipt_inv ipt \<Longrightarrow> set (ipt_spare ipt) \<union> ran (ipt_abs ipt) = {..<ipt_n ipt} \<and>
     set (ipt_spare ipt) \<inter> ran (ipt_abs ipt) = {}"
  by (auto simp: ipt_spare_set ran_def ipt_abs_Some)

subsection \<open>Lookup\<close>

lemma ipt_hash_rep:
  assumes "ipt_rep ipt B F"
  shows "ipt_hash ipt addr = Inr (int (hash_of (ipt_n ipt) (vkey addr)))"
proof -
  let ?n = "ipt_n ipt" let ?sz = "word_of_int (int ?n) :: u32"
  have n: "0 < ?n" "?n < 2 ^ 31" using ipt_repD [OF assms] by simp_all
  then have sz: "unat ?sz = ?n" by (simp add: unat_of_nat take_bit_nat_eq_self)
  let ?m = "(va_pid addr * va_page addr) mod ?sz"
  have um: "unat ?m = hash_of ?n (vkey addr)" unfolding unat_mod sz by (simp add: hash_of_def vkey_def)
  then have "unat ?m < 2 ^ 31" using hash_of_less [OF n(1), of "vkey addr"] n(2) by linarith
  then have "sint ?m = int (unat ?m)" by (rule sint_small)
  then have "sint ?m = int (hash_of ?n (vkey addr))" by (simp only: um)
  moreover have "?sz \<noteq> 0" using sz n by (metis unat_0 less_irrefl)
  ultimately show ?thesis using ipt_repD(3) [OF assms] by (simp add: ipt_hash_def Let_def)
qed

lemma ipt_hat_idx_of_rep:
  "ipt_rep ipt B F \<Longrightarrow>
   ipt_hat_idx_of ipt addr = Inr (hat_ipt_idx (ipt_hat ipt ! hash_of (ipt_n ipt) (vkey addr)))"
  using hash_of_less [OF ipt_repD(1)] by (simp add: ipt_hat_idx_of_def ipt_hash_rep ipt_repD(4))

lemma vaddr_walk_dseg:
  assumes "dseg (ipt_entries ipt) p i ks q (- 1)" "\<And>k. k \<in> set ks \<Longrightarrow> ipt_valid ipt k"
    and "length ks < fuel"
  shows "vaddr_walk fuel ipt addr i =
    Inr (case find (\<lambda>k. ipt_key ipt k = vkey addr) ks of None \<Rightarrow> - 1 | Some k \<Rightarrow> int k)"
  using assms
proof (induction fuel arbitrary: p i ks)
  case (Suc fuel)
  then show ?case by (cases ks) (auto simp: ipt_invalid_def ipt_pd_def)
qed simp

lemma bucket_length:
  assumes "ipt_rep ipt B F" "h < ipt_n ipt"
  shows "length (B h) \<le> ipt_n ipt"
proof -
  have "set (B h) \<subseteq> {..<ipt_n ipt}" using ipt_repD(12) [OF assms] by auto
  then have "card (set (B h)) \<le> ipt_n ipt" using card_mono [of "{..<ipt_n ipt}"] by auto
  then show ?thesis using ipt_repD(10) [OF assms] by (simp add: distinct_card)
qed

definition idx_of :: "nat option \<Rightarrow> int" where
  "idx_of r = (case r of None \<Rightarrow> ipt_invalid | Some k \<Rightarrow> int k)"

lemma idx_of_simps [simp]: "idx_of None = - 1" "idx_of (Some k) = int k"
  by (simp_all add: idx_of_def ipt_invalid_def)

lemma get_vaddr_idx_inv:
  assumes "ipt_inv ipt"
  shows "get_vaddr_idx ipt addr = Inr (idx_of (ipt_abs ipt (vkey addr)))"
proof -
  obtain B F where rep: "ipt_rep ipt B F" using assms by (auto simp: ipt_inv_def)
  let ?h = "hash_of (ipt_n ipt) (vkey addr)" let ?P = "\<lambda>k. ipt_key ipt k = vkey addr"
  have h: "?h < ipt_n ipt" using ipt_repD(1) [OF rep] by (rule hash_of_less)
  obtain q where q: "dseg (ipt_entries ipt) (- 1) (hat_ipt_idx (ipt_hat ipt ! ?h)) (B ?h) q (- 1)"
    using ipt_repD(11) [OF rep h] by blast
  have set: "set (B ?h) = {k. k < ipt_n ipt \<and> ipt_valid ipt k \<and> hash_of (ipt_n ipt) (ipt_key ipt k) = ?h}"
    by (rule ipt_repD(12) [OF rep h])
  have "get_vaddr_idx ipt addr = Inr (case find ?P (B ?h) of None \<Rightarrow> - 1 | Some k \<Rightarrow> int k)"
    unfolding get_vaddr_idx_def ipt_hat_idx_of_rep [OF rep] rbind_Inr
    by (rule vaddr_walk_dseg [OF q]) (use set bucket_length [OF rep h] in auto)
  moreover have "find ?P (B ?h) = ipt_abs ipt (vkey addr)"
  proof (cases "find ?P (B ?h)")
    case None
    then have "ipt_abs ipt (vkey addr) = None"
      using set by (auto simp: ipt_abs_None find_None_iff)
    with None show ?thesis by simp
  next
    case (Some k)
    then have "k \<in> set (B ?h)" "?P k" by (auto simp: find_Some_iff)
    then have "ipt_abs ipt (vkey addr) = Some k" using set by (simp add: ipt_abs_Some [OF assms])
    with Some show ?thesis by simp
  qed
  ultimately show ?thesis by (simp add: idx_of_def ipt_invalid_def split: option.split)
qed

lemma ipt_has_translation_inv:
  "ipt_inv ipt \<Longrightarrow> ipt_has_translation ipt addr = Inr (ipt_abs ipt (vkey addr) \<noteq> None)"
  by (cases "ipt_abs ipt (vkey addr)") (simp_all add: ipt_has_translation_def get_vaddr_idx_inv ipt_invalid_def)

subsection \<open>Linking and unlinking an entry\<close>

lemma rep_bucket_other:
  assumes "ipt_rep ipt B F" "h < ipt_n ipt" "h' < ipt_n ipt" "h' \<noteq> h" "a \<in> set (B h')"
  shows "a \<notin> set (B h)" "a < ipt_n ipt" "ipt_valid ipt a"
  using ipt_repD(12) [OF assms(1,2)] ipt_repD(12) [OF assms(1,3)] assms(4,5) by auto

lemma ipt_rep_link:
  assumes rep: "ipt_rep ipt B (k # F)" and h: "h < ipt_n ipt"
    and seg: "dseg (ipt_entries ipt) (- 1) (hat_ipt_idx (ipt_hat ipt ! h)) (B h) q (- 1)"
    and same: "ipt_n ipt' = ipt_n ipt" "ipt_size ipt' = ipt_size ipt" "length (ipt_hat ipt') = length (ipt_hat ipt)"
      "ipt_refcnt_lock ipt' = rw_free" "queue_inv (ipt_free_pages ipt')"
      "queue_list (ipt_free_pages ipt') = map int F"
    and hat: "\<And>j. j < ipt_n ipt \<Longrightarrow> hat_ipt_idx (ipt_hat ipt' ! j) =
        (if j = h \<and> B h = [] then int k else hat_ipt_idx (ipt_hat ipt ! j))"
    and pd: "ipt_pd ipt' = (ipt_pd ipt)(k := pd)" "pd_valid pd" "hash_of (ipt_n ipt) (vkey (pd_addr pd)) = h"
      "ipt_abs ipt (vkey (pd_addr pd)) = None"
    and links: "\<And>a. a < ipt_n ipt \<Longrightarrow> a \<noteq> k \<Longrightarrow> ie_prev (ipt_entries ipt' ! a) = ie_prev (ipt_entries ipt ! a) \<and>
        ie_next (ipt_entries ipt' ! a) =
          (if B h \<noteq> [] \<and> a = last (B h) then int k else ie_next (ipt_entries ipt ! a))"
      "ie_next (ipt_entries ipt' ! k) = - 1" "ie_prev (ipt_entries ipt' ! k) = q"
  shows "ipt_rep ipt' (B(h := B h @ [k])) F"
proof -
  note D = ipt_repD [OF rep]
  have k: "k < ipt_n ipt" "\<not> ipt_valid ipt k" "k \<notin> set F" using D(8,9) by auto
  have kB: "k \<notin> set (B j)" if "j < ipt_n ipt" for j using D(12) [OF that] k(2) by auto
  have new: "\<exists>q'. dseg (ipt_entries ipt') (- 1) (hat_ipt_idx (ipt_hat ipt' ! h)) (B h @ [k]) q' (- 1)"
  proof -
    have "dseg (ipt_entries ipt') (- 1) (if B h = [] then int k else hat_ipt_idx (ipt_hat ipt ! h))
            (B h @ [k]) (int k) (- 1)"
      by (rule dseg_link_last [OF seg same(1) D(10) [OF h] kB [OF h] k(1)])
        (use links kB [OF h] dseg_bound [OF seg] in \<open>force+\<close>)
    then show ?thesis using hat [OF h] by auto
  qed
  have old: "\<exists>q'. dseg (ipt_entries ipt') (- 1) (hat_ipt_idx (ipt_hat ipt' ! j)) (B j) q' (- 1)"
    if j: "j < ipt_n ipt" "j \<noteq> h" for j
  proof -
    obtain q' where q': "dseg (ipt_entries ipt) (- 1) (hat_ipt_idx (ipt_hat ipt ! j)) (B j) q' (- 1)"
      using D(11) [OF j(1)] by blast
    have "dseg (ipt_entries ipt') (- 1) (hat_ipt_idx (ipt_hat ipt ! j)) (B j) q' (- 1)"
    proof (rule dseg_cong [OF q' same(1)])
      fix a assume a: "a \<in> set (B j)"
      note o = rep_bucket_other [OF rep h j a]
      have "a \<noteq> k" using kB [OF j(1)] a by auto
      moreover have "\<not> (B h \<noteq> [] \<and> a = last (B h))" using o(1) by auto
      ultimately show "ie_next (ipt_entries ipt' ! a) = ie_next (ipt_entries ipt ! a) \<and>
          ie_prev (ipt_entries ipt' ! a) = ie_prev (ipt_entries ipt ! a)"
        using links(1) [OF o(2)] by (simp split del: if_split) argo
    qed
    with hat [OF j(1)] j(2) show ?thesis by auto
  qed
  have "\<forall>j < ipt_n ipt. distinct ((B(h := B h @ [k])) j) \<and>
        (\<exists>q. dseg (ipt_entries ipt') (- 1) (hat_ipt_idx (ipt_hat ipt' ! j)) ((B(h := B h @ [k])) j) q (- 1)) \<and>
        set ((B(h := B h @ [k])) j) =
          {a. a < ipt_n ipt \<and> ipt_valid ipt' a \<and> hash_of (ipt_n ipt) (ipt_key ipt' a) = j}"
    using D(10,12) kB new old pd k by auto
  moreover have "\<forall>a < ipt_n ipt. \<forall>b < ipt_n ipt. ipt_valid ipt' a \<and> ipt_valid ipt' b \<and>
        ipt_key ipt' a = ipt_key ipt' b \<longrightarrow> a = b"
    using D(13) pd by (auto simp: ipt_abs_None)
  moreover have "set F = {a. a < ipt_n ipt \<and> \<not> ipt_valid ipt' a}"
  proof -
    have "set F = set (k # F) - {k}" using k(3) by auto
    also have "\<dots> = {a. a < ipt_n ipt \<and> \<not> ipt_valid ipt' a}" unfolding D(9) using pd(1,2) by auto
    finally show ?thesis .
  qed
  ultimately show ?thesis
    using D(1-4,8) same unfolding ipt_rep_def by simp
qed

lemma ipt_rep_unlink:
  assumes rep: "ipt_rep ipt B F" and h: "h < ipt_n ipt" and B: "B h = xs @ k # ys"
    and same: "ipt_n ipt' = ipt_n ipt" "ipt_size ipt' = ipt_size ipt" "length (ipt_hat ipt') = length (ipt_hat ipt)"
      "ipt_refcnt_lock ipt' = rw_free" "queue_inv (ipt_free_pages ipt')"
      "queue_list (ipt_free_pages ipt') = map int (F @ [k])"
    and hat: "\<And>j. j < ipt_n ipt \<Longrightarrow> hat_ipt_idx (ipt_hat ipt' ! j) =
        (if j = h \<and> xs = [] then ie_next (ipt_entries ipt ! k) else hat_ipt_idx (ipt_hat ipt ! j))"
    and pd: "ipt_pd ipt' = (ipt_pd ipt)(k := pd)" "\<not> pd_valid pd"
    and links: "\<And>a. a < ipt_n ipt \<Longrightarrow> a \<noteq> k \<Longrightarrow>
        ie_next (ipt_entries ipt' ! a) =
          (if xs \<noteq> [] \<and> a = last xs then ie_next (ipt_entries ipt ! k) else ie_next (ipt_entries ipt ! a)) \<and>
        ie_prev (ipt_entries ipt' ! a) =
          (if ys \<noteq> [] \<and> a = hd ys then ie_prev (ipt_entries ipt ! k) else ie_prev (ipt_entries ipt ! a))"
  shows "ipt_rep ipt' (B(h := xs @ ys)) (F @ [k])"
proof -
  note D = ipt_repD [OF rep]
  have k: "k < ipt_n ipt" "ipt_valid ipt k" "k \<notin> set F" using D(12) [OF h] B D(9) by auto
  have dist: "distinct (xs @ k # ys)" using D(10) [OF h] B by simp
  have xsys: "a < ipt_n ipt \<and> a \<noteq> k" if "a \<in> set (xs @ ys)" for a
    using D(12) [OF h] B that dist by auto
  obtain q where seg: "dseg (ipt_entries ipt) (- 1) (hat_ipt_idx (ipt_hat ipt ! h)) (xs @ k # ys) q (- 1)"
    using D(11) [OF h] B by auto
  have new: "\<exists>q'. dseg (ipt_entries ipt') (- 1) (hat_ipt_idx (ipt_hat ipt' ! h)) (xs @ ys) q' (- 1)"
    using dseg_unlink [OF seg same(1) dist refl refl] links xsys hat [OF h] by simp
  have old: "\<exists>q'. dseg (ipt_entries ipt') (- 1) (hat_ipt_idx (ipt_hat ipt' ! j)) (B j) q' (- 1)"
    if j: "j < ipt_n ipt" "j \<noteq> h" for j
  proof -
    obtain q' where q': "dseg (ipt_entries ipt) (- 1) (hat_ipt_idx (ipt_hat ipt ! j)) (B j) q' (- 1)"
      using D(11) [OF j(1)] by blast
    have "dseg (ipt_entries ipt') (- 1) (hat_ipt_idx (ipt_hat ipt ! j)) (B j) q' (- 1)"
    proof (rule dseg_cong [OF q' same(1)])
      fix a assume a: "a \<in> set (B j)"
      note o = rep_bucket_other [OF rep h j a]
      have "a \<notin> set xs" "a \<noteq> k" "a \<notin> set ys" using o(1) B by auto
      then have "\<not> (xs \<noteq> [] \<and> a = last xs)" "\<not> (ys \<noteq> [] \<and> a = hd ys)" "a \<noteq> k" by auto
      then show "ie_next (ipt_entries ipt' ! a) = ie_next (ipt_entries ipt ! a) \<and>
          ie_prev (ipt_entries ipt' ! a) = ie_prev (ipt_entries ipt ! a)"
        using links [OF o(2)] by (simp split del: if_split) argo
    qed
    with hat [OF j(1)] j(2) show ?thesis by auto
  qed
  have "\<forall>j < ipt_n ipt. distinct ((B(h := xs @ ys)) j) \<and>
        (\<exists>q. dseg (ipt_entries ipt') (- 1) (hat_ipt_idx (ipt_hat ipt' ! j)) ((B(h := xs @ ys)) j) q (- 1)) \<and>
        set ((B(h := xs @ ys)) j) =
          {a. a < ipt_n ipt \<and> ipt_valid ipt' a \<and> hash_of (ipt_n ipt) (ipt_key ipt' a) = j}"
  proof (intro allI impI)
    fix j assume j: "j < ipt_n ipt"
    have "set (B h) - {k} = set (xs @ ys)" using B dist by auto
    moreover have "k \<notin> set (B j)" if "j \<noteq> h" using D(12) [OF j] D(12) [OF h] B that by auto
    ultimately have "set ((B(h := xs @ ys)) j) = set (B j) - {k}" by auto
    also have "\<dots> = {a. a < ipt_n ipt \<and> ipt_valid ipt' a \<and> hash_of (ipt_n ipt) (ipt_key ipt' a) = j}"
      using D(12) [OF j] pd by auto
    finally have "set ((B(h := xs @ ys)) j) =
      {a. a < ipt_n ipt \<and> ipt_valid ipt' a \<and> hash_of (ipt_n ipt) (ipt_key ipt' a) = j}" .
    moreover have "distinct ((B(h := xs @ ys)) j)" using D(10) [OF j] dist by auto
    moreover have "\<exists>q. dseg (ipt_entries ipt') (- 1) (hat_ipt_idx (ipt_hat ipt' ! j)) ((B(h := xs @ ys)) j) q (- 1)"
      using new old [OF j] by auto
    ultimately show "distinct ((B(h := xs @ ys)) j) \<and>
        (\<exists>q. dseg (ipt_entries ipt') (- 1) (hat_ipt_idx (ipt_hat ipt' ! j)) ((B(h := xs @ ys)) j) q (- 1)) \<and>
        set ((B(h := xs @ ys)) j) =
          {a. a < ipt_n ipt \<and> ipt_valid ipt' a \<and> hash_of (ipt_n ipt) (ipt_key ipt' a) = j}" by blast
  qed
  moreover have "\<forall>a < ipt_n ipt. \<forall>b < ipt_n ipt. ipt_valid ipt' a \<and> ipt_valid ipt' b \<and>
        ipt_key ipt' a = ipt_key ipt' b \<longrightarrow> a = b"
    using D(13) pd by auto
  moreover have "set (F @ [k]) = {a. a < ipt_n ipt \<and> \<not> ipt_valid ipt' a}"
    using D(9) pd k by auto
  ultimately show ?thesis
    using D(1-4,8) k(3) same unfolding ipt_rep_def by simp
qed

end
