(* ===== verification/Ipt_Map.thy ===== *)
theory Ipt_Map
  imports Ipt_Proofs
begin

text \<open>
  What the operations of \<^verbatim>\<open>vmsim/ipt.c\<close> do to the map from virtual pages to frames, to the queue
  of spare frames and to the page data, on every branch.
\<close>

subsection \<open>Adding a translation\<close>

text \<open>The page data of a frame that has just been given to \<open>addr\<close>.\<close>

definition fresh_pd :: "virt_addr_t \<Rightarrow> page_data_t \<Rightarrow> page_data_t" where
  "fresh_pd addr pd = pd\<lparr>pd_addr := addr, pd_dirty := False, pd_referenced := False,
     pd_valid := True, pd_page_age := set_msb 0 True\<rparr>"

lemma fresh_slot_simps [simp]:
  "ie_page_data (fresh_slot a n p e) = fresh_pd a (ie_page_data e)"
  "ie_next (fresh_slot a n p e) = n" "ie_prev (fresh_slot a n p e) = p"
  by (simp_all add: fresh_slot_def fresh_pd_def)

lemma fresh_pd_simps [simp]:
  "pd_addr (fresh_pd a pd) = a" "pd_valid (fresh_pd a pd)" "\<not> pd_dirty (fresh_pd a pd)"
  "\<not> pd_referenced (fresh_pd a pd)" "pd_users (fresh_pd a pd) = pd_users pd"
  "pd_page_age (fresh_pd a pd) = set_msb 0 True"
  by (simp_all add: fresh_pd_def)

lemma last_walk_dseg:
  "dseg (ipt_entries ipt) p i ks q (- 1) \<Longrightarrow> length ks < fuel \<Longrightarrow> last_walk fuel ipt i p = Inr q"
proof (induction fuel arbitrary: p i ks)
  case (Suc fuel)
  then show ?case by (cases ks) (auto simp: ipt_invalid_def)
qed simp

lemma upd_entry_in: "k < ipt_n ipt \<Longrightarrow>
   upd_entry ipt (int k) f = Inr (ipt\<lparr>ipt_entries := (ipt_entries ipt)[k := f (ipt_entries ipt ! k)]\<rparr>)"
  by (simp add: upd_entry_def)

text \<open>Two tables that differ in the page data, the links, the map and the spare frames only.\<close>

definition same_shape :: "ipt_t \<Rightarrow> ipt_t \<Rightarrow> bool" where
  "same_shape ipt ipt' \<longleftrightarrow> ipt_n ipt' = ipt_n ipt \<and> ipt_size ipt' = ipt_size ipt \<and>
     ipt_ref_count ipt' = ipt_ref_count ipt"

lemma same_shape_refl [simp]: "same_shape ipt ipt"
  by (simp add: same_shape_def)

lemma same_shape_trans: "same_shape a b \<Longrightarrow> same_shape b c \<Longrightarrow> same_shape a c"
  by (simp add: same_shape_def)

lemma ipt_add_ok:
  assumes inv: "ipt_inv ipt" and absent: "ipt_abs ipt (vkey addr) = None" and spare: "ipt_spare ipt = k # F"
  shows "\<exists>ipt'. ipt_add ipt addr = Inr (ecSuccess, ipt') \<and> ipt_inv ipt' \<and>
           ipt_abs ipt' = (ipt_abs ipt)(vkey addr \<mapsto> k) \<and> ipt_spare ipt' = F \<and>
           ipt_pd ipt' = (ipt_pd ipt)(k := fresh_pd addr (ipt_pd ipt k)) \<and> same_shape ipt ipt'"
proof -
  obtain B where rep: "ipt_rep ipt B (k # F)" using inv spare ipt_spare_rep by (metis ipt_inv_def)
  note D = ipt_repD [OF rep]
  let ?n = "ipt_n ipt" let ?h = "hash_of ?n (vkey addr)" let ?es = "ipt_entries ipt"
  have h: "?h < ?n" using D(1) by (rule hash_of_less)
  have k: "k < ?n" "\<not> ipt_valid ipt k" using D(8,9) by auto
  obtain q where q: "dseg ?es (- 1) (hat_ipt_idx (ipt_hat ipt ! ?h)) (B ?h) q (- 1)"
    using D(11) [OF h] by blast
  obtain q0 where q0: "queue_pop (ipt_free_pages ipt) = Inr (Some (int k), q0)" "queue_inv q0"
      "queue_list q0 = map int F"
    using fq.pop_cons [OF D(6), of "int k" "map int F"] D(7) by auto
  let ?i1 = "ipt\<lparr>ipt_free_pages := q0\<rparr>"
  have nxt: "ipt_get_next_free_entry ipt = Inr (int k, ?i1)"
    using fq.count_ok [OF D(6)] D(7) q0(1) by (simp add: ipt_get_next_free_entry_def)
  have hash1: "ipt_hash ?i1 addr = Inr (int ?h)" using ipt_hash_rep [OF rep, of addr] by (simp add: ipt_hash_def)
  have "ipt_hash_list_last_element ?i1 addr = last_walk (Suc ?n) ?i1 (hat_ipt_idx (ipt_hat ipt ! ?h)) (- 1)"
    using hash1 h D(4) by (simp add: ipt_hash_list_last_element_def ipt_hat_idx_of_def ipt_invalid_def del: last_walk.simps)
  also have "\<dots> = Inr q" by (rule last_walk_dseg) (use q bucket_length [OF rep h] in auto)
  finally have tail: "ipt_hash_list_last_element ?i1 addr = Inr q" .
  let ?hat = "if B ?h = [] then (ipt_hat ipt)[?h := (ipt_hat ipt ! ?h)\<lparr>hat_ipt_idx := int k\<rparr>] else ipt_hat ipt"
  let ?es2 = "if B ?h = [] then ?es else ?es[last (B ?h) := (?es ! last (B ?h))\<lparr>ie_next := int k\<rparr>]"
  let ?ipt' = "?i1\<lparr>ipt_hat := ?hat, ipt_entries := ?es2[k := fresh_slot addr (- 1) q (?es ! k)]\<rparr>"
  have lB: "last (B ?h) < ?n" "last (B ?h) \<noteq> k" if "B ?h \<noteq> []"
    using dseg_bound [OF q] D(12) [OF h] k that last_in_set [OF that] by auto
  have "ipt_add ipt addr = Inr (ecSuccess, ?ipt')"
  proof (cases "B ?h = []")
    case True
    then have "q = - 1" using q by simp
    with True nxt tail hash1 h D(4) k(1) show ?thesis
      by (simp add: ipt_add_def ipt_set_hat_def init_ipt_slot_def upd_entry_in ipt_invalid_def)
  next
    case False
    have "q = int (last (B ?h))" using dseg_last [OF q] False by simp
    with False nxt tail lB k(1) show ?thesis
      by (simp add: ipt_add_def init_ipt_slot_def upd_entry_in ipt_invalid_def)
  qed
  moreover have pd: "ipt_pd ?ipt' = (ipt_pd ipt)(k := fresh_pd addr (ipt_pd ipt k))"
    using k(1) lB by (auto simp: ipt_pd_def fun_eq_iff nth_list_update)
  moreover have rep': "ipt_rep ?ipt' (B(?h := B ?h @ [k])) F"
  proof (rule ipt_rep_link [OF rep h q _ _ _ _ _ _ _ pd])
    show "hat_ipt_idx (ipt_hat ?ipt' ! j) = (if j = ?h \<and> B ?h = [] then int k else hat_ipt_idx (ipt_hat ipt ! j))"
      if "j < ?n" for j using that D(4) by (simp add: nth_list_update)
    show "ie_prev (ipt_entries ?ipt' ! a) = ie_prev (?es ! a) \<and> ie_next (ipt_entries ?ipt' ! a) =
        (if B ?h \<noteq> [] \<and> a = last (B ?h) then int k else ie_next (?es ! a))"
      if "a < ?n" "a \<noteq> k" for a using that by (auto simp: nth_list_update)
  qed (use D(5) q0 k(1) absent in auto)
  moreover have "ipt_abs ?ipt' = (ipt_abs ipt)(vkey addr \<mapsto> k)"
  proof (rule map_graph_eqI)
    fix key v
    note inv' = ipt_invI [OF rep']
    have n: "ipt_n ?ipt' = ?n" by simp
    show "ipt_abs ?ipt' key = Some v \<longleftrightarrow> ((ipt_abs ipt)(vkey addr \<mapsto> k)) key = Some v"
      using k absent
      unfolding ipt_abs_Some [OF inv'] fun_upd_apply n pd
      by (auto simp: ipt_abs_Some [OF inv] ipt_abs_None)
  qed
  moreover have "ipt_spare ?ipt' = F" using ipt_spare_rep [OF rep'] .
  moreover note ipt_invI [OF rep']
  moreover have "same_shape ipt ?ipt'" by (simp add: same_shape_def)
  ultimately show ?thesis by blast
qed

lemma ipt_add_full:
  assumes "ipt_inv ipt" "ipt_spare ipt = []"
  shows "ipt_add ipt addr = Inr (ecFail, ipt)"
proof -
  obtain B F where rep: "ipt_rep ipt B F" using assms by (auto simp: ipt_inv_def)
  then have "queue_size (ipt_free_pages ipt) = 0"
    using fq.count_ok [OF ipt_repD(6)] assms(2) by (simp add: ipt_spare_def)
  then show ?thesis by (simp add: ipt_add_def ipt_get_next_free_entry_def)
qed

subsection \<open>Removing a translation\<close>

lemma ipt_remove_ok:
  assumes inv: "ipt_inv ipt" and k: "ipt_abs ipt (vkey addr) = Some k"
  shows "\<exists>ipt'. ipt_remove ipt addr = Inr (ecSuccess, ipt') \<and> ipt_inv ipt' \<and>
           ipt_abs ipt' = (ipt_abs ipt)(vkey addr := None) \<and> ipt_spare ipt' = ipt_spare ipt @ [k] \<and>
           ipt_pd ipt' = (ipt_pd ipt)(k := (ipt_pd ipt k)\<lparr>pd_valid := False\<rparr>) \<and> same_shape ipt ipt'"
proof -
  obtain B F where rep: "ipt_rep ipt B F" using inv by (auto simp: ipt_inv_def)
  note D = ipt_repD [OF rep]
  let ?n = "ipt_n ipt" let ?h = "hash_of ?n (vkey addr)" let ?es = "ipt_entries ipt"
  have h: "?h < ?n" using D(1) by (rule hash_of_less)
  have kv: "k < ?n" "ipt_valid ipt k" "ipt_key ipt k = vkey addr" using k by (simp_all add: ipt_abs_Some [OF inv])
  then have "k \<in> set (B ?h)" using D(12) [OF h] by simp
  then obtain xs ys where B: "B ?h = xs @ k # ys" by (auto simp: in_set_conv_decomp)
  obtain q where q: "dseg ?es (- 1) (hat_ipt_idx (ipt_hat ipt ! ?h)) (xs @ k # ys) q (- 1)"
    using D(11) [OF h] B by auto
  let ?p = "ie_prev (?es ! k)" let ?m = "ie_next (?es ! k)"
  have seg: "dseg ?es (- 1) (hat_ipt_idx (ipt_hat ipt ! ?h)) xs ?p (int k)" "dseg ?es (int k) ?m ys q (- 1)"
    using q by (auto simp: dseg_append)
  have p: "?p = (if xs = [] then - 1 else int (last xs))" using dseg_last [OF seg(1)] by simp
  have m: "?m = (if ys = [] then - 1 else int (hd ys))" using dseg_first [OF seg(2)] by simp
  have dist: "distinct (xs @ k # ys)" using D(10) [OF h] B by simp
  have lx: "last xs < ?n" "last xs \<noteq> k" if "xs \<noteq> []"
    using dseg_bound [OF seg(1)] last_in_set [OF that] dist by auto
  have hy: "hd ys < ?n" "hd ys \<noteq> k" if "ys \<noteq> []"
    using dseg_bound [OF seg(2)] list.set_sel(1) [OF that] dist by auto
  have ne: "hd ys \<noteq> last xs" if "xs \<noteq> []" "ys \<noteq> []"
    using dist last_in_set [OF that(1)] list.set_sel(1) [OF that(2)] by auto
  obtain r q' where q': "queue_push (ipt_free_pages ipt) (int k) = Inr (r, q')" "queue_inv q'"
      "queue_list q' = map int (F @ [k])"
    using fq.push_any [OF D(6), of "int k"] D(7) by auto
  let ?hat = "if xs = [] then (ipt_hat ipt)[?h := (ipt_hat ipt ! ?h)\<lparr>hat_ipt_idx := ?m\<rparr>] else ipt_hat ipt"
  let ?es2 = "if ys = [] then ?es else ?es[hd ys := (?es ! hd ys)\<lparr>ie_prev := ?p\<rparr>]"
  let ?es3 = "if xs = [] then ?es2 else ?es2[last xs := (?es2 ! last xs)\<lparr>ie_next := ?m\<rparr>]"
  let ?pd = "(ipt_pd ipt k)\<lparr>pd_valid := False\<rparr>"
  let ?ipt' = "ipt\<lparr>ipt_hat := ?hat, ipt_entries := ?es3[k := (?es3 ! k)\<lparr>ie_page_data := ?pd\<rparr>],
                   ipt_free_pages := q'\<rparr>"
  have esk: "?es3 ! k = ?es ! k" using lx hy by (auto simp: nth_list_update)
  have hash: "ipt_hash ipt addr = Inr (int ?h)" by (rule ipt_hash_rep [OF rep])
  have "ipt_remove ipt addr = Inr (ecSuccess, ?ipt')"
    using kv(1) hash h D(4) q'(1) p m lx hy ne esk
    by (auto simp: ipt_remove_def get_vaddr_idx_inv [OF inv] k ipt_invalid_def Let_def ipt_set_hat_def
        upd_entry_in ipt_pd_def)
  moreover have pd: "ipt_pd ?ipt' = (ipt_pd ipt)(k := ?pd)"
  proof
    fix a
    show "ipt_pd ?ipt' a = ((ipt_pd ipt)(k := ?pd)) a"
      using kv(1) lx hy by (cases "a = k") (auto simp: ipt_pd_def nth_list_update)
  qed
  moreover have rep': "ipt_rep ?ipt' (B(?h := xs @ ys)) (F @ [k])"
  proof (rule ipt_rep_unlink [OF rep h B _ _ _ _ _ _ _ pd])
    show "hat_ipt_idx (ipt_hat ?ipt' ! j) = (if j = ?h \<and> xs = [] then ?m else hat_ipt_idx (ipt_hat ipt ! j))"
      if "j < ?n" for j using that D(4) by (simp add: nth_list_update)
    show "ie_next (ipt_entries ?ipt' ! a) = (if xs \<noteq> [] \<and> a = last xs then ?m else ie_next (?es ! a)) \<and>
        ie_prev (ipt_entries ?ipt' ! a) = (if ys \<noteq> [] \<and> a = hd ys then ?p else ie_prev (?es ! a))"
      if "a < ?n" "a \<noteq> k" for a using that ne by (auto simp: nth_list_update)
  qed (use D(5) q' in auto)
  moreover have "ipt_abs ?ipt' = (ipt_abs ipt)(vkey addr := None)"
  proof (rule map_graph_eqI)
    fix key v
    note inv' = ipt_invI [OF rep']
    have n: "ipt_n ?ipt' = ?n" by simp
    show "ipt_abs ?ipt' key = Some v \<longleftrightarrow> ((ipt_abs ipt)(vkey addr := None)) key = Some v"
      using kv D(13) unfolding ipt_abs_Some [OF inv'] fun_upd_apply n pd
      by (auto simp: ipt_abs_Some [OF inv])
  qed
  moreover have "ipt_spare ?ipt' = ipt_spare ipt @ [k]"
    using ipt_spare_rep [OF rep'] ipt_spare_rep [OF rep] by simp
  moreover note ipt_invI [OF rep']
  moreover have "same_shape ipt ?ipt'" by (simp add: same_shape_def)
  ultimately show ?thesis by blast
qed

lemma ipt_remove_absent:
  "ipt_inv ipt \<Longrightarrow> ipt_abs ipt (vkey addr) = None \<Longrightarrow> ipt_remove ipt addr = Inr (ecNotFound, ipt)"
  by (simp add: ipt_remove_def get_vaddr_idx_inv ipt_invalid_def)

subsection \<open>Changing the page data of one entry\<close>

text \<open>What a change of the page data may not touch: whether the entry is in use and for which
  page.\<close>

definition keeps_page :: "page_data_t \<Rightarrow> page_data_t \<Rightarrow> bool" where
  "keeps_page pd pd' \<longleftrightarrow> pd_valid pd' = pd_valid pd \<and> vkey (pd_addr pd') = vkey (pd_addr pd)"

definition with_pd :: "ipt_t \<Rightarrow> nat \<Rightarrow> page_data_t \<Rightarrow> ipt_t" where
  "with_pd ipt k pd =
     ipt\<lparr>ipt_entries := (ipt_entries ipt)[k := (ipt_entries ipt ! k)\<lparr>ie_page_data := pd\<rparr>]\<rparr>"

text \<open>Two tables with the same map and the same spare frames.\<close>

definition same_map :: "ipt_t \<Rightarrow> ipt_t \<Rightarrow> bool" where
  "same_map ipt ipt' \<longleftrightarrow> ipt_inv ipt' \<and> ipt_abs ipt' = ipt_abs ipt \<and> ipt_spare ipt' = ipt_spare ipt \<and>
     ipt_n ipt' = ipt_n ipt \<and> ipt_size ipt' = ipt_size ipt"

lemma same_map_refl: "ipt_inv ipt \<Longrightarrow> same_map ipt ipt"
  by (simp add: same_map_def)

lemma same_map_trans: "same_map a b \<Longrightarrow> same_map b c \<Longrightarrow> same_map a c"
  by (simp add: same_map_def)

lemma ipt_pd_with_pd: "k < ipt_n ipt \<Longrightarrow> ipt_pd (with_pd ipt k pd) = (ipt_pd ipt)(k := pd)"
  by (auto simp: with_pd_def ipt_pd_def fun_eq_iff nth_list_update)

lemma with_pd_fields [simp]:
  "ipt_n (with_pd ipt k pd) = ipt_n ipt" "ipt_size (with_pd ipt k pd) = ipt_size ipt"
  "ipt_ref_count (with_pd ipt k pd) = ipt_ref_count ipt"
  "ipt_refcnt_lock (with_pd ipt k pd) = ipt_refcnt_lock ipt"
  "ipt_free_pages (with_pd ipt k pd) = ipt_free_pages ipt" "ipt_hat (with_pd ipt k pd) = ipt_hat ipt"
  by (simp_all add: with_pd_def)

lemma upd_entry_pd: "k < ipt_n ipt \<Longrightarrow>
   upd_entry ipt (int k) (\<lambda>e. e\<lparr>ie_page_data := f (ie_page_data e)\<rparr>) = Inr (with_pd ipt k (f (ipt_pd ipt k)))"
  by (simp add: upd_entry_in with_pd_def ipt_pd_def)

lemma with_pd_same_map:
  assumes inv: "ipt_inv ipt" and k: "k < ipt_n ipt" and keep: "keeps_page (ipt_pd ipt k) pd"
  shows "same_map ipt (with_pd ipt k pd)"
proof -
  let ?i = "with_pd ipt k pd"
  obtain B F where rep: "ipt_rep ipt B F" using inv by (auto simp: ipt_inv_def)
  have pds: "ipt_valid ?i a = ipt_valid ipt a" "ipt_key ?i a = ipt_key ipt a" for a
    using keep ipt_pd_with_pd [OF k, of pd] by (auto simp: keeps_page_def)
  have "dseg (ipt_entries ?i) p i ks q j" if "dseg (ipt_entries ipt) p i ks q j" for p i ks q j
    using that
  proof (rule dseg_cong)
    fix a
    show "ie_next (ipt_entries ?i ! a) = ie_next (ipt_entries ipt ! a) \<and>
        ie_prev (ipt_entries ?i ! a) = ie_prev (ipt_entries ipt ! a)"
      using k by (cases "a = k") (simp_all add: with_pd_def)
  qed simp
  then have rep': "ipt_rep ?i B F"
    using rep unfolding ipt_rep_def pds with_pd_fields by blast
  moreover have "ipt_abs ?i = ipt_abs ipt" by (simp add: ipt_abs_def fun_eq_iff pds)
  moreover have "ipt_spare ?i = ipt_spare ipt" by (simp add: ipt_spare_def)
  ultimately show ?thesis by (auto simp: same_map_def intro: ipt_invI)
qed

subsection \<open>References\<close>

text \<open>What a reference records in the page data.\<close>

definition touch :: "ipt_ref_t \<Rightarrow> page_data_t \<Rightarrow> page_data_t" where
  "touch r pd = (if r = refWrite then pd\<lparr>pd_referenced := True, pd_dirty := True\<rparr>
                 else pd\<lparr>pd_referenced := True\<rparr>)"

lemma keeps_page_touch [simp]: "keeps_page pd (touch r pd)"
  by (simp add: touch_def keeps_page_def)

lemma touch_simps [simp]:
  "pd_dirty (touch r pd) = (pd_dirty pd \<or> r = refWrite)" "pd_referenced (touch r pd)"
  "pd_addr (touch r pd) = pd_addr pd" "pd_valid (touch r pd) = pd_valid pd"
  "pd_page_age (touch r pd) = pd_page_age pd" "pd_users (touch r pd) = pd_users pd"
  by (simp_all add: touch_def)

lemma ipt_inv_lock: "ipt_inv ipt \<Longrightarrow> ipt_refcnt_lock ipt = rw_free"
  by (auto simp: ipt_inv_def intro: ipt_repD(5))

lemma count_reference:
  "ipt_refcnt_lock t = rw_free \<Longrightarrow>
   rbind (wr_start (ipt_refcnt_lock t)) (\<lambda>l. rbind (wr_end l) (\<lambda>l'.
     Inr (ecSuccess, t\<lparr>ipt_ref_count := ipt_ref_count t + 1, ipt_refcnt_lock := l'\<rparr>))) =
   Inr (ecSuccess, t\<lparr>ipt_ref_count := ipt_ref_count t + 1\<rparr>)"
  by (cases t) simp

lemma ref_count_same:
  "ipt_inv ipt \<Longrightarrow> same_map ipt (ipt\<lparr>ipt_ref_count := c\<rparr>)"
  "ipt_pd (ipt\<lparr>ipt_ref_count := c\<rparr>) = ipt_pd ipt"
proof -
  have pd: "ipt_pd (ipt\<lparr>ipt_ref_count := c\<rparr>) = ipt_pd ipt" for ipt by (simp add: ipt_pd_def fun_eq_iff)
  then show "ipt_pd (ipt\<lparr>ipt_ref_count := c\<rparr>) = ipt_pd ipt" by simp
  assume "ipt_inv ipt"
  then show "same_map ipt (ipt\<lparr>ipt_ref_count := c\<rparr>)"
    by (simp add: same_map_def ipt_inv_def ipt_rep_def pd ipt_abs_def ipt_spare_def fun_eq_iff)
qed

lemma ipt_reference_ok:
  assumes inv: "ipt_inv ipt" and k: "ipt_abs ipt (vkey addr) = Some k"
  shows "\<exists>ipt'. ipt_reference ipt addr r = Inr (ecSuccess, ipt') \<and> same_map ipt ipt' \<and>
           ipt_pd ipt' = (ipt_pd ipt)(k := touch r (ipt_pd ipt k)) \<and>
           ipt_ref_count ipt' = ipt_ref_count ipt + 1"
proof -
  have kn: "k < ipt_n ipt" using ipt_abs_ran [OF inv k] .
  let ?pd1 = "(ipt_pd ipt k)\<lparr>pd_referenced := True\<rparr>" let ?i1 = "with_pd ipt k ?pd1"
  let ?i2 = "with_pd ?i1 k (?pd1\<lparr>pd_dirty := True\<rparr>)"
  have s1: "same_map ipt ?i1" by (rule with_pd_same_map [OF inv kn]) (simp add: keeps_page_def)
  then have i1: "ipt_inv ?i1" "ipt_abs ?i1 (vkey addr) = Some k" using k by (simp_all add: same_map_def)
  have pd1: "ipt_pd ?i1 = (ipt_pd ipt)(k := ?pd1)" by (rule ipt_pd_with_pd [OF kn])
  have s2: "same_map ?i1 ?i2"
    by (rule with_pd_same_map [OF i1(1)]) (simp_all add: kn pd1 keeps_page_def)
  have pd2: "ipt_pd ?i2 = (ipt_pd ?i1)(k := ?pd1\<lparr>pd_dirty := True\<rparr>)"
    by (rule ipt_pd_with_pd) (simp add: kn)
  let ?j = "if r = refWrite then ?i2 else ?i1"
  have j: "same_map ipt ?j" "ipt_pd ?j = (ipt_pd ipt)(k := touch r (ipt_pd ipt k))"
      "ipt_ref_count ?j = ipt_ref_count ipt" "ipt_refcnt_lock ?j = rw_free"
    using s1 same_map_trans [OF s1 s2] pd1 pd2 ipt_inv_lock [OF inv] by (simp_all add: touch_def)
  note step1 = upd_entry_pd [OF kn, of "\<lambda>pd. pd\<lparr>pd_referenced := True\<rparr>"]
    and step2 = upd_entry_pd [of k ?i1 "\<lambda>pd. pd\<lparr>pd_dirty := True\<rparr>"]
  have second: "(if r = refWrite then
       rbind (get_vaddr_idx ?i1 addr) (\<lambda>i. upd_entry ?i1 i (\<lambda>e. e\<lparr>ie_page_data := (ie_page_data e)\<lparr>pd_dirty := True\<rparr>\<rparr>))
     else Inr ?i1) = Inr ?j"
    using step2 kn pd1 by (simp add: get_vaddr_idx_inv i1)
  have "ipt_reference ipt addr r = Inr (ecSuccess, ?j\<lparr>ipt_ref_count := ipt_ref_count ?j + 1\<rparr>)"
    unfolding ipt_reference_def ipt_has_translation_inv [OF inv] get_vaddr_idx_inv [OF inv] k rbind_Inr
      idx_of_simps step1 second count_reference [OF j(4)] by simp
  then have "ipt_reference ipt addr r = Inr (ecSuccess, ?j\<lparr>ipt_ref_count := ipt_ref_count ipt + 1\<rparr>)"
    unfolding j(3) .
  moreover have "same_map ipt (?j\<lparr>ipt_ref_count := ipt_ref_count ipt + 1\<rparr>)"
    by (rule same_map_trans [OF j(1) ref_count_same(1)]) (use j(1) in \<open>simp only: same_map_def\<close>)
  ultimately show ?thesis using j(2) by (auto simp: ref_count_same(2))
qed

lemma ipt_reference_absent:
  "ipt_inv ipt \<Longrightarrow> ipt_abs ipt (vkey addr) = None \<Longrightarrow> ipt_reference ipt addr r = Inl AssertFailed"
  by (simp add: ipt_reference_def ipt_has_translation_inv)

lemma ipt_is_dirty_inv:
  assumes "ipt_inv ipt"
  shows "ipt_is_dirty ipt addr = (case ipt_abs ipt (vkey addr) of
           None \<Rightarrow> Inl AssertFailed | Some k \<Rightarrow> Inr (pd_dirty (ipt_pd ipt k)))"
  using ipt_abs_ran [OF assms]
  by (auto simp: ipt_is_dirty_def ipt_has_translation_inv get_vaddr_idx_inv assms ipt_pd_def split: option.split)

lemma ipt_translate_inv:
  assumes "ipt_inv ipt"
  shows "ipt_translate ipt addr = (case ipt_abs ipt (vkey addr) of
           None \<Rightarrow> Inl AssertFailed | Some k \<Rightarrow> Inr (ecSuccess, word_of_int (int k)))"
proof -
  obtain B F where rep: "ipt_rep ipt B F" using assms by (auto simp: ipt_inv_def)
  have "(word_of_int (int k) :: u32) \<noteq> - 1" if "k < ipt_n ipt" for k
  proof
    assume eq: "(word_of_int (int k) :: u32) = - 1"
    have "unat (word_of_int (int k) :: u32) = k"
      using that ipt_repD(2) [OF rep] by (intro unat_small) simp
    moreover have "unat (- 1 :: u32) = 2 ^ 32 - 1" by (simp add: unsigned_minus_1_eq_mask mask_eq_exp_minus_1)
    ultimately show False using that ipt_repD(2) [OF rep] eq by simp
  qed
  then show ?thesis
    using ipt_abs_ran [OF assms]
    by (auto simp: ipt_translate_def get_vaddr_idx_inv assms Let_def ipt_invalid_def split: option.split)
qed

lemma ipt_ref_count_of_inv: "ipt_inv ipt \<Longrightarrow> ipt_ref_count_of ipt = Inr (ecSuccess, ipt_ref_count ipt, ipt)"
  using ipt_inv_lock [of ipt] by (simp add: ipt_ref_count_of_def)

lemma ipt_zero_ref_count_inv: "ipt_inv ipt \<Longrightarrow> ipt_zero_ref_count ipt = Inr (ecSuccess, ipt\<lparr>ipt_ref_count := 0\<rparr>)"
  using ipt_inv_lock [of ipt] by (simp add: ipt_zero_ref_count_def)

subsection \<open>The interface of a page table\<close>

text \<open>What the MMU looks up: which frame a page is in.\<close>

locale translation =
  fixes has :: "'t \<Rightarrow> 'a \<Rightarrow> bool res"
    and translate :: "'t \<Rightarrow> 'a \<Rightarrow> (errcode_t \<times> u32) res"
    and key :: "'a \<Rightarrow> 'k"
    and frame :: "'t \<Rightarrow> 'k \<rightharpoonup> nat"
    and nframes :: "'t \<Rightarrow> nat"
    and ok :: "'t \<Rightarrow> bool"
  assumes has_ok: "ok t \<Longrightarrow> has t a = Inr (frame t (key a) \<noteq> None)"
    and translate_ok: "ok t \<Longrightarrow> translate t a = (case frame t (key a) of
            None \<Rightarrow> Inl AssertFailed | Some f \<Rightarrow> Inr (ecSuccess, word_of_int (int f)))"
    and frame_inj: "ok t \<Longrightarrow> frame t k = Some f \<Longrightarrow> frame t k' = Some f \<Longrightarrow> k = k'"
    and frame_bound: "ok t \<Longrightarrow> frame t k = Some f \<Longrightarrow> f < nframes t"
    and few_frames: "ok t \<Longrightarrow> nframes t < 2 ^ 32"
begin

text \<open>Two pages are never translated to the same frame, also as a machine word.\<close>

lemma translate_inj:
  assumes "ok t" "translate t a = Inr (ec, w)" "translate t b = Inr (ec', w)"
  shows "key a = key b"
proof -
  obtain f g where fg: "frame t (key a) = Some f" "frame t (key b) = Some g" "w = word_of_int (int f)" "w = word_of_int (int g)"
    using assms(2,3) by (auto simp: translate_ok [OF assms(1)] split: option.splits)
  have small: "h < 2 ^ 32" if "frame t k = Some h" for k h
    using frame_bound [OF assms(1) that] few_frames [OF assms(1)] by simp
  have "unat (word_of_int (int h) :: u32) = h" if "frame t k = Some h" for k h
    using small [OF that] by (simp add: unat_of_nat take_bit_nat_eq_self)
  then have "f = g" using fg by metis
  then show ?thesis using frame_inj [OF assms(1) fg(1)] fg(2) by simp
qed

lemma translate_iff_has: "ok t \<Longrightarrow> (\<exists>w. translate t a = Inr (ecSuccess, w)) \<longleftrightarrow> has t a = Inr True"
  by (auto simp: translate_ok has_ok split: option.split)

end

text \<open>What the page replacement manager changes: a page gets the first spare frame, and gives it back as the last one.\<close>

locale frame_table = translation has translate key frame nframes ok
  for has :: "'t \<Rightarrow> 'a \<Rightarrow> bool res" and translate and key :: "'a \<Rightarrow> 'k" and frame and nframes and ok +
  fixes add :: "'t \<Rightarrow> 'a \<Rightarrow> (errcode_t \<times> 't) res"
    and remove :: "'t \<Rightarrow> 'a \<Rightarrow> (errcode_t \<times> 't) res"
    and spare :: "'t \<Rightarrow> nat list"
  assumes add_ok: "ok t \<Longrightarrow> frame t (key a) = None \<Longrightarrow> spare t = f # fs \<Longrightarrow>
            \<exists>t'. add t a = Inr (ecSuccess, t') \<and> ok t' \<and> frame t' = (frame t)(key a \<mapsto> f) \<and> spare t' = fs \<and>
                 nframes t' = nframes t"
    and add_full: "ok t \<Longrightarrow> spare t = [] \<Longrightarrow> add t a = Inr (ecFail, t)"
    and remove_ok: "ok t \<Longrightarrow> frame t (key a) = Some f \<Longrightarrow>
            \<exists>t'. remove t a = Inr (ecSuccess, t') \<and> ok t' \<and> frame t' = (frame t)(key a := None) \<and>
                 spare t' = spare t @ [f] \<and> nframes t' = nframes t"
    and remove_absent: "ok t \<Longrightarrow> frame t (key a) = None \<Longrightarrow> remove t a = Inr (ecNotFound, t)"
    and spare_distinct: "ok t \<Longrightarrow> distinct (spare t)"
    and partition: "ok t \<Longrightarrow> set (spare t) \<union> ran (frame t) = {..<nframes t} \<and> set (spare t) \<inter> ran (frame t) = {}"
begin

text \<open>No frame is lost: the spare ones and those in use are all of them.\<close>

lemma frames_balance:
  assumes "ok t"
  shows "length (spare t) + card (ran (frame t)) = nframes t"
proof -
  have fin: "finite (ran (frame t))" using partition [OF assms] finite_subset [of "ran (frame t)" "{..<nframes t}"] by auto
  have "card (set (spare t) \<union> ran (frame t)) = card (set (spare t)) + card (ran (frame t))"
    using partition [OF assms] fin by (intro card_Un_disjoint) auto
  then show ?thesis using partition [OF assms] distinct_card [OF spare_distinct [OF assms]] by simp
qed

text \<open>The exchange of two pages in a full table: the new one gets the frame of the old one.\<close>

lemma exchange:
  assumes "ok t" "spare t = []" "frame t (key a) = Some f" "frame t (key b) = None"
  shows "\<exists>t1 t2. remove t a = Inr (ecSuccess, t1) \<and> add t1 b = Inr (ecSuccess, t2) \<and> ok t2 \<and>
           frame t2 = (frame t)(key a := None, key b \<mapsto> f) \<and> spare t2 = []"
proof -
  obtain t1 where t1: "remove t a = Inr (ecSuccess, t1)" "ok t1" "frame t1 = (frame t)(key a := None)" "spare t1 = [f]"
    using remove_ok [OF assms(1,3)] assms(2) by auto
  have "frame t1 (key b) = None" using t1(3) assms(4) by simp
  then obtain t2 where "add t1 b = Inr (ecSuccess, t2)" "ok t2" "frame t2 = (frame t1)(key b \<mapsto> f)" "spare t2 = []"
    using add_ok [OF t1(2) _ t1(4)] by blast
  with t1 show ?thesis by auto
qed

lemma add_then_translate:
  assumes "ok t" "frame t (key a) = None" "spare t = f # fs"
  shows "\<exists>t'. add t a = Inr (ecSuccess, t') \<and> translate t' a = Inr (ecSuccess, word_of_int (int f))"
  using add_ok [OF assms] translate_ok by fastforce

end

interpretation ft: frame_table ipt_has_translation ipt_translate vkey ipt_abs ipt_n ipt_inv ipt_add ipt_remove ipt_spare
proof unfold_locales
  fix t a assume inv: "ipt_inv t"
  show "ipt_translate t a = (case ipt_abs t (vkey a) of None \<Rightarrow> Inl AssertFailed | Some f \<Rightarrow> Inr (ecSuccess, word_of_int (int f)))"
    by (rule ipt_translate_inv [OF inv])
  show "ipt_n t < 2 ^ 32" using inv ipt_repD(2) by (fastforce simp: ipt_inv_def)
  show "\<exists>t'. ipt_add t a = Inr (ecSuccess, t') \<and> ipt_inv t' \<and> ipt_abs t' = (ipt_abs t)(vkey a \<mapsto> f) \<and> ipt_spare t' = fs \<and>
      ipt_n t' = ipt_n t" if "ipt_abs t (vkey a) = None" "ipt_spare t = f # fs" for f fs
    using ipt_add_ok [OF inv that] by (auto simp: same_shape_def)
  show "\<exists>t'. ipt_remove t a = Inr (ecSuccess, t') \<and> ipt_inv t' \<and> ipt_abs t' = (ipt_abs t)(vkey a := None) \<and>
      ipt_spare t' = ipt_spare t @ [f] \<and> ipt_n t' = ipt_n t" if "ipt_abs t (vkey a) = Some f" for f
    using ipt_remove_ok [OF inv that] by (auto simp: same_shape_def)
qed (simp_all add: ipt_has_translation_inv ipt_add_full ipt_remove_absent ipt_spare_set(1) ipt_abs_ran ipt_abs_inj ipt_partition)

subsection \<open>Iterating over the entries in use\<close>

text \<open>One visit, on the page data alone.\<close>

definition visit ::
  "(phys_addr_t \<Rightarrow> page_data_t \<Rightarrow> 's \<Rightarrow> page_data_t \<times> 's) \<Rightarrow> nat \<Rightarrow>
   (nat \<Rightarrow> page_data_t) \<times> 's \<Rightarrow> (nat \<Rightarrow> page_data_t) \<times> 's" where
  "visit func k = (\<lambda>(m, s). if pd_valid (m k)
     then let (pd, s') = func (word_of_int (int k)) (m k) s in (m(k := pd), s') else (m, s))"

lemma ipt_for_each_entry_ok:
  assumes inv: "ipt_inv ipt" and keep: "\<And>a pd s. keeps_page pd (fst (func a pd s))"
  shows "\<exists>ipt' s'. ipt_for_each_entry ipt func s = Inr (ecSuccess, ipt', s') \<and> same_map ipt ipt' \<and>
           ipt_ref_count ipt' = ipt_ref_count ipt \<and>
           (ipt_pd ipt', s') = fold (visit func) [0..<ipt_n ipt] (ipt_pd ipt, s)"
proof -
  let ?P = "\<lambda>j (t, s'). same_map ipt t \<and> ipt_ref_count t = ipt_ref_count ipt \<and>
              (ipt_pd t, s') = fold (visit func) [0..<j] (ipt_pd ipt, s)"
  let ?body = "\<lambda>i (t, s). rbind (arr_get (ipt_entries t) i) (\<lambda>e.
          if pd_valid (ie_page_data e) then
            let (pd, s') = func (word_of_int i) (ie_page_data e) s
            in rbind (upd_entry t i (\<lambda>e. e\<lparr>ie_page_data := pd\<rparr>)) (\<lambda>t'. Inr (t', s'))
          else Inr (t, s))"
  have step: "\<exists>x. ?body (0 + int j) ts = Inr x \<and> ?P (Suc j) x" if j: "j < ipt_n ipt" "?P j ts" for j ts
  proof -
    obtain t s' where ts: "ts = (t, s')" by force
    have t: "same_map ipt t" "ipt_ref_count t = ipt_ref_count ipt"
        "(ipt_pd t, s') = fold (visit func) [0..<j] (ipt_pd ipt, s)" using j(2) ts by auto
    have jn: "j < ipt_n t" "ipt_inv t" using t(1) j(1) by (simp_all add: same_map_def)
    obtain pd s'' where f: "func (word_of_int (int j)) (ipt_pd t j) s' = (pd, s'')" by force
    have kp: "keeps_page (ipt_pd t j) pd" using keep [of "ipt_pd t j" "word_of_int (int j)" s'] f by simp
    have "same_map ipt (with_pd t j pd)"
      by (rule same_map_trans [OF t(1) with_pd_same_map [OF jn(2,1) kp]])
    then show ?thesis
      using t jn f upd_entry_pd [OF jn(1), of "\<lambda>_. pd"] ipt_pd_with_pd [OF jn(1), of pd]
      by (auto simp: ts ipt_pd_def [symmetric] visit_def simp flip: t(3))
  qed
  have "\<exists>x. for_loop (ipt_n ipt) 0 ?body (ipt, s) = Inr x \<and> ?P (ipt_n ipt) x"
    by (rule for_loop_rule [where P = ?P, OF step]) (auto simp: same_map_refl [OF inv])
  moreover have "nat (ipt_size ipt) = ipt_n ipt" using inv by (auto simp: ipt_inv_def ipt_repD(3))
  ultimately show ?thesis unfolding ipt_for_each_entry_def by force
qed

text \<open>With a callback that has no state of its own, every entry is treated alone.\<close>

lemma visit_unit:
  "visit (\<lambda>a pd (_ :: unit). (f a pd, ())) k (m, u) =
     (if pd_valid (m k) then m(k := f (word_of_int (int k)) (m k)) else m, ())"
  by (simp add: visit_def)

lemma fold_visit_unit:
  "fst (fold (visit (\<lambda>a pd (_ :: unit). (f a pd, ()))) [0..<n] (m, u)) =
     (\<lambda>k. if k < n \<and> pd_valid (m k) then f (word_of_int (int k)) (m k) else m k)"
proof (induction n)
  case (Suc n)
  obtain m' where eq: "fold (visit (\<lambda>a pd (_ :: unit). (f a pd, ()))) [0..<n] (m, u) = (m', ())"
    by (cases "fold (visit (\<lambda>a pd (_ :: unit). (f a pd, ()))) [0..<n] (m, u)") auto
  then have "m' = (\<lambda>k. if k < n \<and> pd_valid (m k) then f (word_of_int (int k)) (m k) else m k)"
    using Suc by simp
  moreover have "fold (visit (\<lambda>a pd (_ :: unit). (f a pd, ()))) [0..<Suc n] (m, u) =
      visit (\<lambda>a pd (_ :: unit). (f a pd, ())) n (m', ())"
    using eq by simp
  ultimately show ?case unfolding visit_unit by (auto simp: less_Suc_eq)
qed simp

subsection \<open>Initialisation and destruction\<close>

lemma ipt_init_ok:
  assumes n: "0 < n" "n < 2 ^ 31" and oom: "\<And>i. \<not> oom i"
  shows "\<exists>ipt'. ipt_init True True oom 0 ipt (int n) = Inr (ecSuccess, ipt') \<and> ipt_inv ipt' \<and>
           ipt_n ipt' = n \<and> ipt_abs ipt' = Map.empty \<and> ipt_spare ipt' = [0..<n] \<and> ipt_ref_count ipt' = 0"
proof -
  obtain q where q: "queue_init oom = Inr q" "queue_inv q" "queue_list q = ([] :: int list)"
    using queue_init_ok [of oom] oom by blast
  let ?z = "\<lparr>ie_page_data = zero_page_data, ie_next = 0, ie_prev = 0\<rparr>"
  let ?start = "ipt\<lparr>ipt_entries := replicate n ?z, ipt_hat := replicate n \<lparr>hat_ipt_idx = 0\<rparr>,
      ipt_free_pages := q, ipt_size := int n, ipt_ref_count := 0, ipt_refcnt_lock := rw_free\<rparr>"
  let ?P = "\<lambda>j t. ipt_n t = n \<and> length (ipt_hat t) = n \<and> ipt_size t = int n \<and> ipt_ref_count t = 0 \<and>
      ipt_refcnt_lock t = rw_free \<and> queue_inv (ipt_free_pages t) \<and>
      queue_list (ipt_free_pages t) = map int [0..<j] \<and>
      (\<forall>i < n. ie_page_data (ipt_entries t ! i) = zero_page_data) \<and>
      (\<forall>i < j. hat_ipt_idx (ipt_hat t ! i) = - 1)"
  let ?body = "\<lambda>i t. rbind (upd_entry t i (\<lambda>e. e\<lparr>ie_next := ipt_invalid, ie_prev := ipt_invalid\<rparr>)) (\<lambda>t1.
      rbind (arr_get (ipt_hat t1) i) (\<lambda>he.
      rbind (arr_set (ipt_hat t1) i (he\<lparr>hat_ipt_idx := ipt_invalid\<rparr>)) (\<lambda>hat'.
      rbind (queue_push (ipt_free_pages t1) i) (\<lambda>(_, q').
      Inr (t1\<lparr>ipt_hat := hat', ipt_free_pages := q'\<rparr>)))))"
  have step: "\<exists>t'. ?body (0 + int j) t = Inr t' \<and> ?P (Suc j) t'" if j: "j < n" "?P j t" for j t
  proof -
    obtain r q' where q': "queue_push (ipt_free_pages t) (int j) = Inr (r, q')" "queue_inv q'"
        "queue_list q' = queue_list (ipt_free_pages t) @ [int j]"
      using fq.push_any [of "ipt_free_pages t" "int j"] j(2) by blast
    let ?t' = "t\<lparr>ipt_entries := (ipt_entries t)[j := (ipt_entries t ! j)\<lparr>ie_next := - 1, ie_prev := - 1\<rparr>],
        ipt_hat := (ipt_hat t)[j := (ipt_hat t ! j)\<lparr>hat_ipt_idx := - 1\<rparr>], ipt_free_pages := q'\<rparr>"
    have "?body (0 + int j) t = Inr ?t'"
      using j q'(1) by (simp add: upd_entry_in ipt_invalid_def)
    moreover have "?P (Suc j) ?t'"
      using j q' by (simp add: nth_list_update less_Suc_eq)
    ultimately show ?thesis by blast
  qed
  have "\<exists>t. for_loop n 0 ?body ?start = Inr t \<and> ?P n t"
    by (rule for_loop_rule [where P = ?P, OF step]) (use q in simp_all)
  then obtain t where t: "for_loop n 0 ?body ?start = Inr t" "?P n t" by blast
  have pd: "\<not> ipt_valid t i" if "i < n" for i using t(2) that by (simp add: ipt_pd_def zero_page_data_def)
  have rep: "ipt_rep t (\<lambda>_. []) [0..<n]"
    using t(2) n pd unfolding ipt_rep_def by auto
  have "ipt_init True True oom 0 ipt (int n) = Inr (ecSuccess, t)"
    using t(1) q(1) by (simp add: ipt_init_def rwlock_init_def Let_def)
  moreover have "ipt_abs t = Map.empty" using pd t(2) by (auto simp: ipt_abs_None)
  ultimately show ?thesis using ipt_invI [OF rep] ipt_spare_rep [OF rep] t(2) by auto
qed

lemma ipt_destroy_ok:
  assumes "ipt_inv ipt"
  shows "ipt_destroy ipt = Inr None"
proof -
  obtain B F where rep: "ipt_rep ipt B F" using assms by (auto simp: ipt_inv_def)
  note D = ipt_repD [OF rep]
  let ?k = "Suc (nat (queue_size (ipt_free_pages ipt)))"
  have "length (queue_list (ipt_free_pages ipt)) < ?k" using fq.count_ok [OF D(6)] by simp
  then obtain q' where q': "queue_drain ?k (ipt_free_pages ipt) = Inr q'" "queue_inv q'" "queue_list q' = []"
    using queue_drain_ok [OF D(6)] by blast
  then have "q_size q' = 0" using fq.count_ok [OF q'(2)] by (simp add: queue_size_def)
  then show ?thesis using D(5) q'(1) by (simp add: ipt_destroy_def queue_destroy_def del: queue_drain.simps)
qed

end
