(* ===== verification/Assoc_Map.thy ===== *)
theory Assoc_Map
  imports Prelude
begin

text \<open>
  \<^verbatim>\<open>util/map.c\<close>: the map from keys to values that keeps two parallel arrays and searches them
  linearly with a comparator given at initialisation. The blocks the arrays point to are copies
  owned by the map, so an array of pointers is modelled by the list of the blocks' contents.
  Allocation succeeds (the code does not look at what \<^verbatim>\<open>malloc\<close> and \<^verbatim>\<open>realloc\<close> return here).
\<close>

record ('k, 'v) map_t =
  m_keys :: "'k list"
  m_values :: "'v list"
  m_comp :: "'k \<Rightarrow> 'k \<Rightarrow> bool"
  m_key_size :: int
  m_val_size :: int
  m_size :: int

primrec find_key_loop :: "nat \<Rightarrow> int \<Rightarrow> ('k, 'v) map_t \<Rightarrow> 'k \<Rightarrow> int res" where
  "find_key_loop 0 i m key = Inr (- 1)"
| "find_key_loop (Suc n) i m key =
     rbind (arr_get (m_keys m) i) (\<lambda>k.
       if \<not> m_comp m k key then Inr i else find_key_loop n (i + 1) m key)"

definition find_key :: "('k, 'v) map_t \<Rightarrow> 'k \<Rightarrow> int res" where
  "find_key m key = find_key_loop (nat (m_size m)) 0 m key"

definition remove_idx :: "'a list \<Rightarrow> int \<Rightarrow> int \<Rightarrow> 'a list res" where
  "remove_idx arr idx arrsize =
     rbind (arr_get arr idx) (\<lambda>_.
       for_loop (nat (arrsize - 1 - idx)) idx
         (\<lambda>i a. rbind (arr_get a (i + 1)) (\<lambda>x. arr_set a i x)) arr)"

definition map_init :: "int \<Rightarrow> int \<Rightarrow> ('k \<Rightarrow> 'k \<Rightarrow> bool) \<Rightarrow> errcode_t \<times> ('k, 'v) map_t" where
  "map_init key_size val_size cmp =
     (ecSuccess, \<lparr>m_keys = [], m_values = [], m_comp = cmp, m_key_size = key_size,
                  m_val_size = val_size, m_size = 0\<rparr>)"

text \<open>The fresh value block is written before anything reads it.\<close>

definition map_set :: "('k, 'v) map_t \<Rightarrow> 'k \<Rightarrow> 'v \<Rightarrow> (errcode_t \<times> ('k, 'v) map_t) res" where
  "map_set m key val =
     rbind (find_key m key) (\<lambda>idx.
     let (m1, idx1) =
           (if idx = - 1
            then (m\<lparr>m_size := m_size m + 1, m_keys := m_keys m @ [key],
                    m_values := m_values m @ [val]\<rparr>, m_size m)
            else (m, idx))
     in rbind (arr_set (m_values m1) idx1 val) (\<lambda>vs. Inr (ecSuccess, m1\<lparr>m_values := vs\<rparr>)))"

text \<open>\<open>want\<close>: the caller passed a buffer for the value, not \<^verbatim>\<open>NULL\<close>.\<close>

definition map_get :: "('k, 'v) map_t \<Rightarrow> 'k \<Rightarrow> bool \<Rightarrow> (errcode_t \<times> 'v option) res" where
  "map_get m key want =
     rbind (find_key m key) (\<lambda>idx.
       if idx = - 1 then Inr (ecNotFound, None)
       else if \<not> want then Inr (ecSuccess, None)
       else rbind (arr_get (m_values m) idx) (\<lambda>v. Inr (ecSuccess, Some v)))"

definition map_remove :: "('k, 'v) map_t \<Rightarrow> 'k \<Rightarrow> (errcode_t \<times> ('k, 'v) map_t) res" where
  "map_remove m key =
     rbind (find_key m key) (\<lambda>idx.
       if idx = - 1 then Inr (ecNotFound, m)
       else rbind (remove_idx (m_keys m) idx (m_size m)) (\<lambda>ks.
            rbind (remove_idx (m_values m) idx (m_size m)) (\<lambda>vs.
            let n = m_size m - 1
            in Inr (ecSuccess, m\<lparr>m_size := n, m_keys := take (nat n) ks,
                                 m_values := take (nat n) vs\<rparr>))))"

definition map_destroy :: "('k, 'v) map_t \<Rightarrow> ('k, 'v) map_t res" where
  "map_destroy m =
     rbind (for_loop (nat (m_size m)) 0
              (\<lambda>i u. rbind (arr_get (m_keys m) i) (\<lambda>_.
                     rbind (arr_get (m_values m) i) (\<lambda>_. Inr u))) ())
       (\<lambda>_. Inr (m\<lparr>m_keys := [], m_values := []\<rparr>))"

subsection \<open>Searching and removing\<close>

lemma find_key_loop_eq:
  "length (m_keys m) = j + n \<Longrightarrow>
   find_key_loop n (int j) m key =
     Inr (case find (\<lambda>i. \<not> m_comp m (m_keys m ! i) key) [j..<j + n] of None \<Rightarrow> - 1 | Some i \<Rightarrow> int i)"
proof (induction n arbitrary: j)
  case (Suc n)
  have "find_key_loop n (int j + 1) m key = find_key_loop n (int (Suc j)) m key"
    by (simp add: add.commute)
  with Suc.IH [of "Suc j"] Suc.prems show ?case
    by (simp add: upt_conv_Cons del: upt_Suc)
qed simp

lemma find_key_eq:
  "m_size m = int (length (m_keys m)) \<Longrightarrow>
   find_key m key = Inr (case find (\<lambda>i. \<not> m_comp m (m_keys m ! i) key) [0..<length (m_keys m)] of
                           None \<Rightarrow> - 1 | Some i \<Rightarrow> int i)"
  using find_key_loop_eq [of m 0 "length (m_keys m)" key] by (simp add: find_key_def)

text \<open>The shifting loop removes one position and leaves a stale last element.\<close>

definition shifted :: "'a list \<Rightarrow> nat \<Rightarrow> nat \<Rightarrow> 'a list" where
  "shifted xs i j = map (\<lambda>p. if i \<le> p \<and> p < i + j then xs ! Suc p else xs ! p) [0..<length xs]"

lemma remove_idx_eq:
  assumes "i < length xs"
  shows "\<exists>ys. remove_idx xs (int i) (int (length xs)) = Inr ys \<and>
              take (length xs - 1) ys = take i xs @ drop (Suc i) xs"
proof -
  let ?n = "length xs - 1 - i"
  have n: "nat (int (length xs) - 1 - int i) = ?n" using assms by simp
  have "\<exists>s'. for_loop ?n (int i) (\<lambda>i a. rbind (arr_get a (i + 1)) (\<lambda>x. arr_set a i x)) xs = Inr s' \<and>
             s' = shifted xs i ?n"
  proof (rule for_loop_rule [where P = "\<lambda>j s. s = shifted xs i j"])
    fix j s assume j: "j < ?n" and s: "s = shifted xs i j"
    have len: "length s = length xs" and in_range: "Suc (i + j) < length xs"
      using j s by (auto simp: shifted_def)
    have "s ! Suc (i + j) = xs ! Suc (i + j)" using s in_range by (simp add: shifted_def)
    moreover have "s[i + j := xs ! Suc (i + j)] = shifted xs i (Suc j)"
      using s len in_range by (intro nth_equalityI) (auto simp: shifted_def nth_list_update)
    moreover have "arr_get s (int i + int j + 1) = Inr (s ! Suc (i + j))"
      using arr_get_in [of "Suc (i + j)" s] len in_range by (simp add: algebra_simps)
    moreover have "arr_set s (int i + int j) x = Inr (s[i + j := x])" for x
      using arr_set_in [of "i + j" s x] len in_range by simp
    ultimately show "\<exists>s'. rbind (arr_get s (int i + int j + 1)) (\<lambda>x. arr_set s (int i + int j) x) =
        Inr s' \<and> s' = shifted xs i (Suc j)" by simp
  next
    show "xs = shifted xs i 0" by (intro nth_equalityI) (auto simp: shifted_def)
  qed
  moreover have "take (length xs - 1) (shifted xs i ?n) = take i xs @ drop (Suc i) xs"
    using assms by (intro nth_equalityI) (auto simp: shifted_def nth_append)
  ultimately show ?thesis using assms n by (simp add: remove_idx_def)
qed

subsection \<open>What a map represents\<close>

text \<open>
  The comparator of the program answers zero on equal keys. \<open>kc\<close> is the part of a key that it
  looks at: for the disk map, process and page of a virtual address.
\<close>

definition map_inv :: "('k \<Rightarrow> 'c) \<Rightarrow> ('k, 'v) map_t \<Rightarrow> bool" where
  "map_inv kc m \<longleftrightarrow> m_comp m = (\<lambda>a b. kc a \<noteq> kc b) \<and>
     m_size m = int (length (m_keys m)) \<and> length (m_values m) = length (m_keys m) \<and>
     distinct (map kc (m_keys m))"

definition map_abs :: "('k \<Rightarrow> 'c) \<Rightarrow> ('k, 'v) map_t \<Rightarrow> 'c \<rightharpoonup> 'v" where
  "map_abs kc m = map_of (zip (map kc (m_keys m)) (m_values m))"

lemma map_abs_nth:
  "map_inv kc m \<Longrightarrow> i < length (m_keys m) \<Longrightarrow>
   map_abs kc m (kc (m_keys m ! i)) = Some (m_values m ! i)"
  using map_of_zip_nth [of "map kc (m_keys m)" "m_values m" i] by (simp add: map_inv_def map_abs_def)

lemma map_abs_None:
  "map_inv kc m \<Longrightarrow> map_abs kc m c = None \<longleftrightarrow> c \<notin> kc ` set (m_keys m)"
  by (simp add: map_abs_def map_inv_def map_of_zip_is_None)

text \<open>The search decides membership and finds the entry.\<close>

lemma find_key_inv:
  assumes inv: "map_inv kc m"
  obtains (absent) "find_key m key = Inr (- 1)" "map_abs kc m (kc key) = None"
  | (present) i where "find_key m key = Inr (int i)" "i < length (m_keys m)"
      "kc (m_keys m ! i) = kc key" "map_abs kc m (kc key) = Some (m_values m ! i)"
proof (cases "find (\<lambda>i. kc (m_keys m ! i) = kc key) [0..<length (m_keys m)]")
  case None
  then have "\<forall>i < length (m_keys m). kc (m_keys m ! i) \<noteq> kc key" by (auto simp: find_None_iff)
  then have "kc key \<notin> kc ` set (m_keys m)" by (auto simp: in_set_conv_nth)
  with None inv show thesis
    by (intro absent) (simp_all add: find_key_eq map_inv_def map_abs_None [OF inv])
next
  case (Some i)
  then have i: "i < length (m_keys m)" "kc (m_keys m ! i) = kc key"
    by (auto simp: find_Some_iff)
  with Some inv show thesis
    using map_abs_nth [OF inv i(1)] by (intro present [of i]) (simp_all add: find_key_eq map_inv_def)
qed

subsection \<open>The interface of a map\<close>

locale keyed_store =
  fixes store :: "'m \<Rightarrow> 'k \<Rightarrow> 'v \<Rightarrow> (errcode_t \<times> 'm) res"
    and fetch :: "'m \<Rightarrow> 'k \<Rightarrow> bool \<Rightarrow> (errcode_t \<times> 'v option) res"
    and discard :: "'m \<Rightarrow> 'k \<Rightarrow> (errcode_t \<times> 'm) res"
    and kclass :: "'k \<Rightarrow> 'c"
    and table :: "'m \<Rightarrow> 'c \<rightharpoonup> 'v"
    and ok :: "'m \<Rightarrow> bool"
  assumes store_ok: "ok m \<Longrightarrow> \<exists>m'. store m k v = Inr (ecSuccess, m') \<and> ok m' \<and>
                       table m' = (table m)(kclass k \<mapsto> v)"
    and fetch_ok: "ok m \<Longrightarrow> fetch m k want =
                     Inr (case table m (kclass k) of None \<Rightarrow> (ecNotFound, None)
                          | Some v \<Rightarrow> (ecSuccess, if want then Some v else None))"
    and discard_ok: "ok m \<Longrightarrow> \<exists>m'. discard m k =
                         Inr (if table m (kclass k) = None then ecNotFound else ecSuccess, m') \<and>
                       ok m' \<and> table m' = (table m)(kclass k := None)"
begin

lemma store_then_fetch:
  "ok m \<Longrightarrow> \<exists>m'. store m k v = Inr (ecSuccess, m') \<and> fetch m' k True = Inr (ecSuccess, Some v)"
  using store_ok [of m k v] fetch_ok by force

lemma discard_then_fetch:
  "ok m \<Longrightarrow> \<exists>r m'. discard m k = Inr (r, m') \<and> fetch m' k want = Inr (ecNotFound, None)"
  using discard_ok [of m k] fetch_ok by force

lemma store_frame:
  "ok m \<Longrightarrow> kclass k' \<noteq> kclass k \<Longrightarrow> store m k v = Inr (r, m') \<Longrightarrow> fetch m' k' want = fetch m k' want"
  using store_ok [of m k v] fetch_ok by force

end

lemma map_set_inv:
  assumes inv: "map_inv kc m"
  shows "\<exists>m'. map_set m key v = Inr (ecSuccess, m') \<and> map_inv kc m' \<and>
              map_abs kc m' = (map_abs kc m)(kc key \<mapsto> v)"
using inv
proof (cases rule: find_key_inv [where key = key])
  case absent
  have len: "length (m_values m) = length (m_keys m)" using inv by (simp add: map_inv_def)
  have fresh: "kc key \<notin> kc ` set (m_keys m)" using absent(2) by (simp add: map_abs_None [OF inv])
  have "arr_set (m_values m @ [v]) (int (length (m_keys m))) v = Inr (m_values m @ [v])"
    using arr_set_in [of "length (m_values m)" "m_values m @ [v]" v] by (simp flip: len)
  moreover have "map_of (zip (map kc (m_keys m) @ [kc key]) (m_values m @ [v])) =
      (map_of (zip (map kc (m_keys m)) (m_values m)))(kc key \<mapsto> v)"
    using fresh len by (simp add: map_add_upd_left dom_map_of_zip)
  ultimately show ?thesis
    using inv absent fresh by (auto simp: map_set_def map_inv_def map_abs_def)
next
  case (present i)
  let ?m' = "m\<lparr>m_values := (m_values m)[i := v]\<rparr>"
  have inv': "map_inv kc ?m'" using inv by (simp add: map_inv_def)
  have "map_abs kc ?m' c = ((map_abs kc m)(kc key \<mapsto> v)) c" for c
  proof (cases "c \<in> kc ` set (m_keys m)")
    case True
    then obtain j where j: "j < length (m_keys m)" "c = kc (m_keys m ! j)"
      by (auto simp: in_set_conv_nth)
    have "j = i \<longleftrightarrow> c = kc key"
      using inv j present(2,3) nth_eq_iff_index_eq [of "map kc (m_keys m)" j i]
      by (simp add: map_inv_def)
    then show ?thesis
      using map_abs_nth [OF inv, of j] map_abs_nth [OF inv', of j] j inv present(2)
      by (auto simp: map_inv_def)
  next
    case False
    then have "c \<noteq> kc key" using present(2,3) by (metis image_eqI nth_mem)
    with False show ?thesis using map_abs_None [OF inv, of c] map_abs_None [OF inv', of c] by simp
  qed
  with inv inv' present show ?thesis
    by (auto simp: map_set_def map_inv_def)
qed

lemma map_get_inv:
  assumes inv: "map_inv kc m"
  shows "map_get m key want = Inr (case map_abs kc m (kc key) of None \<Rightarrow> (ecNotFound, None)
           | Some v \<Rightarrow> (ecSuccess, if want then Some v else None))"
using inv
proof (cases rule: find_key_inv [where key = key])
  case (present i)
  then show ?thesis using inv by (auto simp: map_get_def map_inv_def)
qed (simp add: map_get_def)

lemma map_of_zip_remove:
  assumes "distinct ks" "length vs = length ks" "i < length ks"
  shows "map_of (zip (take i ks @ drop (Suc i) ks) (take i vs @ drop (Suc i) vs)) =
         (map_of (zip ks vs))(ks ! i := None)"
proof -
  have split: "ks = take i ks @ ks ! i # drop (Suc i) ks" "vs = take i vs @ vs ! i # drop (Suc i) vs"
    using assms id_take_nth_drop by metis+
  have fresh: "ks ! i \<notin> set (take i ks)" "ks ! i \<notin> set (drop (Suc i) ks)"
    using assms split(1) distinct_append [of "take i ks" "ks ! i # drop (Suc i) ks"] by auto
  let ?z1 = "zip (take i ks) (take i vs)" and ?z2 = "zip (drop (Suc i) ks) (drop (Suc i) vs)"
  have len: "length (take i ks) = length (take i vs)" using assms by simp
  have whole: "zip ks vs = ?z1 @ (ks ! i, vs ! i) # ?z2"
    by (subst split(1), subst split(2)) (simp only: zip_append [OF len] zip_Cons_Cons)
  have none: "map_of ?z1 (ks ! i) = None" "map_of ?z2 (ks ! i) = None"
    using fresh by (auto simp: map_of_eq_None_iff dest: set_zip_leftD)
  have "map_of (?z1 @ ?z2) = (map_of (?z1 @ (ks ! i, vs ! i) # ?z2))(ks ! i := None)"
    using none by (auto simp: fun_eq_iff map_add_def split: option.splits)
  with whole show ?thesis by (simp only: zip_append [OF len])
qed

lemma map_remove_inv:
  assumes inv: "map_inv kc m"
  shows "\<exists>m'. map_remove m key =
            Inr (if map_abs kc m (kc key) = None then ecNotFound else ecSuccess, m') \<and>
          map_inv kc m' \<and> map_abs kc m' = (map_abs kc m)(kc key := None)"
using inv
proof (cases rule: find_key_inv [where key = key])
  case absent
  then show ?thesis using inv by (auto simp: map_remove_def)
next
  case (present i)
  let ?ks = "m_keys m" and ?vs = "m_values m"
  have len: "length ?vs = length ?ks" "m_size m = int (length ?ks)" "distinct (map kc ?ks)"
    using inv by (simp_all add: map_inv_def)
  obtain ks vs where ks: "remove_idx ?ks (int i) (m_size m) = Inr ks"
      "take (length ?ks - 1) ks = take i ?ks @ drop (Suc i) ?ks"
    and vs: "remove_idx ?vs (int i) (m_size m) = Inr vs"
      "take (length ?ks - 1) vs = take i ?vs @ drop (Suc i) ?vs"
    using remove_idx_eq [of i ?ks] remove_idx_eq [of i ?vs] present(2) len by auto
  let ?m' = "m\<lparr>m_size := m_size m - 1, m_keys := take i ?ks @ drop (Suc i) ?ks,
               m_values := take i ?vs @ drop (Suc i) ?vs\<rparr>"
  have nat: "nat (m_size m - 1) = length ?ks - 1" using len by simp
  have run: "map_remove m key = Inr (ecSuccess, ?m')"
    using present(1) ks vs by (simp add: map_remove_def Let_def nat)
  have keys: "map kc (take i ?ks @ drop (Suc i) ?ks) = take i (map kc ?ks) @ drop (Suc i) (map kc ?ks)"
    by (simp add: take_map drop_map)
  have "set (take i (map kc ?ks)) \<inter> set (drop (Suc i) (map kc ?ks)) = {}"
    using len(3) by (intro set_take_disj_set_drop_if_distinct) auto
  then have "distinct (take i (map kc ?ks) @ drop (Suc i) (map kc ?ks))"
    using len(3) by simp
  then have inv': "map_inv kc ?m'"
    using inv len present(2) keys by (auto simp: map_inv_def of_nat_diff)
  have "map_abs kc ?m' = (map_abs kc m)(kc key := None)"
    using map_of_zip_remove [of "map kc ?ks" ?vs i] len present(2,3) keys by (simp add: map_abs_def)
  with run inv' present(4) show ?thesis by auto
qed

interpretation ks: keyed_store map_set map_get map_remove kc "map_abs kc" "map_inv kc" for kc
  by unfold_locales (rule map_set_inv map_get_inv map_remove_inv, assumption)+

lemma map_init_inv: "map_inv kc (snd (map_init a b (\<lambda>x y. kc x \<noteq> kc y)))"
  and map_init_abs: "map_abs kc (snd (map_init a b c)) = Map.empty"
  by (simp_all add: map_init_def map_inv_def map_abs_def)

lemma map_destroy_inv: "map_inv kc m \<Longrightarrow> \<exists>m'. map_destroy m = Inr m' \<and> m_keys m' = [] \<and> m_values m' = []"
proof -
  assume inv: "map_inv kc m"
  have "\<exists>s'. for_loop (nat (m_size m)) 0 (\<lambda>i u. rbind (arr_get (m_keys m) i) (\<lambda>_.
         rbind (arr_get (m_values m) i) (\<lambda>_. Inr u))) () = Inr s' \<and> True"
    using inv by (intro for_loop_rule [where P = "\<lambda>_ _. True"]) (auto simp: map_inv_def)
  then show ?thesis by (auto simp: map_destroy_def)
qed

end
