(* ===== verification/Paged.thy ===== *)
theory Paged
  imports Locks
begin

text \<open>
  The contract that the main memory (\<^verbatim>\<open>vmsim/mm.c\<close>) and the disk (\<^verbatim>\<open>vmsim/disk.c\<close>) share: a
  device of equally long pages, each of them read and written as a whole. A page that is not
  allocated is refused, and a page number past the end is a failed assertion.
\<close>

locale paged =
  fixes put :: "'d \<Rightarrow> int \<Rightarrow> byte list \<Rightarrow> (errcode_t \<times> 'd) res"
    and get :: "'d \<Rightarrow> int \<Rightarrow> (errcode_t \<times> byte list option \<times> 'd) res"
    and page :: "'d \<Rightarrow> nat \<Rightarrow> byte list"
    and live :: "'d \<Rightarrow> nat \<Rightarrow> bool"
    and npages :: "'d \<Rightarrow> nat"
    and psize :: "'d \<Rightarrow> nat"
    and ok :: "'d \<Rightarrow> bool"
  assumes put_ok: "ok d \<Longrightarrow> live d i \<Longrightarrow> length buf = psize d \<Longrightarrow>
            \<exists>d'. put d (int i) buf = Inr (ecSuccess, d') \<and> ok d' \<and> live d' = live d \<and>
                 npages d' = npages d \<and> psize d' = psize d \<and>
                 (\<forall>j < npages d. page d' j = (if j = i then buf else page d j))"
    and get_ok: "ok d \<Longrightarrow> live d i \<Longrightarrow> get d (int i) = Inr (ecSuccess, Some (page d i), d)"
    and refused: "ok d \<Longrightarrow> i < npages d \<Longrightarrow> \<not> live d i \<Longrightarrow>
            get d (int i) = Inr (ecFail, None, d) \<and> put d (int i) buf = Inr (ecFail, d)"
    and outside: "ok d \<Longrightarrow> npages d \<le> i \<Longrightarrow>
            get d (int i) = Inl AssertFailed \<and> put d (int i) buf = Inl AssertFailed"
    and live_inside: "ok d \<Longrightarrow> live d i \<Longrightarrow> i < npages d"
    and page_length: "ok d \<Longrightarrow> i < npages d \<Longrightarrow> length (page d i) = psize d"
begin

lemma put_get:
  "ok d \<Longrightarrow> live d i \<Longrightarrow> length buf = psize d \<Longrightarrow>
   \<exists>d'. put d (int i) buf = Inr (ecSuccess, d') \<and> get d' (int i) = Inr (ecSuccess, Some buf, d')"
  using put_ok [of d i buf] get_ok live_inside by fastforce

lemma put_get_other:
  "ok d \<Longrightarrow> live d i \<Longrightarrow> live d j \<Longrightarrow> j \<noteq> i \<Longrightarrow> length buf = psize d \<Longrightarrow>
   \<exists>d'. put d (int i) buf = Inr (ecSuccess, d') \<and> get d' (int j) = Inr (ecSuccess, Some (page d j), d')"
  using put_ok [of d i buf] get_ok live_inside by fastforce

lemma put_put:
  assumes "ok d" "live d i" "length b1 = psize d" "length b2 = psize d"
  shows "\<exists>d1 d2. put d (int i) b1 = Inr (ecSuccess, d1) \<and> put d1 (int i) b2 = Inr (ecSuccess, d2) \<and>
           (\<forall>j < npages d. page d2 j = (if j = i then b2 else page d j))"
proof -
  obtain d1 where d1: "put d (int i) b1 = Inr (ecSuccess, d1)" "ok d1" "live d1 = live d"
    "npages d1 = npages d" "psize d1 = psize d"
    "\<forall>j < npages d. page d1 j = (if j = i then b1 else page d j)"
    using put_ok assms by blast
  then obtain d2 where "put d1 (int i) b2 = Inr (ecSuccess, d2)"
    "\<forall>j < npages d. page d2 j = (if j = i then b2 else page d1 j)"
    using put_ok [of d1 i b2] assms by auto
  with d1 show ?thesis by auto
qed

text \<open>A page copied from one place to another on the same device arrives unchanged.\<close>

lemma copy_page:
  "ok d \<Longrightarrow> live d i \<Longrightarrow> live d j \<Longrightarrow>
   \<exists>d'. rbind (get d (int i)) (\<lambda>(_, buf, d1). put d1 (int j) (case buf of None \<Rightarrow> [] | Some b \<Rightarrow> b)) =
          Inr (ecSuccess, d') \<and> page d' j = page d i"
  using get_ok [of d i] put_ok [of d j "page d i"] page_length [of d i] live_inside by fastforce

end

subsection \<open>Page frames of a block of bytes\<close>

text \<open>What both devices do with the block of bytes behind them.\<close>

lemma read_page:
  assumes "i < n" "length bs = n * ps"
  shows "mem_read bs (int i * int ps) ps = Inr (page_at ps bs i)"
proof -
  have "int i * int ps = int (i * ps)" by simp
  then show ?thesis using mem_read_in [of "i * ps" ps bs] page_fits [OF assms] by (simp only: page_at_def)
qed

lemma write_page:
  assumes "i < n" "length bs = n * ps" "length buf = ps"
  shows "mem_write bs (int i * int ps) buf ps = Inr (overwrite bs (i * ps) buf)"
proof -
  have "int i * int ps = int (i * ps)" by simp
  then show ?thesis
    using mem_write_in [of "i * ps" ps bs buf] page_fits [OF assms(1,2)] assms(3) by (simp only:) simp
qed

lemma page_at_overwrite_page:
  assumes "i < n" "j < n" "length bs = n * ps" "length buf = ps"
  shows "page_at ps (overwrite bs (i * ps) buf) j = (if j = i then buf else page_at ps bs j)"
proof (cases "j = i")
  case True
  have "overwrite (page_at ps bs i) 0 buf = buf"
    using assms by (simp add: overwrite_def)
  then show ?thesis using page_at_overwrite_same [of i n bs ps 0 buf] assms True by simp
next
  case False
  then show ?thesis using page_at_overwrite_other [of i n j bs ps 0 buf] assms by simp
qed

end
