(* ===== verification/Main_Memory.thy ===== *)
theory Main_Memory
  imports Paged
begin

text \<open>
  \<^verbatim>\<open>vmsim/mm.c\<close>: the simulated main memory. \<open>mm_data\<close> is the pointer to the block (\<open>None\<close> is
  \<^verbatim>\<open>NULL\<close>), \<open>mm_bytes\<close> what the block holds.
\<close>

record mm_t =
  mm_data :: "nat option"
  mm_bytes :: "byte list"
  mm_npages :: int
  mm_page_size :: int
  mm_lock :: rwlock_t
  mm_orig_addr :: "nat option"

text \<open>\<open>cal\<close> is what \<^verbatim>\<open>calloc\<close> returned; a fresh block is zeroed.\<close>

definition mm_init :: "nat option \<Rightarrow> mm_t \<Rightarrow> int \<Rightarrow> int \<Rightarrow> errcode_t \<times> mm_t" where
  "mm_init cal mm npages pagesize =
     (let mm1 = mm\<lparr>mm_data := cal, mm_bytes := replicate (nat npages * nat pagesize) 0\<rparr>
      in if mm_data mm1 = None then (ecFail, mm\<lparr>mm_data := None, mm_bytes := []\<rparr>)
         else (ecSuccess, mm1\<lparr>mm_orig_addr := mm_data mm1, mm_npages := npages,
                              mm_page_size := pagesize, mm_lock := snd (rwlock_init 0)\<rparr>))"

definition mm_page_start :: "mm_t \<Rightarrow> int \<Rightarrow> int" where
  "mm_page_start mm page = page * mm_page_size mm"

definition mm_read :: "mm_t \<Rightarrow> int \<Rightarrow> (errcode_t \<times> byte list option \<times> mm_t) res" where
  "mm_read mm page =
     rbind (rd_start (mm_lock mm)) (\<lambda>l.
     rbind (cassert (mm_data mm \<noteq> None)) (\<lambda>_.
     rbind (cassert (mm_orig_addr mm = mm_data mm)) (\<lambda>_.
     rbind (cassert (page < mm_npages mm)) (\<lambda>_.
     rbind (mem_read (mm_bytes mm) (mm_page_start mm page) (nat (mm_page_size mm))) (\<lambda>buf.
     rbind (rd_end l) (\<lambda>l'.
     Inr (ecSuccess, Some buf, mm\<lparr>mm_lock := l'\<rparr>)))))))"

definition mm_write :: "mm_t \<Rightarrow> int \<Rightarrow> byte list \<Rightarrow> (errcode_t \<times> mm_t) res" where
  "mm_write mm page buf =
     rbind (wr_start (mm_lock mm)) (\<lambda>l.
     rbind (cassert (mm_data mm \<noteq> None)) (\<lambda>_.
     rbind (cassert (mm_orig_addr mm = mm_data mm)) (\<lambda>_.
     rbind (cassert (page < mm_npages mm)) (\<lambda>_.
     rbind (mem_write (mm_bytes mm) (mm_page_start mm page) buf (nat (mm_page_size mm))) (\<lambda>bs.
     rbind (wr_end l) (\<lambda>l'.
     Inr (ecSuccess, mm\<lparr>mm_bytes := bs, mm_lock := l'\<rparr>)))))))"

definition mm_destroy :: "mm_t \<Rightarrow> mm_t res" where
  "mm_destroy mm =
     rbind (wr_start (mm_lock mm)) (\<lambda>l.
     rbind (cassert (mm_orig_addr mm = mm_data mm)) (\<lambda>_.
     rbind (wr_end l) (\<lambda>l'.
     rbind (rwlock_destroy l') (\<lambda>_.
     Inr (mm\<lparr>mm_data := None, mm_bytes := [], mm_lock := l'\<rparr>)))))"

definition mm_inv :: "mm_t \<Rightarrow> bool" where
  "mm_inv mm \<longleftrightarrow> mm_data mm \<noteq> None \<and> mm_orig_addr mm = mm_data mm \<and>
     0 < mm_npages mm \<and> 0 < mm_page_size mm \<and> mm_npages mm * mm_page_size mm < 2 ^ 31 \<and>
     length (mm_bytes mm) = nat (mm_npages mm) * nat (mm_page_size mm) \<and> mm_lock mm = rw_free"

abbreviation mm_frames :: "mm_t \<Rightarrow> nat" where
  "mm_frames mm \<equiv> nat (mm_npages mm)"

abbreviation mm_psize :: "mm_t \<Rightarrow> nat" where
  "mm_psize mm \<equiv> nat (mm_page_size mm)"

definition mm_page :: "mm_t \<Rightarrow> nat \<Rightarrow> byte list" where
  "mm_page mm i = page_at (mm_psize mm) (mm_bytes mm) i"

lemma mm_init_inv:
  assumes "0 < n" "0 < ps" "n * ps < 2 ^ 31"
  shows "fst (mm_init (Some a) mm n ps) = ecSuccess \<and> mm_inv (snd (mm_init (Some a) mm n ps))"
  using assms by (simp add: mm_init_def mm_inv_def rwlock_init_def)

lemma mm_page_start_int: "mm_inv mm \<Longrightarrow> mm_page_start mm (int i) = int i * int (mm_psize mm)"
  by (simp add: mm_page_start_def mm_inv_def)

lemma mm_read_inv:
  assumes "mm_inv mm" "i < mm_frames mm"
  shows "mm_read mm (int i) = Inr (ecSuccess, Some (mm_page mm i), mm)"
  using assms read_page [of i "mm_frames mm" "mm_bytes mm" "mm_psize mm"]
  by (auto simp: mm_read_def mm_page_start_int mm_page_def) (simp_all add: mm_inv_def)

lemma mm_write_inv:
  assumes "mm_inv mm" "i < mm_frames mm" "length buf = mm_psize mm"
  shows "\<exists>mm'. mm_write mm (int i) buf = Inr (ecSuccess, mm') \<and> mm_inv mm' \<and>
           mm_npages mm' = mm_npages mm \<and> mm_page_size mm' = mm_page_size mm \<and>
           (\<forall>j < mm_frames mm. mm_page mm' j = (if j = i then buf else mm_page mm j))"
proof -
  let ?bs = "overwrite (mm_bytes mm) (i * mm_psize mm) buf"
  have len: "length (mm_bytes mm) = mm_frames mm * mm_psize mm" using assms by (simp add: mm_inv_def)
  have "mm_write mm (int i) buf = Inr (ecSuccess, mm\<lparr>mm_bytes := ?bs\<rparr>)"
    using assms write_page [OF assms(2) len assms(3)] assms(1)
    by (auto simp: mm_write_def mm_page_start_int) (simp_all add: mm_inv_def)
  moreover have "mm_inv (mm\<lparr>mm_bytes := ?bs\<rparr>)"
    using assms len page_fits [OF assms(2) len] by (auto simp: mm_inv_def)
  moreover have "\<forall>j < mm_frames mm. mm_page (mm\<lparr>mm_bytes := ?bs\<rparr>) j = (if j = i then buf else mm_page mm j)"
    using page_at_overwrite_page [OF assms(2) _ len assms(3)] by (simp add: mm_page_def)
  ultimately show ?thesis by auto
qed

lemma mm_outside:
  "mm_inv mm \<Longrightarrow> mm_frames mm \<le> i \<Longrightarrow>
   mm_read mm (int i) = Inl AssertFailed \<and> mm_write mm (int i) buf = Inl AssertFailed"
  by (simp add: mm_inv_def mm_read_def mm_write_def)

interpretation mp: paged mm_write mm_read mm_page "\<lambda>mm i. i < mm_frames mm" mm_frames mm_psize mm_inv
proof unfold_locales
  fix d i buf
  show "mm_inv d \<Longrightarrow> i < mm_frames d \<Longrightarrow> length buf = mm_psize d \<Longrightarrow>
    \<exists>d'. mm_write d (int i) buf = Inr (ecSuccess, d') \<and> mm_inv d' \<and>
      (\<lambda>i. i < mm_frames d') = (\<lambda>i. i < mm_frames d) \<and> mm_frames d' = mm_frames d \<and>
      mm_psize d' = mm_psize d \<and>
      (\<forall>j < mm_frames d. mm_page d' j = (if j = i then buf else mm_page d j))"
    using mm_write_inv [of d i buf] by auto
  show "mm_inv d \<Longrightarrow> i < mm_frames d \<Longrightarrow> length (mm_page d i) = mm_psize d"
    by (simp add: mm_page_def mm_inv_def)
qed (simp_all add: mm_read_inv mm_outside)

end
