(* ===== verification/Bitmap.thy ===== *)
theory Bitmap
  imports Prelude
begin

unbundle bit_operations_syntax

text \<open>
  \<^verbatim>\<open>util/bitmap.c\<close>: a bitmap of \<open>bm_size\<close> bits in blocks of eight. \<^verbatim>\<open>BLOCK_SIZE\<close> is a
  \<^verbatim>\<open>size_t\<close>, so every index expression is computed in 64-bit unsigned arithmetic.
\<close>

record bitmap_t =
  bm_data :: "byte list"
  bm_size :: int

abbreviation block_size :: int where
  "block_size \<equiv> 8"

definition block_idx :: "int \<Rightarrow> int" where
  "block_idx b = (b mod 2 ^ 64) div block_size"

definition bit_idx :: "int \<Rightarrow> nat" where
  "bit_idx b = nat ((b mod 2 ^ 64) mod block_size)"

definition get_bit :: "byte \<Rightarrow> nat \<Rightarrow> bool" where
  "get_bit block i \<longleftrightarrow> block AND push_bit i 1 \<noteq> 0"

definition set_bit_macro :: "byte \<Rightarrow> nat \<Rightarrow> byte" where
  "set_bit_macro block i = block OR push_bit i 1"

definition clear_bit_macro :: "byte \<Rightarrow> nat \<Rightarrow> byte" where
  "clear_bit_macro block i = block AND NOT (push_bit i 1)"

text \<open>\<open>cal\<close>: whether \<^verbatim>\<open>calloc\<close> returned a block.\<close>

definition bitmap_init :: "bool \<Rightarrow> bitmap_t \<Rightarrow> int \<Rightarrow> errcode_t \<times> bitmap_t" where
  "bitmap_init cal bitmap nbits =
     (if \<not> cal then (ecFail, bitmap\<lparr>bm_data := []\<rparr>)
      else (ecSuccess, bitmap\<lparr>bm_data := replicate (nat (((nbits - 1) mod 2 ^ 64) div block_size + 1)) 0,
                              bm_size := nbits\<rparr>))"

text \<open>
  The first loop of \<^verbatim>\<open>find_first\<close>: the block is read before the index is compared with the
  number of blocks. The recursion stops at the end of the array, where the read is a fault.
\<close>

function find_block :: "byte list \<Rightarrow> int \<Rightarrow> byte \<Rightarrow> nat \<Rightarrow> nat res" where
  "find_block data nbits skip_block blockidx =
     rbind (arr_get data (int blockidx)) (\<lambda>b.
       if b = skip_block \<and> int blockidx \<le> block_idx nbits
       then find_block data nbits skip_block (Suc blockidx) else Inr blockidx)"
  by pat_completeness auto
termination
  by (relation "measure (\<lambda>(data, nbits, skip, b). length data - b)")
     (auto simp: arr_get_def split: if_splits)

declare find_block.simps [simp del]

text \<open>The second loop, over the bits of one block; \<open>k\<close> is the number of bits left in it.\<close>

primrec find_bit_loop :: "nat \<Rightarrow> byte \<Rightarrow> bool \<Rightarrow> int \<Rightarrow> nat \<Rightarrow> nat option" where
  "find_bit_loop 0 block value maxbitidx bitidx = None"
| "find_bit_loop (Suc k) block value maxbitidx bitidx =
     (if int bitidx < maxbitidx then
        if get_bit block bitidx = value then Some bitidx
        else find_bit_loop k block value maxbitidx (Suc bitidx)
      else None)"

definition find_first :: "bitmap_t \<Rightarrow> bool \<Rightarrow> byte \<Rightarrow> int res" where
  "find_first bitmap value skip_block =
     rbind (find_block (bm_data bitmap) (bm_size bitmap) skip_block 0) (\<lambda>blockidx.
     if int blockidx > block_idx (bm_size bitmap) then Inr (- 1)
     else rbind (arr_get (bm_data bitmap) (int blockidx)) (\<lambda>block.
       let maxbitidx = (bm_size bitmap - int blockidx * block_size) mod 2 ^ 32
       in Inr (case find_bit_loop 8 block value maxbitidx 0 of
                 Some bitidx \<Rightarrow> int blockidx * block_size + int bitidx
               | None \<Rightarrow> - 1)))"

definition bitmap_first_set :: "bitmap_t \<Rightarrow> (errcode_t \<times> int) res" where
  "bitmap_first_set bitmap = rbind (find_first bitmap True 0x00)
     (\<lambda>idx. Inr (if idx \<ge> 0 then ecSuccess else ecNotFound, idx))"

definition bitmap_first_clear :: "bitmap_t \<Rightarrow> (errcode_t \<times> int) res" where
  "bitmap_first_clear bitmap = rbind (find_first bitmap False 0xFF)
     (\<lambda>idx. Inr (if idx \<ge> 0 then ecSuccess else ecNotFound, idx))"

definition bitmap_set :: "bitmap_t \<Rightarrow> int \<Rightarrow> (errcode_t \<times> bitmap_t) res" where
  "bitmap_set bitmap idx =
     rbind (cassert (idx < bm_size bitmap)) (\<lambda>_.
     rbind (arr_get (bm_data bitmap) (block_idx idx)) (\<lambda>block.
     rbind (arr_set (bm_data bitmap) (block_idx idx) (set_bit_macro block (bit_idx idx))) (\<lambda>d.
     Inr (ecSuccess, bitmap\<lparr>bm_data := d\<rparr>))))"

definition bitmap_clear :: "bitmap_t \<Rightarrow> int \<Rightarrow> (errcode_t \<times> bitmap_t) res" where
  "bitmap_clear bitmap idx =
     rbind (cassert (idx < bm_size bitmap)) (\<lambda>_.
     rbind (arr_get (bm_data bitmap) (block_idx idx)) (\<lambda>block.
     rbind (arr_set (bm_data bitmap) (block_idx idx) (clear_bit_macro block (bit_idx idx))) (\<lambda>d.
     Inr (ecSuccess, bitmap\<lparr>bm_data := d\<rparr>))))"

definition bitmap_get :: "bitmap_t \<Rightarrow> int \<Rightarrow> bool res" where
  "bitmap_get bitmap idx =
     rbind (cassert (idx < bm_size bitmap)) (\<lambda>_.
     rbind (arr_get (bm_data bitmap) (block_idx idx)) (\<lambda>block. Inr (get_bit block (bit_idx idx))))"

definition bitmap_destroy :: "bitmap_t \<Rightarrow> bitmap_t" where
  "bitmap_destroy bitmap = bitmap\<lparr>bm_data := []\<rparr>"

subsection \<open>Bits of a block\<close>

lemma get_bit_iff: "i < 8 \<Longrightarrow> get_bit b i = bit b i"
  by (simp add: get_bit_def push_bit_eq_mult and_exp_eq_0_iff_not_bit)

lemma bit_set_bit_macro: "i < 8 \<Longrightarrow> j < 8 \<Longrightarrow> bit (set_bit_macro b i) j \<longleftrightarrow> j = i \<or> bit b j"
  by (auto simp: set_bit_macro_def bit_simps)

lemma bit_clear_bit_macro: "i < 8 \<Longrightarrow> j < 8 \<Longrightarrow> bit (clear_bit_macro b i) j \<longleftrightarrow> j \<noteq> i \<and> bit b j"
  by (auto simp: clear_bit_macro_def bit_simps)

lemma byte_eq_0_iff: "(b :: byte) = 0 \<longleftrightarrow> (\<forall>i < 8. \<not> bit b i)"
  by (auto simp: bit_eq_iff dest: bit_imp_le_length)

lemma byte_eq_ff_iff: "(b :: byte) = 0xFF \<longleftrightarrow> (\<forall>i < 8. bit b i)"
proof -
  have ff: "(0xFF :: byte) = mask 8" by (simp add: mask_eq_exp_minus_1)
  show ?thesis unfolding ff by (auto simp: bit_eq_iff bit_mask_iff dest: bit_imp_le_length)
qed

subsection \<open>What a bitmap represents\<close>

definition bm_bit :: "bitmap_t \<Rightarrow> nat \<Rightarrow> bool" where
  "bm_bit bm i = bit (bm_data bm ! (i div 8)) (i mod 8)"

text \<open>The bits behind \<open>bm_size\<close> in the last block stay clear.\<close>

definition bitmap_inv :: "bitmap_t \<Rightarrow> bool" where
  "bitmap_inv bm \<longleftrightarrow> 0 < bm_size bm \<and> bm_size bm < 2 ^ 31 \<and>
     length (bm_data bm) = (nat (bm_size bm) + 7) div 8 \<and>
     (\<forall>i < 8 * length (bm_data bm). nat (bm_size bm) \<le> i \<longrightarrow> \<not> bm_bit bm i)"

lemma block_idx_nat [simp]: "int i < 2 ^ 64 \<Longrightarrow> block_idx (int i) = int (i div 8)"
  by (simp add: block_idx_def zdiv_int)

lemma bit_idx_nat [simp]: "int i < 2 ^ 64 \<Longrightarrow> bit_idx (int i) = i mod 8"
  by (simp add: bit_idx_def nat_mod_as_int)

lemma bitmap_inv_size: "bitmap_inv bm \<Longrightarrow> bm_size bm = int (nat (bm_size bm))"
  by (simp add: bitmap_inv_def)

lemma bitmap_inv_length: "bitmap_inv bm \<Longrightarrow> length (bm_data bm) = (nat (bm_size bm) + 7) div 8"
  by (simp add: bitmap_inv_def)

lemma blocks_partial: "(n::nat) mod 8 \<noteq> 0 \<Longrightarrow> n div 8 < (n + 7) div 8 \<and> n < 8 * ((n + 7) div 8)"
  by presburger

lemma blocks_whole: "(n::nat) mod 8 = 0 \<Longrightarrow> 8 * ((n + 7) div 8) = n"
  by presburger

lemma bitmap_size_mod: "bitmap_inv bm \<Longrightarrow> bm_size bm mod 8 = int (nat (bm_size bm) mod 8)"
  by (simp add: zmod_int bitmap_inv_def)

lemma bitmap_inv_bounds:
  assumes "bitmap_inv bm" "int i < bm_size bm"
  shows "i div 8 < length (bm_data bm)" "int i < 2 ^ 64"
  using assms by (auto simp: bitmap_inv_def)

lemma bitmap_get_inv: "bitmap_inv bm \<Longrightarrow> int i < bm_size bm \<Longrightarrow> bitmap_get bm (int i) = Inr (bm_bit bm i)"
  using bitmap_inv_bounds [of bm i]
  by (simp add: bitmap_get_def get_bit_iff bm_bit_def del: of_nat_div)

lemma bm_bit_update:
  assumes "i div 8 < length (bm_data bm)" "j < 8 * length (bm_data bm)"
  shows "bm_bit (bm\<lparr>bm_data := (bm_data bm)[i div 8 := b]\<rparr>) j =
         (if j div 8 = i div 8 then bit b (j mod 8) else bm_bit bm j)"
  using assms by (simp add: bm_bit_def nth_list_update)

lemma bit_index_eq: "(j::nat) div 8 = i div 8 \<Longrightarrow> j mod 8 = i mod 8 \<longleftrightarrow> j = i"
  by (metis div_mod_decomp)

lemma bitmap_set_inv:
  assumes inv: "bitmap_inv bm" and i: "int i < bm_size bm"
  shows "\<exists>bm'. bitmap_set bm (int i) = Inr (ecSuccess, bm') \<and> bitmap_inv bm' \<and>
               bm_size bm' = bm_size bm \<and> (\<forall>j. int j < bm_size bm \<longrightarrow> bm_bit bm' j = (j = i \<or> bm_bit bm j))"
proof -
  let ?b = "set_bit_macro (bm_data bm ! (i div 8)) (i mod 8)"
  let ?bm = "bm\<lparr>bm_data := (bm_data bm)[i div 8 := ?b]\<rparr>"
  note bnd = bitmap_inv_bounds [OF inv i]
  have bits: "bm_bit ?bm j = (j = i \<or> bm_bit bm j)" if "j < 8 * length (bm_data bm)" for j
    using bm_bit_update [OF bnd(1) that, of ?b] bit_index_eq [of j i]
    by (auto simp: bit_set_bit_macro bm_bit_def)
  have "bitmap_set bm (int i) = Inr (ecSuccess, ?bm)"
    using bnd i by (simp add: bitmap_set_def del: of_nat_div)
  moreover have "bitmap_inv ?bm" using inv i bits by (auto simp: bitmap_inv_def)
  ultimately show ?thesis using bits inv by (auto simp: bitmap_inv_def)
qed

lemma bitmap_clear_inv:
  assumes inv: "bitmap_inv bm" and i: "int i < bm_size bm"
  shows "\<exists>bm'. bitmap_clear bm (int i) = Inr (ecSuccess, bm') \<and> bitmap_inv bm' \<and>
               bm_size bm' = bm_size bm \<and> (\<forall>j. int j < bm_size bm \<longrightarrow> bm_bit bm' j = (j \<noteq> i \<and> bm_bit bm j))"
proof -
  let ?b = "clear_bit_macro (bm_data bm ! (i div 8)) (i mod 8)"
  let ?bm = "bm\<lparr>bm_data := (bm_data bm)[i div 8 := ?b]\<rparr>"
  note bnd = bitmap_inv_bounds [OF inv i]
  have bits: "bm_bit ?bm j = (j \<noteq> i \<and> bm_bit bm j)" if "j < 8 * length (bm_data bm)" for j
    using bm_bit_update [OF bnd(1) that, of ?b] bit_index_eq [of j i]
    by (auto simp: bit_clear_bit_macro bm_bit_def)
  have "bitmap_clear bm (int i) = Inr (ecSuccess, ?bm)"
    using bnd i by (simp add: bitmap_clear_def del: of_nat_div)
  moreover have "bitmap_inv ?bm" using inv i bits by (auto simp: bitmap_inv_def)
  ultimately show ?thesis using bits inv by (auto simp: bitmap_inv_def)
qed

lemma bitmap_init_inv:
  assumes "0 < n" "n < 2 ^ 31"
  shows "bitmap_inv (snd (bitmap_init True bm n)) \<and> bm_size (snd (bitmap_init True bm n)) = n \<and>
         (\<forall>i. int i < n \<longrightarrow> \<not> bm_bit (snd (bitmap_init True bm n)) i)"
proof -
  have "nat ((n - 1) mod 2 ^ 64 div 8 + 1) = (nat n + 7) div 8" using assms by simp
  moreover have "\<not> bm_bit (bm\<lparr>bm_data := replicate k 0, bm_size := n\<rparr>) i" if "i < 8 * k" for k i
    using that less_mult_imp_div_less [of i k 8] by (simp add: bm_bit_def)
  ultimately show ?thesis using assms by (auto simp: bitmap_init_def bitmap_inv_def)
qed

subsection \<open>The first set and the first clear bit\<close>

lemma find_block_found:
  assumes "b \<le> b0" "b0 < length data" "data ! b0 \<noteq> skip"
    and "\<And>b'. b \<le> b' \<Longrightarrow> b' < b0 \<Longrightarrow> data ! b' = skip \<and> int b' \<le> block_idx nbits"
  shows "find_block data nbits skip b = Inr b0"
  using assms
proof (induction "b0 - b" arbitrary: b)
  case 0
  then show ?case by (simp add: find_block.simps [of data nbits skip b])
next
  case (Suc d)
  then have "find_block data nbits skip (Suc b) = Inr b0" by simp
  with Suc show ?case by (simp add: find_block.simps [of data nbits skip b])
qed

lemma find_block_overrun:
  assumes "b \<le> length data"
    and "\<And>b'. b \<le> b' \<Longrightarrow> b' < length data \<Longrightarrow> data ! b' = skip \<and> int b' \<le> block_idx nbits"
  shows "find_block data nbits skip b = Inl OutOfBounds"
  using assms
proof (induction "length data - b" arbitrary: b)
  case 0
  then show ?case by (simp add: find_block.simps [of data nbits skip b])
next
  case (Suc d)
  then have "find_block data nbits skip (Suc b) = Inl OutOfBounds" by simp
  with Suc show ?case by (simp add: find_block.simps [of data nbits skip b])
qed

lemma find_bit_loop_eq:
  "find_bit_loop k block v m i = find (\<lambda>j. int j < m \<and> get_bit block j = v) [i..<i + k]"
proof (induction k arbitrary: i)
  case (Suc k)
  show ?case
  proof (cases "int i < m")
    case True
    with Suc show ?thesis by (simp add: upt_conv_Cons del: upt_Suc)
  next
    case False
    then have "find (\<lambda>j. int j < m \<and> get_bit block j = v) [i..<i + Suc k] = None"
      by (auto simp: find_None_iff)
    with False show ?thesis by simp
  qed
qed simp

lemma find_upt_first:
  "i < n \<Longrightarrow> P i \<Longrightarrow> (\<And>j. j < i \<Longrightarrow> \<not> P j) \<Longrightarrow> find P [0..<n] = Some i"
  by (auto simp: find_Some_iff intro!: exI [of _ i])

text \<open>\<open>skip\<close> is the block in which no bit has the wanted value.\<close>

definition skips :: "byte \<Rightarrow> bool \<Rightarrow> bool" where
  "skips skip v \<longleftrightarrow> (\<forall>b. b = skip \<longleftrightarrow> (\<forall>i < 8. bit b i \<noteq> v))"

lemma skips_0: "skips 0 True" and skips_ff: "skips 0xFF False"
  by (simp_all add: skips_def byte_eq_0_iff byte_eq_ff_iff)

lemma block_bit: "i < 8 \<Longrightarrow> bit (bm_data bm ! b) i = bm_bit bm (b * 8 + i)"
  by (simp add: bm_bit_def)

lemma block_le_idx:
  "bitmap_inv bm \<Longrightarrow> b < length (bm_data bm) \<Longrightarrow> int b \<le> block_idx (bm_size bm)"
proof -
  assume inv: "bitmap_inv bm" and b: "b < length (bm_data bm)"
  then have "int b \<le> int (nat (bm_size bm) div 8)" by (simp add: bitmap_inv_def)
  also have "\<dots> = block_idx (bm_size bm)"
    using inv block_idx_nat [of "nat (bm_size bm)"] by (simp add: bitmap_inv_def del: block_idx_nat)
  finally show ?thesis .
qed

lemma find_first_found:
  assumes inv: "bitmap_inv bm" and sk: "skips skip v" and i: "int i < bm_size bm" "bm_bit bm i = v"
    and first: "\<And>j. j < i \<Longrightarrow> bm_bit bm j \<noteq> v"
  shows "find_first bm v skip = Inr (int i)"
proof -
  let ?b = "i div 8" and ?D = "bm_data bm"
  note bnd = bitmap_inv_bounds [OF inv i(1)]
  have all_skip: "?D ! b' = skip" if "b' < ?b" for b'
    using first that sk by (auto simp: skips_def block_bit)
  have this_block: "?D ! ?b \<noteq> skip"
    using sk i(2) block_bit [of "i mod 8" bm ?b] by (auto simp: skips_def intro!: exI [of _ "i mod 8"])
  have loop1: "find_block ?D (bm_size bm) skip 0 = Inr ?b"
    using all_skip this_block bnd block_le_idx [OF inv] by (intro find_block_found) auto
  have le: "int ?b \<le> block_idx (bm_size bm)" using block_le_idx [OF inv bnd(1)] .
  let ?m = "(bm_size bm - int ?b * 8) mod 2 ^ 32"
  have "0 \<le> bm_size bm - int ?b * 8" "bm_size bm - int ?b * 8 < 2 ^ 32"
    using inv i(1) by (auto simp: bitmap_inv_def)
  then have m: "?m = bm_size bm - int ?b * 8" by simp
  have "find_bit_loop 8 (?D ! ?b) v ?m 0 = Some (i mod 8)"
    unfolding find_bit_loop_eq
  proof (simp only: add_0, rule find_upt_first)
    show "int (i mod 8) < ?m \<and> get_bit (?D ! ?b) (i mod 8) = v"
    proof
      have "int (i mod 8) = int i - int ?b * 8" by presburger
      then show "int (i mod 8) < ?m" using i(1) m by linarith
    qed (use i(2) in \<open>simp add: get_bit_iff block_bit\<close>)
    fix j assume "j < i mod 8"
    then have "j < 8" "?b * 8 + j < i" by presburger+
    then show "\<not> (int j < ?m \<and> get_bit (?D ! ?b) j = v)"
      using first [of "?b * 8 + j"] by (simp add: get_bit_iff block_bit)
  qed simp
  moreover have "int ?b * 8 + int (i mod 8) = int i" by presburger
  ultimately show ?thesis using loop1 le bnd by (simp add: find_first_def del: of_nat_div of_nat_mod)
qed

lemma bitmap_first_clear_found:
  assumes "bitmap_inv bm" "int i < bm_size bm" "\<not> bm_bit bm i" "\<And>j. j < i \<Longrightarrow> bm_bit bm j"
  shows "bitmap_first_clear bm = Inr (ecSuccess, int i)"
  using find_first_found [OF assms(1) skips_ff assms(2)] assms by (simp add: bitmap_first_clear_def)

lemma bitmap_first_set_found:
  assumes "bitmap_inv bm" "int i < bm_size bm" "bm_bit bm i" "\<And>j. j < i \<Longrightarrow> \<not> bm_bit bm j"
  shows "bitmap_first_set bm = Inr (ecSuccess, int i)"
  using find_first_found [OF assms(1) skips_0 assms(2)] assms by (simp add: bitmap_first_set_def)

text \<open>
  A full bitmap whose last block is partial: its unused bits are clear, so the search stops in
  it and finds nothing.
\<close>

lemma bitmap_first_clear_full:
  assumes inv: "bitmap_inv bm" and full: "\<And>i. int i < bm_size bm \<Longrightarrow> bm_bit bm i"
    and partial: "bm_size bm mod 8 \<noteq> 0"
  shows "bitmap_first_clear bm = Inr (ecNotFound, - 1)"
proof -
  let ?n = "nat (bm_size bm)"
  let ?b = "?n div 8" and ?D = "bm_data bm"
  have part: "?n mod 8 \<noteq> 0"
    using partial bitmap_size_mod [OF inv] by simp
  then have b: "?b < length ?D" and n: "?n < 8 * length ?D"
    using blocks_partial [of ?n] bitmap_inv_length [OF inv] by simp_all
  have all_ff: "?D ! b' = 0xFF" if "b' < ?b" for b'
  proof -
    have "bm_bit bm (b' * 8 + k)" if "k < 8" for k
      using full \<open>b' < ?b\<close> that by simp
    then show ?thesis by (simp add: byte_eq_ff_iff block_bit)
  qed
  have last: "?D ! ?b \<noteq> 0xFF"
  proof -
    have "\<not> bm_bit bm ?n" using inv n by (simp add: bitmap_inv_def)
    then show ?thesis by (auto simp: byte_eq_ff_iff bm_bit_def intro!: exI [of _ "?n mod 8"])
  qed
  have loop1: "find_block ?D (bm_size bm) 0xFF 0 = Inr ?b"
    using all_ff last b block_le_idx [OF inv] by (intro find_block_found) auto
  let ?m = "(bm_size bm - int ?b * 8) mod 2 ^ 32"
  have "?m = int (?n mod 8)"
    using inv by (simp add: bitmap_inv_def zdiv_int zmod_int flip: minus_mult_div_eq_mod)
  then have "find_bit_loop 8 (?D ! ?b) False ?m 0 = None"
    using full inv by (auto simp: find_bit_loop_eq find_None_iff get_bit_iff block_bit bitmap_inv_def)
  then show ?thesis
    using loop1 b block_le_idx [OF inv b]
    by (simp add: bitmap_first_clear_def find_first_def del: of_nat_div)
qed

text \<open>
  When the bits fill their blocks exactly, the search of a full bitmap runs off the array: the
  loop tests the index only after it has read the block.
\<close>

lemma bitmap_first_clear_overrun:
  assumes inv: "bitmap_inv bm" and full: "\<And>i. int i < bm_size bm \<Longrightarrow> bm_bit bm i"
    and whole: "bm_size bm mod 8 = 0"
  shows "bitmap_first_clear bm = Inl OutOfBounds"
proof -
  have n: "nat (bm_size bm) = 8 * length (bm_data bm)"
    using whole bitmap_size_mod [OF inv] blocks_whole bitmap_inv_length [OF inv] by simp
  have "bm_data bm ! b = 0xFF" if "b < length (bm_data bm)" for b
    using full that n inv by (auto simp: byte_eq_ff_iff block_bit bitmap_inv_def)
  then have "find_block (bm_data bm) (bm_size bm) 0xFF 0 = Inl OutOfBounds"
    using block_le_idx [OF inv] by (intro find_block_overrun) auto
  then show ?thesis by (simp add: bitmap_first_clear_def find_first_def)
qed

lemma bitmap_first_set_overrun:
  assumes inv: "bitmap_inv bm" and clear: "\<And>i. int i < bm_size bm \<Longrightarrow> \<not> bm_bit bm i"
  shows "bitmap_first_set bm = Inl OutOfBounds"
proof -
  have "bm_data bm ! b = 0" if "b < length (bm_data bm)" for b
  proof -
    have "\<not> bm_bit bm (b * 8 + k)" if "k < 8" for k
      using clear [of "b * 8 + k"] inv \<open>b < length (bm_data bm)\<close> that
      by (cases "int (b * 8 + k) < bm_size bm") (auto simp: bitmap_inv_def)
    then show ?thesis by (simp add: byte_eq_0_iff block_bit)
  qed
  then have "find_block (bm_data bm) (bm_size bm) 0 0 = Inl OutOfBounds"
    using block_le_idx [OF inv] by (intro find_block_overrun) auto
  then show ?thesis by (simp add: bitmap_first_set_def find_first_def)
qed

subsection \<open>The interface of an allocator\<close>

text \<open>
  Numbered slots that are taken and given back one at a time: the bits of a bitmap, and the pages
  of the disk behind one. \<open>kept b b'\<close>: everything but the slots is as it was.
\<close>

locale slots =
  fixes take_slot :: "int \<Rightarrow> 'b \<Rightarrow> 'b res"
    and give_slot :: "int \<Rightarrow> 'b \<Rightarrow> 'b res"
    and used :: "'b \<Rightarrow> nat \<Rightarrow> bool"
    and nslots :: "'b \<Rightarrow> nat"
    and ok :: "'b \<Rightarrow> bool"
    and kept :: "'b \<Rightarrow> 'b \<Rightarrow> bool"
  assumes take_ok: "ok b \<Longrightarrow> i < nslots b \<Longrightarrow> \<not> used b i \<Longrightarrow>
            \<exists>b'. take_slot (int i) b = Inr b' \<and> ok b' \<and> kept b b' \<and> (\<forall>j. used b' j = (j = i \<or> used b j))"
    and give_ok: "ok b \<Longrightarrow> used b i \<Longrightarrow>
            \<exists>b'. give_slot (int i) b = Inr b' \<and> ok b' \<and> kept b b' \<and> (\<forall>j. used b' j = (j \<noteq> i \<and> used b j))"
    and kept_refl: "kept b b"
    and kept_trans: "kept a b \<Longrightarrow> kept b c \<Longrightarrow> kept a c"
    and kept_slots: "kept b b' \<Longrightarrow> nslots b' = nslots b"
begin

text \<open>The slots \<open>p, \<dots>, p + n - 1\<close>, one after the other.\<close>

lemma take_range:
  assumes inv: "ok b" and fit: "p + n \<le> nslots b" and free: "\<forall>i. p \<le> i \<and> i < p + n \<longrightarrow> \<not> used b i"
  shows "\<exists>b'. for_loop n 0 (\<lambda>k b. take_slot (int p + k) b) b = Inr b' \<and> ok b' \<and> kept b b' \<and>
              (\<forall>j. used b' j = (used b j \<or> p \<le> j \<and> j < p + n))"
proof -
  let ?P = "\<lambda>m s. ok s \<and> kept b s \<and> (\<forall>j. used s j = (used b j \<or> p \<le> j \<and> j < p + m))"
  have "\<exists>s'. take_slot (int p + (0 + int m)) s = Inr s' \<and> ?P (Suc m) s'" if "m < n" "?P m s" for m s
  proof -
    have s: "p + m < nslots s" using that fit kept_slots [of b s] by simp
    have "\<not> used s (p + m)" using that free by auto
    from take_ok [OF _ s this] that obtain s' where s': "take_slot (int (p + m)) s = Inr s'"
      "ok s'" "kept s s'" "\<forall>j. used s' j = (j = p + m \<or> used s j)" by blast
    moreover have "kept b s'" using that s'(3) kept_trans by blast
    ultimately show ?thesis using that by (auto simp: less_Suc_eq)
  qed
  then have "\<exists>s'. for_loop n 0 (\<lambda>k b. take_slot (int p + k) b) b = Inr s' \<and> ?P n s'"
    by (rule for_loop_rule [where P = ?P]) (use inv kept_refl in auto)
  then show ?thesis by blast
qed

lemma give_range:
  assumes inv: "ok b" and live: "\<forall>i. p \<le> i \<and> i < p + n \<longrightarrow> used b i"
  shows "\<exists>b'. for_loop n 0 (\<lambda>k b. give_slot (int p + k) b) b = Inr b' \<and> ok b' \<and> kept b b' \<and>
              (\<forall>j. used b' j = (used b j \<and> \<not> (p \<le> j \<and> j < p + n)))"
proof -
  let ?P = "\<lambda>m s. ok s \<and> kept b s \<and> (\<forall>j. used s j = (used b j \<and> \<not> (p \<le> j \<and> j < p + m)))"
  have "\<exists>s'. give_slot (int p + (0 + int m)) s = Inr s' \<and> ?P (Suc m) s'" if "m < n" "?P m s" for m s
  proof -
    have "used s (p + m)" using that live by auto
    from give_ok [OF _ this] that obtain s' where s': "give_slot (int (p + m)) s = Inr s'"
      "ok s'" "kept s s'" "\<forall>j. used s' j = (j \<noteq> p + m \<and> used s j)" by blast
    moreover have "kept b s'" using that s'(3) kept_trans by blast
    ultimately show ?thesis using that by (auto simp: less_Suc_eq)
  qed
  then have "\<exists>s'. for_loop n 0 (\<lambda>k b. give_slot (int p + k) b) b = Inr s' \<and> ?P n s'"
    by (rule for_loop_rule [where P = ?P]) (use inv kept_refl in auto)
  then show ?thesis by blast
qed

text \<open>What was taken and is given back leaves nothing behind.\<close>

lemma take_give_range:
  assumes "ok b" "p + n \<le> nslots b" "\<forall>i. p \<le> i \<and> i < p + n \<longrightarrow> \<not> used b i"
  shows "\<exists>b1 b2. for_loop n 0 (\<lambda>k b. take_slot (int p + k) b) b = Inr b1 \<and>
           for_loop n 0 (\<lambda>k b. give_slot (int p + k) b) b1 = Inr b2 \<and> ok b2 \<and> used b2 = used b"
proof -
  obtain b1 where b1: "for_loop n 0 (\<lambda>k b. take_slot (int p + k) b) b = Inr b1" "ok b1"
      "\<forall>j. used b1 j = (used b j \<or> p \<le> j \<and> j < p + n)"
    using take_range [OF assms] by blast
  moreover obtain b2 where b2: "for_loop n 0 (\<lambda>k b. give_slot (int p + k) b) b1 = Inr b2" "ok b2"
      "\<forall>j. used b2 j = (used b1 j \<and> \<not> (p \<le> j \<and> j < p + n))"
    using give_range [OF b1(2), of p n] b1(3) by blast
  moreover have "used b2 = used b" by (rule ext) (use assms(3) b1(3) b2(3) in blast)
  ultimately show ?thesis by blast
qed

end

definition bitmap_take :: "int \<Rightarrow> bitmap_t \<Rightarrow> bitmap_t res" where
  "bitmap_take i bm = rbind (bitmap_set bm i) (\<lambda>(_, bm'). Inr bm')"

definition bitmap_give :: "int \<Rightarrow> bitmap_t \<Rightarrow> bitmap_t res" where
  "bitmap_give i bm = rbind (bitmap_clear bm i) (\<lambda>(_, bm'). Inr bm')"

definition bitmap_used :: "bitmap_t \<Rightarrow> nat \<Rightarrow> bool" where
  "bitmap_used bm i \<longleftrightarrow> int i < bm_size bm \<and> bm_bit bm i"

interpretation bs: slots bitmap_take bitmap_give bitmap_used "\<lambda>bm. nat (bm_size bm)" bitmap_inv "\<lambda>a b. bm_size b = bm_size a"
proof unfold_locales
  fix bm i assume inv: "bitmap_inv bm"
  show "\<exists>b'. bitmap_take (int i) bm = Inr b' \<and> bitmap_inv b' \<and> bm_size b' = bm_size bm \<and>
          (\<forall>j. bitmap_used b' j = (j = i \<or> bitmap_used bm j))" if "i < nat (bm_size bm)" "\<not> bitmap_used bm i"
  proof -
    have i: "int i < bm_size bm" using that by simp
    then show ?thesis using bitmap_set_inv [OF inv i] by (auto simp: bitmap_take_def bitmap_used_def)
  qed
  show "\<exists>b'. bitmap_give (int i) bm = Inr b' \<and> bitmap_inv b' \<and> bm_size b' = bm_size bm \<and>
          (\<forall>j. bitmap_used b' j = (j \<noteq> i \<and> bitmap_used bm j))" if "bitmap_used bm i"
  proof -
    have i: "int i < bm_size bm" using that by (simp add: bitmap_used_def)
    then show ?thesis using bitmap_clear_inv [OF inv i] by (auto simp: bitmap_give_def bitmap_used_def)
  qed
qed simp_all

end
