(* ===== verification/Disk.thy ===== *)
theory Disk
  imports Paged Bitmap
begin

text \<open>
  \<^verbatim>\<open>vmsim/disk.c\<close>: the simulated swap disk. Pages are allocated in blocks of
  \<open>d_process_block_size\<close> consecutive pages, one block per process, and an allocation bitmap says
  which pages are in use.
\<close>

record disk_t =
  d_data :: "nat option"
  d_bytes :: "byte list"
  d_npages :: int
  d_page_size :: int
  d_process_block_size :: int
  d_alloc_bitmap :: bitmap_t
  d_lock :: rwlock_t
  d_orig_addr :: "nat option"

definition disk_page_start :: "disk_t \<Rightarrow> int \<Rightarrow> int" where
  "disk_page_start disk page = page * d_page_size disk"

definition is_page_allocated :: "disk_t \<Rightarrow> int \<Rightarrow> bool res" where
  "is_page_allocated disk page =
     (if page \<ge> 0 then bitmap_get (d_alloc_bitmap disk) page else Inr False)"

definition alloc_page :: "int \<Rightarrow> disk_t \<Rightarrow> disk_t res" where
  "alloc_page page disk =
     rbind (is_page_allocated disk page) (\<lambda>a.
     rbind (cassert (\<not> a)) (\<lambda>_.
     rbind (bitmap_set (d_alloc_bitmap disk) page) (\<lambda>(_, bm).
     Inr (disk\<lparr>d_alloc_bitmap := bm\<rparr>))))"

definition free_page :: "int \<Rightarrow> disk_t \<Rightarrow> disk_t res" where
  "free_page page disk =
     rbind (is_page_allocated disk page) (\<lambda>a.
     rbind (cassert a) (\<lambda>_.
     rbind (bitmap_clear (d_alloc_bitmap disk) page) (\<lambda>(_, bm).
     Inr (disk\<lparr>d_alloc_bitmap := bm\<rparr>))))"

primrec enough_loop :: "nat \<Rightarrow> int \<Rightarrow> disk_t \<Rightarrow> bool res" where
  "enough_loop 0 p disk = Inr True"
| "enough_loop (Suc n) p disk =
     rbind (bitmap_get (d_alloc_bitmap disk) p) (\<lambda>b.
       if b then Inr False else enough_loop n (p + 1) disk)"

definition hasEnoughConsecutivePages :: "disk_t \<Rightarrow> int \<Rightarrow> int \<Rightarrow> bool res" where
  "hasEnoughConsecutivePages disk page_idx_start npages =
     (if page_idx_start + npages > d_npages disk then Inr False
      else enough_loop (nat npages) page_idx_start disk)"

text \<open>
  \<open>cal\<close> is what \<^verbatim>\<open>calloc\<close> returned for the pages, \<open>calb\<close> whether it had room for the bitmap:
  \<^verbatim>\<open>disk_init\<close> does not look at the result of \<^verbatim>\<open>bitmap_init\<close>.
\<close>

definition disk_init :: "nat option \<Rightarrow> bool \<Rightarrow> disk_t \<Rightarrow> int \<Rightarrow> int \<Rightarrow> int \<Rightarrow> errcode_t \<times> disk_t" where
  "disk_init cal calb disk npages pagesize blocksize =
     (if cal = None then (ecFail, disk\<lparr>d_data := None, d_bytes := []\<rparr>)
      else (ecSuccess,
        disk\<lparr>d_data := cal, d_bytes := replicate (nat npages * nat pagesize) 0,
             d_orig_addr := cal, d_npages := npages, d_page_size := pagesize,
             d_process_block_size := blocksize,
             d_alloc_bitmap := snd (bitmap_init calb (d_alloc_bitmap disk) npages),
             d_lock := snd (rwlock_init 0)\<rparr>))"

definition disk_get_page :: "disk_t \<Rightarrow> int \<Rightarrow> (errcode_t \<times> byte list option \<times> disk_t) res" where
  "disk_get_page disk page =
     rbind (rd_start (d_lock disk)) (\<lambda>l.
     rbind (cassert (d_data disk \<noteq> None)) (\<lambda>_.
     rbind (cassert (d_orig_addr disk = d_data disk)) (\<lambda>_.
     rbind (cassert (page < d_npages disk)) (\<lambda>_.
     rbind (is_page_allocated disk page) (\<lambda>a.
     if \<not> a then rbind (rd_end l) (\<lambda>l'. Inr (ecFail, None, disk\<lparr>d_lock := l'\<rparr>))
     else
       rbind (mem_read (d_bytes disk) (disk_page_start disk page) (nat (d_page_size disk))) (\<lambda>buf.
       rbind (rd_end l) (\<lambda>l'.
       Inr (ecSuccess, Some buf, disk\<lparr>d_lock := l'\<rparr>))))))))"

definition disk_set_page :: "disk_t \<Rightarrow> int \<Rightarrow> byte list \<Rightarrow> (errcode_t \<times> disk_t) res" where
  "disk_set_page disk page page_data =
     rbind (wr_start (d_lock disk)) (\<lambda>l.
     rbind (cassert (d_data disk \<noteq> None)) (\<lambda>_.
     rbind (cassert (d_orig_addr disk = d_data disk)) (\<lambda>_.
     rbind (cassert (page < d_npages disk)) (\<lambda>_.
     rbind (is_page_allocated disk page) (\<lambda>a.
     if \<not> a then rbind (wr_end l) (\<lambda>l'. Inr (ecFail, disk\<lparr>d_lock := l'\<rparr>))
     else
       rbind (mem_write (d_bytes disk) (disk_page_start disk page) page_data
                (nat (d_page_size disk))) (\<lambda>bs.
       rbind (wr_end l) (\<lambda>l'.
       Inr (ecSuccess, disk\<lparr>d_bytes := bs, d_lock := l'\<rparr>))))))))"

definition disk_alloc_process_block :: "disk_t \<Rightarrow> (errcode_t \<times> int \<times> disk_t) res" where
  "disk_alloc_process_block disk =
     rbind (wr_start (d_lock disk)) (\<lambda>l.
     rbind (cassert (d_data disk \<noteq> None)) (\<lambda>_.
     rbind (bitmap_first_clear (d_alloc_bitmap disk)) (\<lambda>(ec, page).
     if ec \<noteq> ecSuccess then rbind (wr_end l) (\<lambda>l'. Inr (ecFail, page, disk\<lparr>d_lock := l'\<rparr>))
     else
       rbind (hasEnoughConsecutivePages disk page (d_process_block_size disk)) (\<lambda>enough.
       if \<not> enough then rbind (wr_end l) (\<lambda>l'. Inr (ecFail, page, disk\<lparr>d_lock := l'\<rparr>))
       else
         rbind (for_loop (nat (d_process_block_size disk)) 0
                  (\<lambda>pageidx d. alloc_page (page + pageidx) d) disk) (\<lambda>disk1.
         rbind (wr_end l) (\<lambda>l'. Inr (ecSuccess, page, disk1\<lparr>d_lock := l'\<rparr>)))))))"

definition disk_free_process_block :: "disk_t \<Rightarrow> int \<Rightarrow> (errcode_t \<times> disk_t) res" where
  "disk_free_process_block disk page =
     rbind (wr_start (d_lock disk)) (\<lambda>l.
     rbind (cassert (d_data disk \<noteq> None)) (\<lambda>_.
     rbind (for_loop (nat (d_process_block_size disk)) 0
              (\<lambda>pageidx d. free_page (page + pageidx) d) disk) (\<lambda>disk1.
     rbind (wr_end l) (\<lambda>l'. Inr (ecSuccess, disk1\<lparr>d_lock := l'\<rparr>)))))"

definition disk_destroy :: "disk_t \<Rightarrow> disk_t res" where
  "disk_destroy disk =
     rbind (wr_start (d_lock disk)) (\<lambda>l.
     rbind (cassert (d_orig_addr disk = d_data disk)) (\<lambda>_.
     rbind (wr_end l) (\<lambda>l'.
     rbind (rwlock_destroy l') (\<lambda>_.
     Inr (disk\<lparr>d_data := None, d_bytes := [], d_lock := l',
               d_alloc_bitmap := bitmap_destroy (d_alloc_bitmap disk)\<rparr>)))))"

subsection \<open>Well-formed disks\<close>

definition disk_inv :: "disk_t \<Rightarrow> bool" where
  "disk_inv d \<longleftrightarrow> d_data d \<noteq> None \<and> d_orig_addr d = d_data d \<and>
     0 < d_npages d \<and> 0 < d_page_size d \<and> d_npages d * d_page_size d < 2 ^ 31 \<and>
     0 < d_process_block_size d \<and>
     length (d_bytes d) = nat (d_npages d) * nat (d_page_size d) \<and>
     bitmap_inv (d_alloc_bitmap d) \<and> bm_size (d_alloc_bitmap d) = d_npages d \<and> d_lock d = rw_free"

abbreviation disk_pages :: "disk_t \<Rightarrow> nat" where
  "disk_pages d \<equiv> nat (d_npages d)"

abbreviation disk_psize :: "disk_t \<Rightarrow> nat" where
  "disk_psize d \<equiv> nat (d_page_size d)"

abbreviation disk_bsize :: "disk_t \<Rightarrow> nat" where
  "disk_bsize d \<equiv> nat (d_process_block_size d)"

definition disk_page :: "disk_t \<Rightarrow> nat \<Rightarrow> byte list" where
  "disk_page d i = page_at (disk_psize d) (d_bytes d) i"

definition disk_live :: "disk_t \<Rightarrow> nat \<Rightarrow> bool" where
  "disk_live d i \<longleftrightarrow> i < disk_pages d \<and> bm_bit (d_alloc_bitmap d) i"

text \<open>What allocation and the bitmap never change.\<close>

definition same_disk :: "disk_t \<Rightarrow> disk_t \<Rightarrow> bool" where
  "same_disk d d' \<longleftrightarrow> d' = d\<lparr>d_alloc_bitmap := d_alloc_bitmap d'\<rparr>"

lemma disk_inv_size: "disk_inv d \<Longrightarrow> d_npages d = int (disk_pages d)"
  and disk_inv_bytes: "disk_inv d \<Longrightarrow> length (d_bytes d) = disk_pages d * disk_psize d"
  and disk_inv_bsize: "disk_inv d \<Longrightarrow> d_process_block_size d = int (disk_bsize d)"
  by (simp_all add: disk_inv_def)

lemma disk_bm_less: "disk_inv d \<Longrightarrow> int i < bm_size (d_alloc_bitmap d) \<longleftrightarrow> i < disk_pages d"
  by (auto simp: disk_inv_def)

lemma disk_room: "disk_inv d \<Longrightarrow> d_npages d < int p + d_process_block_size d \<longleftrightarrow> disk_pages d < p + disk_bsize d"
  by (auto simp: disk_inv_def)

lemma disk_page_start_int: "disk_inv d \<Longrightarrow> disk_page_start d (int i) = int i * int (disk_psize d)"
  by (simp add: disk_page_start_def disk_inv_def)

lemma is_page_allocated_inv:
  "disk_inv d \<Longrightarrow> i < disk_pages d \<Longrightarrow> is_page_allocated d (int i) = Inr (disk_live d i)"
  using bitmap_get_inv [of "d_alloc_bitmap d" i]
  by (simp add: is_page_allocated_def disk_live_def disk_inv_def)

lemma disk_init_inv:
  assumes "0 < n" "0 < ps" "n * ps < 2 ^ 31" "0 < bs"
  shows "fst (disk_init (Some a) True d n ps bs) = ecSuccess \<and>
         disk_inv (snd (disk_init (Some a) True d n ps bs)) \<and>
         (\<forall>i. \<not> disk_live (snd (disk_init (Some a) True d n ps bs)) i)"
proof -
  have "n * 1 \<le> n * ps" using assms by (intro mult_left_mono) auto
  then have "n < 2 ^ 31" using assms(3) by linarith
  then show ?thesis
    using assms bitmap_init_inv [of n "d_alloc_bitmap d"]
    by (auto simp: disk_init_def disk_inv_def rwlock_init_def disk_live_def)
qed

subsection \<open>Reading and writing pages\<close>

lemma disk_get_page_inv:
  assumes "disk_inv d" "disk_live d i"
  shows "disk_get_page d (int i) = Inr (ecSuccess, Some (disk_page d i), d)"
proof -
  have i: "i < disk_pages d" using assms by (simp add: disk_live_def)
  show ?thesis
    using assms i read_page [OF i disk_inv_bytes [OF assms(1)]] is_page_allocated_inv [OF assms(1) i]
    by (auto simp: disk_get_page_def disk_page_start_int disk_page_def) (simp_all add: disk_inv_def)
qed

lemma disk_set_page_inv:
  assumes inv: "disk_inv d" and live: "disk_live d i" and len: "length buf = disk_psize d"
  shows "\<exists>d'. disk_set_page d (int i) buf = Inr (ecSuccess, d') \<and> disk_inv d' \<and>
           d' = d\<lparr>d_bytes := d_bytes d'\<rparr> \<and>
           (\<forall>j < disk_pages d. disk_page d' j = (if j = i then buf else disk_page d j))"
proof -
  have i: "i < disk_pages d" using live by (simp add: disk_live_def)
  note bytes = disk_inv_bytes [OF inv]
  let ?bs = "overwrite (d_bytes d) (i * disk_psize d) buf"
  have "disk_set_page d (int i) buf = Inr (ecSuccess, d\<lparr>d_bytes := ?bs\<rparr>)"
    using inv live i write_page [OF i bytes len] is_page_allocated_inv [OF inv i]
    by (auto simp: disk_set_page_def disk_page_start_int) (simp_all add: disk_inv_def)
  moreover have "disk_inv (d\<lparr>d_bytes := ?bs\<rparr>)"
    using inv len bytes page_fits [OF i bytes] by (simp add: disk_inv_def)
  moreover have "\<forall>j < disk_pages d. disk_page (d\<lparr>d_bytes := ?bs\<rparr>) j = (if j = i then buf else disk_page d j)"
    using page_at_overwrite_page [OF i _ bytes len] by (simp add: disk_page_def)
  ultimately show ?thesis by auto
qed

lemma disk_refused:
  "disk_inv d \<Longrightarrow> i < disk_pages d \<Longrightarrow> \<not> disk_live d i \<Longrightarrow>
   disk_get_page d (int i) = Inr (ecFail, None, d) \<and> disk_set_page d (int i) buf = Inr (ecFail, d)"
  using is_page_allocated_inv [of d i]
  by (auto simp: disk_get_page_def disk_set_page_def) (simp_all add: disk_inv_def)

lemma disk_outside:
  "disk_inv d \<Longrightarrow> disk_pages d \<le> i \<Longrightarrow>
   disk_get_page d (int i) = Inl AssertFailed \<and> disk_set_page d (int i) buf = Inl AssertFailed"
  by (simp add: disk_inv_def disk_get_page_def disk_set_page_def)

interpretation dp: paged disk_set_page disk_get_page disk_page disk_live disk_pages disk_psize disk_inv
proof unfold_locales
  fix d i buf
  assume inv: "disk_inv d"
  show "disk_live d i \<Longrightarrow> length buf = disk_psize d \<Longrightarrow>
    \<exists>d'. disk_set_page d (int i) buf = Inr (ecSuccess, d') \<and> disk_inv d' \<and>
      disk_live d' = disk_live d \<and> disk_pages d' = disk_pages d \<and> disk_psize d' = disk_psize d \<and>
      (\<forall>j < disk_pages d. disk_page d' j = (if j = i then buf else disk_page d j))"
    using disk_set_page_inv [OF inv, of i buf]
    by (auto simp: disk_live_def fun_eq_iff) (metis disk_t.select_convs disk_t.surjective disk_t.update_convs(2))+
  show "i < disk_pages d \<Longrightarrow> length (disk_page d i) = disk_psize d"
    using disk_inv_bytes [OF inv] by (simp add: disk_page_def)
qed (simp_all add: disk_get_page_inv disk_refused disk_outside disk_live_def)

subsection \<open>Allocating and freeing blocks\<close>

lemma alloc_page_inv:
  assumes inv: "disk_inv d" and i: "i < disk_pages d" and free: "\<not> disk_live d i"
  shows "\<exists>d'. alloc_page (int i) d = Inr d' \<and> disk_inv d' \<and> same_disk d d' \<and>
              (\<forall>j. disk_live d' j = (j = i \<or> disk_live d j))"
proof -
  have bm: "bitmap_inv (d_alloc_bitmap d)" "int i < bm_size (d_alloc_bitmap d)"
    using inv i by (auto simp: disk_inv_def)
  obtain b' where b': "bitmap_set (d_alloc_bitmap d) (int i) = Inr (ecSuccess, b')" "bitmap_inv b'"
      "bm_size b' = bm_size (d_alloc_bitmap d)"
      "\<forall>j. int j < bm_size (d_alloc_bitmap d) \<longrightarrow> bm_bit b' j = (j = i \<or> bm_bit (d_alloc_bitmap d) j)"
    using bitmap_set_inv [OF bm] by blast
  with inv i free show ?thesis
    by (auto simp: alloc_page_def is_page_allocated_inv same_disk_def disk_inv_def disk_live_def)
qed

lemma free_page_inv:
  assumes inv: "disk_inv d" and live: "disk_live d i"
  shows "\<exists>d'. free_page (int i) d = Inr d' \<and> disk_inv d' \<and> same_disk d d' \<and>
              (\<forall>j. disk_live d' j = (j \<noteq> i \<and> disk_live d j))"
proof -
  have i: "i < disk_pages d" using live by (simp add: disk_live_def)
  have bm: "bitmap_inv (d_alloc_bitmap d)" "int i < bm_size (d_alloc_bitmap d)"
    using inv i by (auto simp: disk_inv_def)
  obtain b' where b': "bitmap_clear (d_alloc_bitmap d) (int i) = Inr (ecSuccess, b')" "bitmap_inv b'"
      "bm_size b' = bm_size (d_alloc_bitmap d)"
      "\<forall>j. int j < bm_size (d_alloc_bitmap d) \<longrightarrow> bm_bit b' j = (j \<noteq> i \<and> bm_bit (d_alloc_bitmap d) j)"
    using bitmap_clear_inv [OF bm] by blast
  with inv i live show ?thesis
    by (auto simp: free_page_def is_page_allocated_inv same_disk_def disk_inv_def disk_live_def)
qed

lemma same_disk_refl [simp]: "same_disk d d"
  and same_disk_trans [trans]: "same_disk d d1 \<Longrightarrow> same_disk d1 d2 \<Longrightarrow> same_disk d d2"
  by (simp_all add: same_disk_def) (metis disk_t.update_convs(6) disk_t.surjective)

lemma same_disk_fields:
  assumes "same_disk d d'"
  shows "d_data d' = d_data d" "d_bytes d' = d_bytes d" "d_npages d' = d_npages d"
    "d_page_size d' = d_page_size d" "d_process_block_size d' = d_process_block_size d"
    "d_lock d' = d_lock d" "disk_page d' = disk_page d"
proof -
  obtain b where "d' = d\<lparr>d_alloc_bitmap := b\<rparr>" using assms by (auto simp: same_disk_def)
  then show "d_data d' = d_data d" "d_bytes d' = d_bytes d" "d_npages d' = d_npages d"
    "d_page_size d' = d_page_size d" "d_process_block_size d' = d_process_block_size d"
    "d_lock d' = d_lock d" "disk_page d' = disk_page d" by (simp_all add: disk_page_def fun_eq_iff)
qed

text \<open>The pages of the disk are slots; \<open>ds.take_range\<close> and \<open>ds.give_range\<close> are the loops over a block.\<close>

interpretation ds: slots alloc_page free_page disk_live disk_pages disk_inv same_disk
proof unfold_locales
  show "disk_pages d' = disk_pages d" if "same_disk d d'" for d d' using same_disk_fields(3) [OF that] by simp
qed (blast intro: alloc_page_inv free_page_inv same_disk_refl same_disk_trans)+

lemma enough_loop_eq:
  assumes "disk_inv d" "p + n \<le> disk_pages d"
  shows "enough_loop n (int p) d = Inr (\<forall>i. p \<le> i \<and> i < p + n \<longrightarrow> \<not> disk_live d i)"
  using assms(2)
proof (induction n arbitrary: p)
  case (Suc n)
  have "bitmap_get (d_alloc_bitmap d) (int p) = Inr (disk_live d p)"
    using is_page_allocated_inv [OF assms(1), of p] Suc.prems by (simp add: is_page_allocated_def)
  moreover have "enough_loop n (int p + 1) d = Inr (\<forall>i. Suc p \<le> i \<and> i < Suc p + n \<longrightarrow> \<not> disk_live d i)"
    using Suc.IH [of "Suc p"] Suc.prems by (simp add: add.commute)
  moreover have "(\<forall>i. p \<le> i \<and> i < p + Suc n \<longrightarrow> \<not> disk_live d i) \<longleftrightarrow>
      \<not> disk_live d p \<and> (\<forall>i. Suc p \<le> i \<and> i < Suc p + n \<longrightarrow> \<not> disk_live d i)"
    by (auto simp: Suc_le_eq) (metis add_Suc le_neq_implies_less add_Suc_right)
  ultimately show ?case by simp
qed auto

lemma hasEnough_eq:
  assumes "disk_inv d"
  shows "hasEnoughConsecutivePages d (int p) (d_process_block_size d) =
     Inr (p + disk_bsize d \<le> disk_pages d \<and> (\<forall>i. p \<le> i \<and> i < p + disk_bsize d \<longrightarrow> \<not> disk_live d i))"
proof (cases "disk_pages d < p + disk_bsize d")
  case True
  then show ?thesis by (simp add: hasEnoughConsecutivePages_def disk_room [OF assms])
next
  case False
  then show ?thesis
    using enough_loop_eq [OF assms, of p "disk_bsize d"]
    by (simp add: hasEnoughConsecutivePages_def disk_room [OF assms] del: nat_add_distrib)
qed

subsection \<open>Blocks\<close>

text \<open>
  The pages in use are whole blocks: block \<open>k\<close> is the pages from \<open>k * disk_bsize d\<close> on. The pages
  behind the last whole block are never used. \<open>disk_blocks d K\<close>: \<open>K\<close> is the set of blocks in use.
\<close>

definition disk_nblocks :: "disk_t \<Rightarrow> nat" where
  "disk_nblocks d = disk_pages d div disk_bsize d"

definition disk_blocks :: "disk_t \<Rightarrow> nat set \<Rightarrow> bool" where
  "disk_blocks d K \<longleftrightarrow> K \<subseteq> {..<disk_nblocks d} \<and>
     (\<forall>i < disk_pages d. disk_live d i \<longleftrightarrow> i div disk_bsize d \<in> K)"

lemma block_range: "0 < (b::nat) \<Longrightarrow> i div b = k \<longleftrightarrow> k * b \<le> i \<and> i < k * b + b"
  by (metis add.commute div_nat_eqI div_times_less_eq_dividend dividend_less_times_div mult.commute mult_Suc)

lemma block_fits:
  assumes "disk_inv d" "k < disk_nblocks d"
  shows "k * disk_bsize d + disk_bsize d \<le> disk_pages d"
proof -
  have "Suc k * disk_bsize d \<le> disk_nblocks d * disk_bsize d" using assms(2) by (intro mult_le_mono1) simp
  also have "\<dots> \<le> disk_pages d" by (simp add: disk_nblocks_def)
  finally show ?thesis by (simp add: add.commute)
qed

text \<open>The first free page is the start of the first free block.\<close>

lemma first_free_page:
  assumes inv: "disk_inv d" and blk: "disk_blocks d K"
    and k: "k < disk_nblocks d" "k \<notin> K" "\<And>j. j < k \<Longrightarrow> j \<in> K"
  shows "bitmap_first_clear (d_alloc_bitmap d) = Inr (ecSuccess, int (k * disk_bsize d))"
proof (rule bitmap_first_clear_found)
  have b: "0 < disk_bsize d" using inv by (simp add: disk_inv_def)
  have fit: "k * disk_bsize d < disk_pages d" using block_fits [OF inv k(1)] b by linarith
  show "bitmap_inv (d_alloc_bitmap d)" using inv by (simp add: disk_inv_def)
  show "int (k * disk_bsize d) < bm_size (d_alloc_bitmap d)"
    using fit by (simp only: disk_bm_less [OF inv])
  show "\<not> bm_bit (d_alloc_bitmap d) (k * disk_bsize d)"
    using blk k(2) fit b by (auto simp: disk_blocks_def disk_live_def)
  fix j assume j: "j < k * disk_bsize d"
  then have "j div disk_bsize d < k" using less_mult_imp_div_less by blast
  then show "bm_bit (d_alloc_bitmap d) j"
    using blk k(3) j fit by (auto simp: disk_blocks_def disk_live_def)
qed

lemma disk_alloc_found:
  assumes inv: "disk_inv d" and blk: "disk_blocks d K"
    and k: "k < disk_nblocks d" "k \<notin> K" "\<And>j. j < k \<Longrightarrow> j \<in> K"
  shows "\<exists>d'. disk_alloc_process_block d = Inr (ecSuccess, int (k * disk_bsize d), d') \<and> disk_inv d' \<and>
              same_disk d d' \<and> disk_blocks d' (insert k K)"
proof -
  let ?b = "disk_bsize d" let ?p = "k * ?b"
  have b: "0 < ?b" using inv by (simp add: disk_inv_def)
  note fit = block_fits [OF inv k(1)]
  have free: "\<forall>i. ?p \<le> i \<and> i < ?p + ?b \<longrightarrow> \<not> disk_live d i"
  proof (intro allI impI)
    fix i assume i: "?p \<le> i \<and> i < ?p + ?b"
    then have "i div ?b = k" "i < disk_pages d" using block_range [OF b] fit by auto
    then show "\<not> disk_live d i" using blk k(2) by (auto simp: disk_blocks_def)
  qed
  obtain d' where d': "for_loop ?b 0 (\<lambda>k d. alloc_page (int ?p + k) d) d = Inr d'" "disk_inv d'"
      "same_disk d d'" "\<forall>j. disk_live d' j = (disk_live d j \<or> ?p \<le> j \<and> j < ?p + ?b)"
    using ds.take_range [OF inv fit free] by blast
  have lk: "d_lock d = rw_free" "d_data d \<noteq> None" "d_lock d' = rw_free"
    using inv d'(2) by (simp_all add: disk_inv_def)
  have "disk_alloc_process_block d = Inr (ecSuccess, int ?p, d'\<lparr>d_lock := rw_free\<rparr>)"
    using first_free_page [OF inv blk k] hasEnough_eq [OF inv, of ?p] fit free d'(1) lk
    by (simp add: disk_alloc_process_block_def del: of_nat_mult)
  moreover have "d'\<lparr>d_lock := rw_free\<rparr> = d'" using lk(3) by simp
  moreover have "disk_blocks d' (insert k K)"
    using blk k(1) d'(4) same_disk_fields(3,5) [OF d'(3)] block_range [OF b, of _ k]
    by (auto simp: disk_blocks_def disk_nblocks_def)
  ultimately show ?thesis using d' by metis
qed

lemma disk_free_found:
  assumes inv: "disk_inv d" and blk: "disk_blocks d K" and k: "k \<in> K"
  shows "\<exists>d'. disk_free_process_block d (int (k * disk_bsize d)) = Inr (ecSuccess, d') \<and> disk_inv d' \<and>
              same_disk d d' \<and> disk_blocks d' (K - {k})"
proof -
  let ?b = "disk_bsize d" let ?p = "k * ?b"
  have b: "0 < ?b" using inv by (simp add: disk_inv_def)
  have "k < disk_nblocks d" using blk k by (auto simp: disk_blocks_def)
  note fit = block_fits [OF inv this]
  have live: "\<forall>i. ?p \<le> i \<and> i < ?p + ?b \<longrightarrow> disk_live d i"
  proof (intro allI impI)
    fix i assume i: "?p \<le> i \<and> i < ?p + ?b"
    then have "i div ?b = k" "i < disk_pages d" using block_range [OF b] fit by auto
    then show "disk_live d i" using blk k by (auto simp: disk_blocks_def)
  qed
  obtain d' where d': "for_loop ?b 0 (\<lambda>k d. free_page (int ?p + k) d) d = Inr d'" "disk_inv d'"
      "same_disk d d'" "\<forall>j. disk_live d' j = (disk_live d j \<and> \<not> (?p \<le> j \<and> j < ?p + ?b))"
    using ds.give_range [OF inv live] by blast
  have lk: "d_lock d = rw_free" "d_data d \<noteq> None" "d_lock d' = rw_free"
    using inv d'(2) by (simp_all add: disk_inv_def)
  have "disk_free_process_block d (int ?p) = Inr (ecSuccess, d'\<lparr>d_lock := rw_free\<rparr>)"
    using d'(1) lk by (simp add: disk_free_process_block_def del: of_nat_mult)
  moreover have "d'\<lparr>d_lock := rw_free\<rparr> = d'" using lk(3) by simp
  moreover have "disk_blocks d' (K - {k})"
    using blk d'(4) same_disk_fields(3,5) [OF d'(3)] block_range [OF b, of _ k]
    by (auto simp: disk_blocks_def disk_nblocks_def)
  ultimately show ?thesis using d' by metis
qed

text \<open>With every block in use, the pages behind the last block decide how the search ends.\<close>

lemma disk_alloc_leftover:
  assumes inv: "disk_inv d" and blk: "disk_blocks d {..<disk_nblocks d}"
    and left: "disk_pages d mod disk_bsize d \<noteq> 0"
  shows "\<exists>p. disk_alloc_process_block d = Inr (ecFail, p, d)"
proof -
  let ?b = "disk_bsize d" let ?p = "disk_nblocks d * ?b"
  have b: "0 < ?b" using inv by (simp add: disk_inv_def)
  have eq: "?p + disk_pages d mod ?b = disk_pages d" by (simp add: disk_nblocks_def)
  have "disk_pages d mod ?b < ?b" using b by simp
  then have p: "?p < disk_pages d" "disk_pages d < ?p + ?b" using left eq by linarith+
  have "bitmap_first_clear (d_alloc_bitmap d) = Inr (ecSuccess, int ?p)"
  proof (rule bitmap_first_clear_found)
    show "bitmap_inv (d_alloc_bitmap d)" using inv by (simp add: disk_inv_def)
    show "int ?p < bm_size (d_alloc_bitmap d)" using p by (simp only: disk_bm_less [OF inv])
    show "\<not> bm_bit (d_alloc_bitmap d) ?p"
      using blk p b by (auto simp: disk_blocks_def disk_live_def)
    fix j assume j: "j < ?p"
    then show "bm_bit (d_alloc_bitmap d) j"
      using blk p less_mult_imp_div_less by (auto simp: disk_blocks_def disk_live_def)
  qed
  then show ?thesis
    using hasEnough_eq [OF inv, of ?p] p inv
    by (simp add: disk_alloc_process_block_def disk_inv_def del: of_nat_mult)
qed

lemma disk_all_live:
  assumes inv: "disk_inv d" and blk: "disk_blocks d {..<disk_nblocks d}"
    and whole: "disk_pages d mod disk_bsize d = 0" and i: "int i < bm_size (d_alloc_bitmap d)"
  shows "bm_bit (d_alloc_bitmap d) i"
proof -
  have "disk_nblocks d * disk_bsize d = disk_pages d" using whole div_mult_mod_eq [of "disk_pages d" "disk_bsize d"] by (simp add: disk_nblocks_def)
  moreover have "i < disk_pages d" using i by (simp only: disk_bm_less [OF inv])
  ultimately show ?thesis
    using blk less_mult_imp_div_less by (auto simp: disk_blocks_def disk_live_def)
qed

lemma disk_alloc_full:
  assumes "disk_inv d" "disk_blocks d {..<disk_nblocks d}" "disk_pages d mod disk_bsize d = 0"
    and "d_npages d mod 8 \<noteq> 0"
  shows "disk_alloc_process_block d = Inr (ecFail, - 1, d)"
proof -
  have "bitmap_first_clear (d_alloc_bitmap d) = Inr (ecNotFound, - 1)"
    using disk_all_live [OF assms(1-3)] assms(1,4)
    by (intro bitmap_first_clear_full) (auto simp: disk_inv_def)
  then show ?thesis using assms(1) by (simp add: disk_alloc_process_block_def disk_inv_def)
qed

lemma disk_alloc_overrun:
  assumes "disk_inv d" "disk_blocks d {..<disk_nblocks d}" "disk_pages d mod disk_bsize d = 0"
    and "d_npages d mod 8 = 0"
  shows "disk_alloc_process_block d = Inl OutOfBounds"
proof -
  have "bitmap_first_clear (d_alloc_bitmap d) = Inl OutOfBounds"
    using disk_all_live [OF assms(1-3)] assms(1,4)
    by (intro bitmap_first_clear_overrun) (auto simp: disk_inv_def)
  then show ?thesis using assms(1) by (simp add: disk_alloc_process_block_def disk_inv_def)
qed

end
