(* ===== verification/Mmu_Core.thy ===== *)
theory Mmu_Core
  imports Ipt_Map Assoc_Map Main_Memory Disk
begin

text \<open>
  \<^verbatim>\<open>vmsim/mmu.c\<close> without the operations that fault pages in: the state of the MMU, mapping and
  allocating pages, and copying a page between its frame and its disk page. The memory and the
  disk that \<^verbatim>\<open>mmu_t\<close> points to belong to it alone and are fields of the model's record.
\<close>

subsection \<open>State\<close>

text \<open>
  The two counters are \<^verbatim>\<open>int\<close>; the model lets them grow beyond \<open>2 ^ 31\<close>, which the code would only
  reach after as many references.
\<close>

record mmu_stats_t =
  st_nrefs :: int
  st_hits :: int

record mmu_t =
  mmu_mem :: mm_t
  mmu_disk :: disk_t
  mmu_mem_ipt :: ipt_t
  mmu_disk_map :: "(virt_addr_t, int) map_t"
  mmu_aging_freq :: u32
  mmu_stats :: mmu_stats_t
  mmu_stats_lock :: rwlock_t
  mmu_lock :: rwlock_t

definition disk_map_comparator :: "virt_addr_t \<Rightarrow> virt_addr_t \<Rightarrow> bool" where
  "disk_map_comparator k1 k2 = (\<not> virt_addr_page_eq k1 k2)"

text \<open>
  \<open>cal\<close>, \<open>calh\<close>, \<open>oom\<close> and \<open>rc\<close> answer the requests that \<^verbatim>\<open>ipt_init\<close> makes of the system. The sizes
  given to \<^verbatim>\<open>map_init\<close> are those of the two C types.
\<close>

definition mmu_init :: "bool \<Rightarrow> bool \<Rightarrow> (nat \<Rightarrow> bool) \<Rightarrow> int \<Rightarrow> mmu_t \<Rightarrow> mm_t \<Rightarrow> disk_t \<Rightarrow> int \<Rightarrow>
    (errcode_t \<times> mmu_t) res" where
  "mmu_init cal calh oom rc mmu mem disk freq =
     rbind (ipt_init cal calh oom rc (mmu_mem_ipt mmu) (mm_npages mem)) (\<lambda>(ec, ipt).
     let mmu1 = mmu\<lparr>mmu_mem_ipt := ipt\<rparr>
     in if ec \<noteq> ecSuccess then Inr (ec, mmu1)
        else
          let (ec2, dm) = map_init 12 4 disk_map_comparator;
              mmu2 = mmu1\<lparr>mmu_disk_map := dm\<rparr>
          in if ec2 \<noteq> ecSuccess then Inr (ec2, mmu2)
             else Inr (ecSuccess,
               mmu2\<lparr>mmu_lock := snd (rwlock_init 0), mmu_stats_lock := snd (rwlock_init 0),
                    mmu_mem := mem, mmu_disk := disk, mmu_aging_freq := word_of_int freq,
                    mmu_stats := \<lparr>st_nrefs = 0, st_hits = 0\<rparr>\<rparr>))"

definition mmu_acquire_read :: "mmu_t \<Rightarrow> mmu_t res" where
  "mmu_acquire_read mmu = rbind (rd_start (mmu_lock mmu)) (\<lambda>l. Inr (mmu\<lparr>mmu_lock := l\<rparr>))"

definition mmu_acquire_write :: "mmu_t \<Rightarrow> mmu_t res" where
  "mmu_acquire_write mmu = rbind (wr_start (mmu_lock mmu)) (\<lambda>l. Inr (mmu\<lparr>mmu_lock := l\<rparr>))"

definition mmu_release_read :: "mmu_t \<Rightarrow> mmu_t res" where
  "mmu_release_read mmu = rbind (rd_end (mmu_lock mmu)) (\<lambda>l. Inr (mmu\<lparr>mmu_lock := l\<rparr>))"

definition mmu_release_write :: "mmu_t \<Rightarrow> mmu_t res" where
  "mmu_release_write mmu = rbind (wr_end (mmu_lock mmu)) (\<lambda>l. Inr (mmu\<lparr>mmu_lock := l\<rparr>))"

subsection \<open>Mapping and allocating\<close>

definition mmu_map_page :: "mmu_t \<Rightarrow> virt_addr_t \<Rightarrow> (errcode_t \<times> mmu_t) res" where
  "mmu_map_page mmu addr =
     rbind (ipt_has_translation (mmu_mem_ipt mmu) addr) (\<lambda>b.
     rbind (cassert (\<not> b)) (\<lambda>_.
     rbind (ipt_add (mmu_mem_ipt mmu) addr) (\<lambda>(ec, ipt).
     Inr (ec, mmu\<lparr>mmu_mem_ipt := ipt\<rparr>))))"

definition mmu_unmap_page :: "mmu_t \<Rightarrow> virt_addr_t \<Rightarrow> (errcode_t \<times> mmu_t) res" where
  "mmu_unmap_page mmu page =
     rbind (ipt_remove (mmu_mem_ipt mmu) page) (\<lambda>(ec, ipt).
     rbind (cassert (ec \<noteq> ecFail)) (\<lambda>_. Inr (ec, mmu\<lparr>mmu_mem_ipt := ipt\<rparr>)))"

definition mmu_alloc_page :: "mmu_t \<Rightarrow> virt_addr_t \<Rightarrow> int \<Rightarrow> (errcode_t \<times> mmu_t) res" where
  "mmu_alloc_page mmu addr backing_page =
     rbind (mmu_acquire_write mmu) (\<lambda>mmu1.
     rbind (mmu_map_page mmu1 addr) (\<lambda>(_, mmu2).
     rbind (map_get (mmu_disk_map mmu2) addr False) (\<lambda>(ec, _).
     rbind (cassert (ec = ecNotFound)) (\<lambda>_.
     rbind (map_set (mmu_disk_map mmu2) addr backing_page) (\<lambda>(ec, dm).
     rbind (cassert (ec = ecSuccess)) (\<lambda>_.
     rbind (mmu_release_write (mmu2\<lparr>mmu_disk_map := dm\<rparr>)) (\<lambda>mmu3.
     Inr (ec, mmu3))))))))"

definition mmu_free_page :: "mmu_t \<Rightarrow> virt_addr_t \<Rightarrow> (errcode_t \<times> mmu_t) res" where
  "mmu_free_page mmu page =
     rbind (mmu_acquire_write mmu) (\<lambda>mmu1.
     rbind (map_get (mmu_disk_map mmu1) page False) (\<lambda>(ec, _).
     rbind (cassert (ec \<noteq> ecNotFound)) (\<lambda>_.
     rbind (mmu_unmap_page mmu1 page) (\<lambda>(_, mmu2).
     rbind (map_remove (mmu_disk_map mmu2) page) (\<lambda>(_, dm).
     rbind (mmu_release_write (mmu2\<lparr>mmu_disk_map := dm\<rparr>)) (\<lambda>mmu3.
     Inr (ecSuccess, mmu3)))))))"

text \<open>
  The local \<^verbatim>\<open>cur_vaddr\<close> of the two loops gets its process and its page; its offset stays
  indeterminate and is the argument \<open>off\<close>.
\<close>

primrec alloc_loop :: "nat \<Rightarrow> virt_addr_t \<Rightarrow> int \<Rightarrow> mmu_t \<Rightarrow> (errcode_t \<times> mmu_t) res" where
  "alloc_loop 0 cur dpage mmu = Inr (ecSuccess, mmu)"
| "alloc_loop (Suc n) cur dpage mmu =
     rbind (mmu_alloc_page mmu cur dpage) (\<lambda>(ec, mmu1).
     if ec \<noteq> ecSuccess then Inr (ec, mmu1)
     else alloc_loop n (cur\<lparr>va_page := va_page cur + 1\<rparr>) (dpage + 1) mmu1)"

definition mmu_alloc_multiple :: "u32 \<Rightarrow> mmu_t \<Rightarrow> virt_addr_t \<Rightarrow> int \<Rightarrow> int \<Rightarrow> (errcode_t \<times> mmu_t) res" where
  "mmu_alloc_multiple off mmu first_addr npages first_backing_page =
     alloc_loop (nat npages) \<lparr>va_pid = va_pid first_addr, va_page = va_page first_addr, va_offset = off\<rparr>
       first_backing_page mmu"

primrec free_loop :: "nat \<Rightarrow> virt_addr_t \<Rightarrow> mmu_t \<Rightarrow> (errcode_t \<times> mmu_t) res" where
  "free_loop 0 cur mmu = Inr (ecSuccess, mmu)"
| "free_loop (Suc n) cur mmu =
     rbind (mmu_free_page mmu cur) (\<lambda>(ec, mmu1).
     if ec \<noteq> ecSuccess then Inr (ec, mmu1)
     else free_loop n (cur\<lparr>va_page := va_page cur + 1\<rparr>) mmu1)"

definition mmu_free_multiple :: "u32 \<Rightarrow> mmu_t \<Rightarrow> virt_addr_t \<Rightarrow> int \<Rightarrow> (errcode_t \<times> mmu_t) res" where
  "mmu_free_multiple off mmu first_addr npages =
     free_loop (nat npages) \<lparr>va_pid = va_pid first_addr, va_page = va_page first_addr, va_offset = off\<rparr> mmu"

subsection \<open>Copying between a frame and its disk page\<close>

text \<open>
  \<^verbatim>\<open>MM_DATA(mem) + MM_PAGE_SIZE(mem) * mem_page\<close>: the product of an \<^verbatim>\<open>int\<close> and an \<^verbatim>\<open>unsigned\<close>
  is \<^verbatim>\<open>unsigned\<close>.
\<close>

definition frame_addr :: "mm_t \<Rightarrow> phys_addr_t \<Rightarrow> int" where
  "frame_addr mem mem_page = uint (word_of_int (mm_page_size mem) * mem_page)"

definition mmu_sync_to_backing_page :: "mmu_t \<Rightarrow> virt_addr_t \<Rightarrow> (errcode_t \<times> mmu_t) res" where
  "mmu_sync_to_backing_page mmu page =
     rbind (ipt_is_dirty (mmu_mem_ipt mmu) page) (\<lambda>dirty.
     if \<not> dirty then Inr (ecSuccess, mmu)
     else
       rbind (ipt_translate (mmu_mem_ipt mmu) page) (\<lambda>(_, mem_page).
       rbind (map_get (mmu_disk_map mmu) page True) (\<lambda>(ec, dpage).
       rbind (cassert (ec \<noteq> ecNotFound)) (\<lambda>_.
       if ec \<noteq> ecSuccess then Inr (ecFail, mmu)
       else (case dpage of None \<Rightarrow> Inr (ecFail, mmu) | Some dp \<Rightarrow>
         rbind (mem_read (mm_bytes (mmu_mem mmu)) (frame_addr (mmu_mem mmu) mem_page)
                  (nat (d_page_size (mmu_disk mmu)))) (\<lambda>page_data.
         rbind (disk_set_page (mmu_disk mmu) dp page_data) (\<lambda>(ec, d).
         Inr (ec, mmu\<lparr>mmu_disk := d\<rparr>))))))))"

definition mmu_sync_from_backing_page :: "mmu_t \<Rightarrow> virt_addr_t \<Rightarrow> (errcode_t \<times> mmu_t) res" where
  "mmu_sync_from_backing_page mmu page =
     rbind (ipt_translate (mmu_mem_ipt mmu) page) (\<lambda>(ec, mem_page).
     rbind (cassert (ec \<noteq> ecNotFound)) (\<lambda>_.
     if ec \<noteq> ecSuccess then Inr (ecFail, mmu)
     else
       rbind (map_get (mmu_disk_map mmu) page True) (\<lambda>(ec, dpage).
       rbind (cassert (ec \<noteq> ecNotFound)) (\<lambda>_.
       if ec \<noteq> ecSuccess then Inr (ecFail, mmu)
       else (case dpage of None \<Rightarrow> Inr (ecFail, mmu) | Some dp \<Rightarrow>
         rbind (disk_get_page (mmu_disk mmu) dp) (\<lambda>(ec, buf, d).
         case buf of None \<Rightarrow> Inr (ec, mmu\<lparr>mmu_disk := d\<rparr>)
         | Some b \<Rightarrow>
           rbind (mem_write (mm_bytes (mmu_mem mmu)) (frame_addr (mmu_mem mmu) mem_page) b (length b)) (\<lambda>bs.
           Inr (ec, mmu\<lparr>mmu_disk := d, mmu_mem := (mmu_mem mmu)\<lparr>mm_bytes := bs\<rparr>\<rparr>))))))))"

subsection \<open>The rest\<close>

definition mmu_for_each_mem_page ::
  "mmu_t \<Rightarrow> (phys_addr_t \<Rightarrow> page_data_t \<Rightarrow> 's \<Rightarrow> page_data_t \<times> 's) \<Rightarrow> 's \<Rightarrow> (errcode_t \<times> mmu_t \<times> 's) res" where
  "mmu_for_each_mem_page mmu func s =
     rbind (ipt_for_each_entry (mmu_mem_ipt mmu) func s) (\<lambda>(ec, ipt, s').
     Inr (ec, mmu\<lparr>mmu_mem_ipt := ipt\<rparr>, s'))"

definition mmu_get_stats :: "mmu_t \<Rightarrow> (mmu_stats_t \<times> mmu_t) res" where
  "mmu_get_stats mmu =
     rbind (rd_start (mmu_stats_lock mmu)) (\<lambda>l.
     rbind (rd_end l) (\<lambda>l'. Inr (mmu_stats mmu, mmu\<lparr>mmu_stats_lock := l'\<rparr>)))"

definition mmu_destroy :: "mmu_t \<Rightarrow> mmu_t res" where
  "mmu_destroy mmu =
     rbind (ipt_destroy (mmu_mem_ipt mmu)) (\<lambda>_.
     rbind (map_destroy (mmu_disk_map mmu)) (\<lambda>dm.
     rbind (rwlock_destroy (mmu_lock mmu)) (\<lambda>_.
     rbind (rwlock_destroy (mmu_stats_lock mmu)) (\<lambda>_.
     Inr (mmu\<lparr>mmu_disk_map := dm\<rparr>)))))"

end
