(* ===== verification/Prm.thy ===== *)
theory Prm
  imports Mmu_Core
begin

text \<open>
  \<^verbatim>\<open>vmsim/prm.c\<close>: the page replacement manager. Clients push commands into a queue and wait; the
  manager's thread pops one command, maps its page, swapping another page out when no frame is
  free, and loads the page from the disk.
\<close>

subsection \<open>State\<close>

record prm_command_t =
  cmd_addr :: virt_addr_t
  cmd_done :: bool

text \<open>The file-level variables of the search for the oldest page.\<close>

record oldest_t =
  oldest_page_idx :: int
  oldest_page_vaddr :: virt_addr_t
  oldest_page_age :: u32
  swap_target :: virt_addr_t
  cur_idx :: int

text \<open>
  Commands live on the heap: \<open>prm_cmds\<close> holds them by address, \<open>prm_oom k\<close> says whether the request
  for address \<open>k\<close> fails. The queue holds their addresses.
\<close>

record prm_t =
  prm_queue :: "nat queue_t"
  prm_cmds :: "nat \<rightharpoonup> prm_command_t"
  prm_brk :: nat
  prm_oom :: "nat \<Rightarrow> bool"
  prm_mutex :: bool
  prm_queue_mutex :: bool
  prm_running :: bool
  prm_stop :: bool
  prm_oldest :: oldest_t

definition new_prm_command :: "prm_t \<Rightarrow> virt_addr_t \<Rightarrow> (nat \<times> prm_t) res" where
  "new_prm_command p addr =
     (if prm_oom p (prm_brk p) then Inl NullDeref
      else Inr (prm_brk p, p\<lparr>prm_cmds := (prm_cmds p)(prm_brk p \<mapsto> \<lparr>cmd_addr = addr, cmd_done = False\<rparr>),
                             prm_brk := Suc (prm_brk p)\<rparr>))"

definition cmd_load :: "prm_t \<Rightarrow> nat \<Rightarrow> prm_command_t res" where
  "cmd_load p c = (case prm_cmds p c of None \<Rightarrow> Inl NullDeref | Some cmd \<Rightarrow> Inr cmd)"

definition delete_prm_command :: "prm_t \<Rightarrow> nat \<Rightarrow> prm_t res" where
  "delete_prm_command p c =
     rbind (cmd_load p c) (\<lambda>_. Inr (p\<lparr>prm_cmds := (prm_cmds p)(c := None)\<rparr>))"

subsection \<open>Choosing a page\<close>

definition get_oldest_page :: "phys_addr_t \<Rightarrow> page_data_t \<Rightarrow> oldest_t \<Rightarrow> page_data_t \<times> oldest_t" where
  "get_oldest_page mem_page page s =
     (let age = pd_page_age page;
          s1 = (if oldest_page_idx s = - 1 then s\<lparr>cur_idx := 0\<rparr> else s)
      in (page,
          if (age < oldest_page_age s1 \<or> oldest_page_idx s1 = - 1) \<and>
             \<not> virt_addr_page_eq (swap_target s1) (pd_addr page)
          then s1\<lparr>oldest_page_idx := cur_idx s1, oldest_page_age := age, oldest_page_vaddr := pd_addr page\<rparr>
          else s1))"

definition get_page_to_swap :: "mmu_t \<Rightarrow> oldest_t \<Rightarrow> virt_addr_t \<Rightarrow> (virt_addr_t \<times> mmu_t \<times> oldest_t) res" where
  "get_page_to_swap mmu s page_to_load =
     rbind (mmu_for_each_mem_page mmu get_oldest_page
              (s\<lparr>oldest_page_idx := - 1, swap_target := page_to_load\<rparr>)) (\<lambda>(_, mmu1, s1).
     rbind (cassert (\<not> virt_addr_page_eq page_to_load (oldest_page_vaddr s1))) (\<lambda>_.
     Inr (oldest_page_vaddr s1, mmu1, s1)))"

definition prm_swap_out :: "mmu_t \<Rightarrow> virt_addr_t \<Rightarrow> mmu_t res" where
  "prm_swap_out mmu page =
     rbind (mmu_sync_to_backing_page mmu page) (\<lambda>(ec, mmu1).
     rbind (cassert (ec = ecSuccess)) (\<lambda>_.
     rbind (mmu_unmap_page mmu1 page) (\<lambda>(ec, mmu2).
     rbind (cassert (ec = ecSuccess)) (\<lambda>_. Inr mmu2))))"

subsection \<open>The thread\<close>

definition push_command :: "prm_t \<Rightarrow> nat \<Rightarrow> prm_t res" where
  "push_command p c =
     rbind (pthread_mutex_lock (prm_queue_mutex p)) (\<lambda>(_, m).
     rbind (queue_push (prm_queue p) c) (\<lambda>(_, q).
     rbind (pthread_mutex_unlock m) (\<lambda>(_, m').
     Inr (p\<lparr>prm_queue := q, prm_queue_mutex := m'\<rparr>))))"

text \<open>
  The loop that swaps pages out until the page is mapped, with the translation that follows every
  attempt (its result is only printed, its assertion is not). Each round maps the page or fails
  for ever: two rounds cover the body and the test that ends it.
\<close>

primrec swap_loop :: "nat \<Rightarrow> mmu_t \<Rightarrow> oldest_t \<Rightarrow> virt_addr_t \<Rightarrow> errcode_t \<Rightarrow> (mmu_t \<times> oldest_t) res" where
  "swap_loop 0 mmu s addr ec = Inl Diverges"
| "swap_loop (Suc k) mmu s addr ec =
     (if ec = ecSuccess then Inr (mmu, s)
      else
        rbind (get_page_to_swap mmu s addr) (\<lambda>(vaddr_to_swap, mmu1, s1).
        rbind (prm_swap_out mmu1 vaddr_to_swap) (\<lambda>mmu2.
        rbind (mmu_map_page mmu2 addr) (\<lambda>(ec1, mmu3).
        rbind (ipt_translate (mmu_mem_ipt mmu3) addr) (\<lambda>_.
        swap_loop k mmu3 s1 addr ec1)))))"

text \<open>What the thread does for one command, between taking and releasing the lock of the MMU.\<close>

definition prm_serve :: "mmu_t \<Rightarrow> oldest_t \<Rightarrow> virt_addr_t \<Rightarrow> (mmu_t \<times> oldest_t) res" where
  "prm_serve mmu s addr =
     rbind (mmu_acquire_write mmu) (\<lambda>mmu1.
     rbind (mmu_map_page mmu1 addr) (\<lambda>(ec, mmu2).
     rbind (swap_loop 2 mmu2 s addr ec) (\<lambda>(mmu3, s1).
     rbind (mmu_sync_from_backing_page mmu3 addr) (\<lambda>(_, mmu4).
     rbind (mmu_release_write mmu4) (\<lambda>mmu5. Inr (mmu5, s1))))))"

text \<open>
  One call of the thread's function. With an empty queue it returns if it is told to stop;
  otherwise it waits for a command that only another thread can push.
\<close>

definition prm_thread_func :: "mmu_t \<Rightarrow> prm_t \<Rightarrow> (bool \<times> mmu_t \<times> prm_t) res" where
  "prm_thread_func mmu p =
     rbind (pthread_mutex_lock (prm_queue_mutex p)) (\<lambda>(_, m).
     rbind (queue_pop (prm_queue p)) (\<lambda>(cmd, q).
     rbind (pthread_mutex_unlock m) (\<lambda>(_, m').
     let p1 = p\<lparr>prm_queue := q, prm_queue_mutex := m'\<rparr>
     in case cmd of
          None \<Rightarrow> if prm_stop p then Inr (False, mmu, p1) else Inl Deadlock
        | Some c \<Rightarrow>
            rbind (cmd_load p1 c) (\<lambda>cd.
            rbind (prm_serve mmu (prm_oldest p1) (cmd_addr cd)) (\<lambda>(mmu1, s1).
            rbind (pthread_mutex_lock (prm_mutex p1)) (\<lambda>(_, pm).
            rbind (pthread_mutex_unlock pm) (\<lambda>(_, pm').
            Inr (False, mmu1,
                 p1\<lparr>prm_cmds := (prm_cmds p1)(c \<mapsto> cd\<lparr>cmd_done := True\<rparr>), prm_oldest := s1,
                    prm_mutex := pm'\<rparr>))))))))"

text \<open>
  A client waits with the mutex given up while the thread makes its rounds: as many as there are
  commands in front of the client's own, and its own.
\<close>

primrec wait_for_completion :: "nat \<Rightarrow> mmu_t \<Rightarrow> prm_t \<Rightarrow> nat \<Rightarrow> (mmu_t \<times> prm_t) res" where
  "wait_for_completion 0 mmu p c = Inl Diverges"
| "wait_for_completion (Suc k) mmu p c =
     rbind (cmd_load p c) (\<lambda>cd.
     if cmd_done cd then Inr (mmu, p)
     else
       rbind (pthread_mutex_unlock (prm_mutex p)) (\<lambda>(_, m).
       rbind (prm_thread_func mmu (p\<lparr>prm_mutex := m\<rparr>)) (\<lambda>(_, mmu1, p1).
       rbind (pthread_mutex_lock (prm_mutex p1)) (\<lambda>(_, m1).
       wait_for_completion k mmu1 (p1\<lparr>prm_mutex := m1\<rparr>) c))))"

text \<open>A fault up to the wait: a new command in the queue.\<close>

definition fault_push :: "prm_t \<Rightarrow> virt_addr_t \<Rightarrow> (nat \<times> prm_t) res" where
  "fault_push p addr =
     rbind (new_prm_command p addr) (\<lambda>(c, p1).
     rbind (cassert (prm_running p1)) (\<lambda>_.
     rbind (push_command p1 c) (\<lambda>p2. Inr (c, p2))))"

definition prm_pagefault :: "mmu_t \<Rightarrow> prm_t \<Rightarrow> virt_addr_t \<Rightarrow> (errcode_t \<times> mmu_t \<times> prm_t) res" where
  "prm_pagefault mmu p addr =
     rbind (fault_push p addr) (\<lambda>(c, p2).
     rbind (pthread_mutex_lock (prm_mutex p2)) (\<lambda>(_, m).
     rbind (wait_for_completion (Suc (nat (queue_size (prm_queue p2)))) mmu (p2\<lparr>prm_mutex := m\<rparr>) c)
       (\<lambda>(mmu1, p3).
     rbind (pthread_mutex_unlock (prm_mutex p3)) (\<lambda>(_, m').
     rbind (delete_prm_command (p3\<lparr>prm_mutex := m'\<rparr>) c) (\<lambda>p4.
     Inr (ecSuccess, mmu1, p4))))))"

text \<open>\<open>rc\<close> is what \<^verbatim>\<open>pthread_create\<close> returned.\<close>

definition prm_init :: "(nat \<Rightarrow> bool) \<Rightarrow> int \<Rightarrow> prm_t \<Rightarrow> (errcode_t \<times> prm_t) res" where
  "prm_init oom rc p =
     rbind (queue_init oom) (\<lambda>q.
     let p1 = p\<lparr>prm_mutex := False, prm_queue_mutex := False, prm_queue := q, prm_running := False,
                prm_stop := False, prm_oom := oom\<rparr>
     in if posix_errcode rc \<noteq> ecSuccess then Inr (posix_errcode rc, p1)
        else Inr (ecSuccess, p1\<lparr>prm_running := True\<rparr>))"

text \<open>The thread that is told to stop leaves after its current round.\<close>

definition prm_destroy :: "prm_t \<Rightarrow> (prm_t \<times> nat queue_t option) res" where
  "prm_destroy p =
     (let p1 = p\<lparr>prm_stop := True, prm_running := False\<rparr>
      in rbind (cassert (queue_size (prm_queue p1) = 0)) (\<lambda>_.
         Inr (p1, snd (queue_destroy (prm_queue p1)))))"

end
