(* ===== verification/Aging.thy ===== *)
theory Aging
  imports Mmu_Core
begin

text \<open>
  \<^verbatim>\<open>vmsim/aging_daemon.c\<close>: the daemon that shifts the age of every mapped page. Its file-level
  variables are a record. The daemon runs while its client waits: \<^verbatim>\<open>pthread_cond_timedwait\<close>
  gives up the mutex, lets the other thread make one round and takes the mutex again. Initialising
  the condition variables has no counterpart.
\<close>

record aging_t =
  ag_running :: bool
  ag_stop :: bool
  ag_should_update :: bool
  ag_done_updating :: bool
  ag_mutex :: bool

text \<open>Ages run backwards: the fresher a page, the larger its age.\<close>

definition age_page :: "phys_addr_t \<Rightarrow> page_data_t \<Rightarrow> page_data_t" where
  "age_page mem_page page =
     (let page1 = page\<lparr>pd_page_age := drop_bit 1 (pd_page_age page)\<rparr>;
          page2 = page1\<lparr>pd_page_age := set_msb (pd_page_age page1) (pd_referenced page1)\<rparr>
      in page2\<lparr>pd_referenced := False\<rparr>)"

definition daemon_func :: "mmu_t \<Rightarrow> aging_t \<Rightarrow> (bool \<times> mmu_t \<times> aging_t) res" where
  "daemon_func mmu ag =
     rbind (pthread_mutex_lock (ag_mutex ag)) (\<lambda>(_, m).
     if \<not> ag_should_update ag then
       rbind (pthread_mutex_unlock m) (\<lambda>(_, m'). Inr (False, mmu, ag\<lparr>ag_mutex := m'\<rparr>))
     else
       rbind (mmu_acquire_read mmu) (\<lambda>mmu1.
       rbind (mmu_for_each_mem_page mmu1 (\<lambda>a pd (_ :: unit). (age_page a pd, ())) ()) (\<lambda>(_, mmu2, _).
       rbind (mmu_release_read mmu2) (\<lambda>mmu3.
       rbind (pthread_mutex_unlock m) (\<lambda>(_, m').
       Inr (False, mmu3,
         ag\<lparr>ag_should_update := False, ag_done_updating := True, ag_mutex := m'\<rparr>))))))"

text \<open>One round of the daemon is enough; the fuel allows for a second test of the flag.\<close>

primrec wait_updated :: "nat \<Rightarrow> mmu_t \<Rightarrow> aging_t \<Rightarrow> (mmu_t \<times> aging_t) res" where
  "wait_updated 0 mmu ag = Inl Diverges"
| "wait_updated (Suc k) mmu ag =
     (if ag_done_updating ag then Inr (mmu, ag)
      else
        rbind (pthread_mutex_unlock (ag_mutex ag)) (\<lambda>(_, m).
        rbind (daemon_func mmu (ag\<lparr>ag_mutex := m\<rparr>)) (\<lambda>(_, mmu1, ag1).
        rbind (pthread_mutex_lock (ag_mutex ag1)) (\<lambda>(_, m1).
        wait_updated k mmu1 (ag1\<lparr>ag_mutex := m1\<rparr>)))))"

definition aging_daemon_update_pages :: "mmu_t \<Rightarrow> aging_t \<Rightarrow> (errcode_t \<times> mmu_t \<times> aging_t) res" where
  "aging_daemon_update_pages mmu ag =
     rbind (cassert (ag_running ag)) (\<lambda>_.
     rbind (pthread_mutex_lock (ag_mutex ag)) (\<lambda>(_, m).
     rbind (wait_updated 2 mmu (ag\<lparr>ag_mutex := m, ag_done_updating := False, ag_should_update := True\<rparr>))
       (\<lambda>(mmu1, ag1).
     rbind (pthread_mutex_unlock (ag_mutex ag1)) (\<lambda>(_, m1).
     Inr (ecSuccess, mmu1, ag1\<lparr>ag_mutex := m1\<rparr>)))))"

text \<open>\<open>rc\<close> is what \<^verbatim>\<open>pthread_create\<close> returned; \<^verbatim>\<open>worker_thread_start\<close> waits until the thread runs.\<close>

definition aging_daemon_start :: "int \<Rightarrow> aging_t \<Rightarrow> errcode_t \<times> aging_t" where
  "aging_daemon_start rc ag =
     (let ag1 = ag\<lparr>ag_running := False, ag_stop := False, ag_mutex := False, ag_should_update := False\<rparr>
      in if posix_errcode rc \<noteq> ecSuccess then (posix_errcode rc, ag1)
         else (ecSuccess, ag1\<lparr>ag_running := True\<rparr>))"

definition aging_daemon_stop :: "aging_t \<Rightarrow> aging_t" where
  "aging_daemon_stop ag = ag\<lparr>ag_stop := True, ag_running := False\<rparr>"

subsection \<open>Ages\<close>

lemma age_page_simps [simp]:
  "pd_addr (age_page a pd) = pd_addr pd" "pd_valid (age_page a pd) = pd_valid pd"
  "pd_dirty (age_page a pd) = pd_dirty pd" "\<not> pd_referenced (age_page a pd)"
  "pd_page_age (age_page a pd) = set_msb (drop_bit 1 (pd_page_age pd)) (pd_referenced pd)"
  by (simp_all add: age_page_def Let_def)

lemma keeps_page_age [simp]: "keeps_page pd (age_page a pd)"
  by (simp add: keeps_page_def)

lemma aged_value:
  "unat (set_msb (drop_bit (Suc 0) w) r) = unat w div 2 + (if r then 2 ^ 31 else 0)"
proof -
  have lt: "unat w div 2 < 2 ^ 31" using unat_bound [of w] by simp
  have d: "unat (drop_bit (Suc 0) w) = unat w div 2" by (simp add: drop_bit_eq_div unat_div)
  have "or (drop_bit (Suc 0) w) (push_bit 31 1) = drop_bit (Suc 0) w + push_bit 31 1"
  proof (rule disjunctive_add [symmetric])
    fix n
    show "\<not> bit (drop_bit (Suc 0) w) n \<or> \<not> bit (push_bit 31 1 :: u32) n"
    proof (cases "n = 31")
      case True
      then show ?thesis by (auto simp: bit_drop_bit_eq dest: bit_imp_le_length)
    next
      case False
      then have "\<not> bit (push_bit 31 1 :: u32) n" by (simp only: bit_push_bit_iff bit_1_iff) auto
      then show ?thesis ..
    qed
  qed
  moreover have "unat (drop_bit (Suc 0) w + push_bit 31 1 :: u32) = unat w div 2 + 2 ^ 31"
    using lt d by (simp add: push_bit_eq_mult unat_add_lem [THEN iffD1])
  ultimately show ?thesis by (simp add: set_msb_def d)
qed

lemma age_page_less:
  "pd_referenced p \<Longrightarrow> \<not> pd_referenced q \<Longrightarrow> pd_page_age (age_page a q) < pd_page_age (age_page b p)"
proof -
  assume "pd_referenced p" "\<not> pd_referenced q"
  moreover have "unat (pd_page_age q) div 2 < 2 ^ 31" using unat_bound [of "pd_page_age q"] by simp
  ultimately show ?thesis by (simp add: word_less_nat_alt aged_value)
qed

lemma age_page_mono:
  "pd_referenced q \<longrightarrow> pd_referenced p \<Longrightarrow> pd_page_age q \<le> pd_page_age p \<Longrightarrow>
   pd_page_age (age_page a q) \<le> pd_page_age (age_page b p)"
  by (auto simp: word_le_nat_alt aged_value intro: div_le_mono trans_le_add1)

end
