(* ===== verification/Mmu.thy ===== *)
theory Mmu
  imports Prm Aging
begin

text \<open>
  The operations of \<^verbatim>\<open>vmsim/mmu.c\<close> that a process calls: reading and writing through the page
  table, with page faults served by the page replacement manager and ageing by the daemon. The
  state is the MMU and the file-level variables of \<^verbatim>\<open>prm.c\<close> and \<^verbatim>\<open>aging_daemon.c\<close>.
\<close>

record vm_t =
  vm_mmu :: mmu_t
  vm_prm :: prm_t
  vm_aging :: aging_t

text \<open>
  The loop that faults until the page is mapped. Another process may take the frame between the
  fault and the lock; alone, one round is enough, and the fuel allows for the test that ends it.
\<close>

primrec fault_loop :: "nat \<Rightarrow> vm_t \<Rightarrow> virt_addr_t \<Rightarrow> (errcode_t \<times> vm_t) res" where
  "fault_loop 0 vm page = Inl Diverges"
| "fault_loop (Suc k) vm page =
     rbind (mmu_release_read (vm_mmu vm)) (\<lambda>mmu1.
     rbind (prm_pagefault mmu1 (vm_prm vm) page) (\<lambda>(ec, mmu2, p).
     rbind (mmu_acquire_read mmu2) (\<lambda>mmu3.
     let vm1 = vm\<lparr>vm_mmu := mmu3, vm_prm := p\<rparr>
     in rbind (ipt_has_translation (mmu_mem_ipt mmu3) page) (\<lambda>b.
        if ec = ecSuccess \<and> \<not> b then fault_loop k vm1 page else Inr (ec, vm1)))))"

text \<open>The statistics of one reference, under their own lock.\<close>

definition pin_count :: "bool \<Rightarrow> mmu_t \<Rightarrow> mmu_t res" where
  "pin_count hit mmu =
     rbind (wr_start (mmu_stats_lock mmu)) (\<lambda>l.
     rbind (wr_end l) (\<lambda>l'.
     let st = mmu_stats mmu;
         st' = (if hit then st\<lparr>st_hits := st_hits st + 1, st_nrefs := st_nrefs st + 1\<rparr>
                else st\<lparr>st_nrefs := st_nrefs st + 1\<rparr>)
     in Inr (mmu\<lparr>mmu_stats := st', mmu_stats_lock := l'\<rparr>)))"

definition mmu_pin_page :: "vm_t \<Rightarrow> virt_addr_t \<Rightarrow> (errcode_t \<times> vm_t) res" where
  "mmu_pin_page vm page =
     rbind (ipt_has_translation (mmu_mem_ipt (vm_mmu vm)) page) (\<lambda>b.
     rbind (pin_count b (vm_mmu vm)) (\<lambda>mmu1.
     let vm1 = vm\<lparr>vm_mmu := mmu1\<rparr>
     in if b then Inr (ecSuccess, vm1) else fault_loop 2 vm1 page))"

definition mmu_unpin_page :: "vm_t \<Rightarrow> virt_addr_t \<Rightarrow> errcode_t" where
  "mmu_unpin_page vm page = ecSuccess"

definition mmu_age_pages_if_needed :: "vm_t \<Rightarrow> (errcode_t \<times> vm_t) res" where
  "mmu_age_pages_if_needed vm =
     rbind (ipt_ref_count_of (mmu_mem_ipt (vm_mmu vm))) (\<lambda>(_, refcount, ipt).
     let mmu1 = (vm_mmu vm)\<lparr>mmu_mem_ipt := ipt\<rparr>
     in if refcount \<ge> mmu_aging_freq mmu1 then
          rbind (ipt_zero_ref_count ipt) (\<lambda>(_, ipt1).
          rbind (aging_daemon_update_pages (mmu1\<lparr>mmu_mem_ipt := ipt1\<rparr>) (vm_aging vm)) (\<lambda>(_, mmu2, ag).
          Inr (ecSuccess, vm\<lparr>vm_mmu := mmu2, vm_aging := ag\<rparr>)))
        else Inr (ecSuccess, vm\<lparr>vm_mmu := mmu1\<rparr>))"

text \<open>A sum of two \<^verbatim>\<open>int\<close>s.\<close>

definition int_add :: "int \<Rightarrow> int \<Rightarrow> int res" where
  "int_add a b = (if - (2 ^ 31) \<le> a + b \<and> a + b < 2 ^ 31 then Inr (a + b) else Inl IntOverflow)"

text \<open>The address of the byte: an \<^verbatim>\<open>unsigned\<close> product and sum.\<close>

definition byte_addr :: "mm_t \<Rightarrow> phys_addr_t \<Rightarrow> u32 \<Rightarrow> phys_addr_t" where
  "byte_addr mem mem_page offset = mem_page * word_of_int (mm_page_size mem) + offset"

text \<open>The part of an access between pinning the page and releasing the lock.\<close>

definition read_pinned :: "vm_t \<Rightarrow> virt_addr_t \<Rightarrow> u32 \<Rightarrow> (errcode_t \<times> byte list \<times> vm_t) res" where
  "read_pinned vm addr nbytes =
     rbind (ipt_reference (mmu_mem_ipt (vm_mmu vm)) addr refRead) (\<lambda>(ec, ipt).
     rbind (cassert (ec = ecSuccess)) (\<lambda>_.
     rbind (ipt_translate ipt addr) (\<lambda>(_, mem_page).
     let mmu1 = (vm_mmu vm)\<lparr>mmu_mem_ipt := ipt\<rparr>
     in rbind (mem_read (mm_bytes (mmu_mem mmu1))
                 (uint (byte_addr (mmu_mem mmu1) mem_page (va_offset addr))) (unat nbytes)) (\<lambda>buf.
        let ec = mmu_unpin_page vm addr
        in rbind (mmu_release_read mmu1) (\<lambda>mmu2. Inr (ec, buf, vm\<lparr>vm_mmu := mmu2\<rparr>))))))"

definition write_pinned :: "vm_t \<Rightarrow> virt_addr_t \<Rightarrow> u32 \<Rightarrow> byte list \<Rightarrow> (errcode_t \<times> vm_t) res" where
  "write_pinned vm addr nbytes buf =
     rbind (ipt_reference (mmu_mem_ipt (vm_mmu vm)) addr refWrite) (\<lambda>(ec, ipt).
     rbind (cassert (ec = ecSuccess)) (\<lambda>_.
     rbind (ipt_translate ipt addr) (\<lambda>(_, mem_page).
     let mmu1 = (vm_mmu vm)\<lparr>mmu_mem_ipt := ipt\<rparr>
     in rbind (mem_write (mm_bytes (mmu_mem mmu1))
                 (uint (byte_addr (mmu_mem mmu1) mem_page (va_offset addr))) buf (unat nbytes)) (\<lambda>bs.
        let ec = mmu_unpin_page vm addr
        in rbind (mmu_release_read (mmu1\<lparr>mmu_mem := (mmu_mem mmu1)\<lparr>mm_bytes := bs\<rparr>\<rparr>)) (\<lambda>mmu2.
           Inr (ec, vm\<lparr>vm_mmu := mmu2\<rparr>))))))"

definition read_fits :: "vm_t \<Rightarrow> virt_addr_t \<Rightarrow> u32 \<Rightarrow> unit res" where
  "read_fits vm addr nbytes =
     rbind (int_add (sint (va_offset addr)) (sint nbytes)) (\<lambda>e. cassert (e \<le> mm_page_size (mmu_mem (vm_mmu vm))))"

definition write_fits :: "vm_t \<Rightarrow> virt_addr_t \<Rightarrow> u32 \<Rightarrow> unit res" where
  "write_fits vm addr nbytes = cassert (va_offset addr + nbytes \<le> word_of_int (mm_page_size (mmu_mem (vm_mmu vm))))"

definition mmu_read :: "vm_t \<Rightarrow> virt_addr_t \<Rightarrow> u32 \<Rightarrow> (errcode_t \<times> byte list \<times> vm_t) res" where
  "mmu_read vm addr nbytes =
     rbind (read_fits vm addr nbytes) (\<lambda>_.
     rbind (mmu_acquire_read (vm_mmu vm)) (\<lambda>mmu1.
     rbind (mmu_pin_page (vm\<lparr>vm_mmu := mmu1\<rparr>) addr) (\<lambda>(ec, vm2).
     rbind (cassert (ec = ecSuccess)) (\<lambda>_.
     rbind (read_pinned vm2 addr nbytes) (\<lambda>(ec, buf, vm4).
     rbind (mmu_age_pages_if_needed vm4) (\<lambda>(_, vm5). Inr (ec, buf, vm5)))))))"

definition mmu_write :: "vm_t \<Rightarrow> virt_addr_t \<Rightarrow> u32 \<Rightarrow> byte list \<Rightarrow> (errcode_t \<times> vm_t) res" where
  "mmu_write vm addr nbytes buf =
     rbind (write_fits vm addr nbytes) (\<lambda>_.
     rbind (mmu_acquire_read (vm_mmu vm)) (\<lambda>mmu1.
     rbind (mmu_pin_page (vm\<lparr>vm_mmu := mmu1\<rparr>) addr) (\<lambda>(ec, vm2).
     rbind (cassert (ec = ecSuccess)) (\<lambda>_.
     rbind (write_pinned vm2 addr nbytes buf) (\<lambda>(ec, vm4).
     rbind (mmu_age_pages_if_needed vm4) (\<lambda>(_, vm5). Inr (ec, vm5)))))))"

end
