(* ===== verification/Worker_Thread.thy ===== *)
theory Worker_Thread
  imports Locks
begin

text \<open>
  \<^verbatim>\<open>util/worker_thread.c\<close>: a thread that calls one function again and again until the function
  asks to stop or another thread does. \<open>'f\<close> stands for the function pointer and \<open>'a\<close> for its
  argument; a run of the thread takes the function itself as \<open>call\<close>.
\<close>

record ('f, 'a) worker_thread_t =
  wt_func :: "'f option"
  wt_arg :: "'a option"
  wt_stop :: bool
  wt_running :: bool
  wt_file_started :: "string option"
  wt_line_started :: int
  wt_lock :: rwlock_t

definition worker_thread_create :: "('f, 'a) worker_thread_t \<Rightarrow> 'f \<Rightarrow> (errcode_t \<times> ('f, 'a) worker_thread_t) res" where
  "worker_thread_create thread func =
     (let (_, l) = rwlock_init 0 in
      rbind (wr_start l) (\<lambda>l1.
      rbind (wr_end l1) (\<lambda>l2.
      Inr (ecSuccess,
        thread\<lparr>wt_running := False, wt_stop := False, wt_arg := None, wt_func := Some func,
               wt_file_started := None, wt_line_started := - 1, wt_lock := l2\<rparr>))))"

definition worker_thread_is_running :: "('f, 'a) worker_thread_t \<Rightarrow> bool" where
  "worker_thread_is_running thread = wt_running thread"

definition worker_thread_should_stop :: "('f, 'a) worker_thread_t \<Rightarrow> (bool \<times> ('f, 'a) worker_thread_t) res" where
  "worker_thread_should_stop thread =
     rbind (rd_start (wt_lock thread)) (\<lambda>l.
     rbind (rd_end l) (\<lambda>l'. Inr (wt_stop thread, thread\<lparr>wt_lock := l'\<rparr>)))"

definition set_running :: "bool \<Rightarrow> ('f, 'a) worker_thread_t \<Rightarrow> ('f, 'a) worker_thread_t res" where
  "set_running b thread =
     rbind (wr_start (wt_lock thread)) (\<lambda>l.
     rbind (wr_end l) (\<lambda>l'. Inr (thread\<lparr>wt_running := b, wt_lock := l'\<rparr>)))"

text \<open>
  The loop of the thread. \<open>env i\<close> says whether another thread sets the stop flag during round
  \<open>i\<close>.
\<close>

primrec worker_loop :: "nat \<Rightarrow> ('s \<Rightarrow> (bool \<times> 's) res) \<Rightarrow> (nat \<Rightarrow> bool) \<Rightarrow> nat \<Rightarrow>
    ('f, 'a) worker_thread_t \<Rightarrow> 's \<Rightarrow> (('f, 'a) worker_thread_t \<times> 's) res" where
  "worker_loop 0 call env i thread s = Inl Diverges"
| "worker_loop (Suc k) call env i thread s =
     rbind (call s) (\<lambda>(stop, s1).
     let thread1 = (if env i then thread\<lparr>wt_stop := True\<rparr> else thread)
     in rbind (worker_thread_should_stop thread1) (\<lambda>(b, thread2).
        if stop \<or> b then Inr (thread2, s1)
        else worker_loop k call env (Suc i) thread2 s1))"

definition worker_thread_func :: "nat \<Rightarrow> ('s \<Rightarrow> (bool \<times> 's) res) \<Rightarrow> (nat \<Rightarrow> bool) \<Rightarrow>
    ('f, 'a) worker_thread_t \<Rightarrow> 's \<Rightarrow> ('a option \<times> ('f, 'a) worker_thread_t \<times> 's) res" where
  "worker_thread_func k call env thread s =
     rbind (set_running True thread) (\<lambda>thread1.
     rbind (worker_loop k call env 0 thread1 s) (\<lambda>(thread2, s1).
     rbind (set_running False thread2) (\<lambda>thread3. Inr (wt_arg thread3, thread3, s1))))"

text \<open>\<open>rc\<close> is what \<^verbatim>\<open>pthread_create\<close> returned. The caller spins until the new thread has made its
  first steps.\<close>

definition worker_thread_start_impl :: "int \<Rightarrow> ('f, 'a) worker_thread_t \<Rightarrow> 'a \<Rightarrow> string \<Rightarrow> int \<Rightarrow>
    (errcode_t \<times> ('f, 'a) worker_thread_t) res" where
  "worker_thread_start_impl rc thread arg file line =
     rbind (wr_start (wt_lock thread)) (\<lambda>l.
     rbind (wr_end l) (\<lambda>l'.
     let thread1 = thread\<lparr>wt_arg := Some arg, wt_file_started := Some file, wt_line_started := line, wt_lock := l'\<rparr>;
         errcode = posix_errcode rc
     in if errcode \<noteq> ecSuccess then Inr (errcode, thread1)
        else rbind (set_running True thread1) (\<lambda>thread2. Inr (errcode, thread2))))"

definition worker_thread_stop :: "('f, 'a) worker_thread_t \<Rightarrow> errcode_t \<times> ('f, 'a) worker_thread_t" where
  \<comment> \<open>the caller spins until the thread has left its loop\<close>
  "worker_thread_stop thread = (ecSuccess, thread\<lparr>wt_stop := True, wt_running := False\<rparr>)"

definition worker_thread_destroy :: "('f, 'a) worker_thread_t \<Rightarrow> unit res" where
  "worker_thread_destroy thread = rwlock_destroy (wt_lock thread)"

subsection \<open>How often the function runs\<close>

text \<open>The state and the answer of the \<open>i\<close>-th call, when every call returns.\<close>

primrec iterate_call :: "('s \<Rightarrow> (bool \<times> 's) res) \<Rightarrow> nat \<Rightarrow> 's \<Rightarrow> (bool \<times> 's) res" where
  "iterate_call call 0 s = call s"
| "iterate_call call (Suc i) s = rbind (call s) (\<lambda>(_, s1). iterate_call call i s1)"

lemma worker_loop_stops:
  assumes "wt_lock thread = rw_free" "\<not> wt_stop thread" "n < k"
    and "\<And>i. i < n \<Longrightarrow> \<exists>s'. iterate_call call i s = Inr (False, s') \<and> \<not> env (j + i)"
    and "iterate_call call n s = Inr (b, s1)" "b \<or> env (j + n)"
  shows "\<exists>thread'. worker_loop k call env j thread s = Inr (thread', s1) \<and> wt_lock thread' = rw_free \<and>
           wt_arg thread' = wt_arg thread"
  using assms
proof (induction n arbitrary: k j thread s)
  case 0
  then obtain k' where "k = Suc k'" by (cases k) auto
  with 0 show ?case by (auto simp: worker_thread_should_stop_def)
next
  case (Suc n)
  then obtain k' where k: "k = Suc k'" by (cases k) auto
  from Suc.prems(4) [of 0] obtain s2 where s2: "call s = Inr (False, s2)" "\<not> env j" by auto
  have steps: "\<exists>s'. iterate_call call i s2 = Inr (False, s') \<and> \<not> env (Suc j + i)" if "i < n" for i
    using Suc.prems(4) [of "Suc i"] that s2(1) by auto
  have last: "iterate_call call n s2 = Inr (b, s1)" "b \<or> env (Suc j + n)"
    using Suc.prems(5,6) s2(1) by auto
  let ?t = "thread\<lparr>wt_lock := rw_free\<rparr>"
  have t: "wt_lock ?t = rw_free" "\<not> wt_stop ?t" using Suc.prems(2) by simp_all
  obtain thread' where "worker_loop k' call env (Suc j) ?t s2 = Inr (thread', s1)" "wt_lock thread' = rw_free"
      "wt_arg thread' = wt_arg ?t"
    using Suc.IH [OF t _ steps last] Suc.prems(3) k by auto
  then show ?case
    using k s2 Suc.prems(1,2) by (simp add: worker_thread_should_stop_def)
qed

lemma worker_thread_func_stops:
  assumes "wt_lock thread = rw_free" "\<not> wt_stop thread" "n < k"
    and "\<And>i. i < n \<Longrightarrow> \<exists>s'. iterate_call call i s = Inr (False, s') \<and> \<not> env i"
    and "iterate_call call n s = Inr (b, s1)" "b \<or> env n"
  shows "\<exists>thread'. worker_thread_func k call env thread s = Inr (wt_arg thread, thread', s1) \<and>
           wt_lock thread' = rw_free \<and> \<not> wt_running thread'"
proof -
  let ?t = "thread\<lparr>wt_running := True, wt_lock := rw_free\<rparr>"
  obtain t' where t': "worker_loop k call env 0 ?t s = Inr (t', s1)" "wt_lock t' = rw_free" "wt_arg t' = wt_arg ?t"
    using worker_loop_stops [of ?t n k call s env 0 b s1] assms by auto
  then show ?thesis using assms(1) by (simp add: worker_thread_func_def set_running_def)
qed

end
