(* ===== verification/Address.thy ===== *)
theory Address
  imports Prelude
begin

text \<open>
  The address arithmetic of \<^verbatim>\<open>util/app_util.c\<close> and \<^verbatim>\<open>util/pcb_util.c\<close>: splitting the address a user
  types into page and offset, and stepping an address over page boundaries.
\<close>

subsection \<open>Masks\<close>

text \<open>\<^verbatim>\<open>while (page_size > 1) { ++shift; page_size >>= 1; }\<close>\<close>

function page_shift_loop :: "u32 \<Rightarrow> int \<Rightarrow> u32" where
  "page_shift_loop shift page_size =
     (if page_size > 1 then page_shift_loop (shift + 1) (page_size div 2) else shift)"
  by auto
termination
  by (relation "measure (\<lambda>(s, p). nat p)") auto

declare page_shift_loop.simps [simp del]

definition page_shift :: "int \<Rightarrow> u32" where
  "page_shift page_size = page_shift_loop 0 page_size"

primrec mask_loop :: "nat \<Rightarrow> u32 \<Rightarrow> u32" where
  "mask_loop 0 m = m"
| "mask_loop (Suc n) m = mask_loop n (push_bit 1 m)"

definition page_mask :: "int \<Rightarrow> u32" where
  "page_mask page_size = mask_loop (unat (page_shift page_size)) 0xFFFFFFFF"

definition offset_mask :: "int \<Rightarrow> u32" where
  "offset_mask page_size = not (page_mask page_size)"

text \<open>The address is an \<^verbatim>\<open>int\<close>; it meets the mask as an \<^verbatim>\<open>unsigned\<close>, and the result is an \<^verbatim>\<open>int\<close>
  that is assigned to an \<^verbatim>\<open>unsigned\<close> field.\<close>

definition page_from_address :: "int \<Rightarrow> int \<Rightarrow> int" where
  "page_from_address page_size address =
     sint (drop_bit (unat (page_shift page_size)) (and (word_of_int address) (page_mask page_size)))"

definition offset_from_address :: "int \<Rightarrow> int \<Rightarrow> int" where
  "offset_from_address page_size address = sint (and (word_of_int address) (offset_mask page_size))"

definition make_virt_addr :: "int \<Rightarrow> int \<Rightarrow> int \<Rightarrow> virt_addr_t" where
  "make_virt_addr user_addr page_size pid =
     \<lparr>va_pid = word_of_int pid, va_page = word_of_int (page_from_address page_size user_addr),
      va_offset = word_of_int (offset_from_address page_size user_addr)\<rparr>"

lemma page_shift_loop_pow: "page_shift_loop s (2 ^ k) = s + word_of_int (int k)"
proof (induction k arbitrary: s)
  case 0
  then show ?case by (simp add: page_shift_loop.simps)
next
  case (Suc k)
  have "(1 :: int) < 2 ^ Suc k" by (metis one_less_numeral_iff one_less_power semiring_norm(76) zero_less_Suc)
  then show ?case using Suc [of "s + 1"] by (subst page_shift_loop.simps) (simp add: algebra_simps)
qed

lemma page_shift_pow: "k < 32 \<Longrightarrow> unat (page_shift (2 ^ k)) = k"
  using unat_small [of k] by (simp add: page_shift_def page_shift_loop_pow)

lemma mask_loop_eq: "mask_loop n m = push_bit n m"
  by (induction n arbitrary: m) (simp_all add: push_bit_push_bit add.commute)

lemma page_mask_pow: "k < 32 \<Longrightarrow> page_mask (2 ^ k) = not (mask k)"
proof -
  assume k: "k < 32"
  have ones: "(0xFFFFFFFF :: u32) = - 1" by simp
  have "page_mask (2 ^ k) = push_bit k (- 1)"
    unfolding page_mask_def mask_loop_eq page_shift_pow [OF k] ones ..
  then show ?thesis by (simp add: push_bit_minus_one_eq_not_mask)
qed

text \<open>For a page size that is a power of two: quotient and remainder.\<close>

lemma page_from_address_pow:
  assumes "k < 32" "0 \<le> a" "a < 2 ^ 31"
  shows "page_from_address (2 ^ k) a = a div 2 ^ k" "offset_from_address (2 ^ k) a = a mod 2 ^ k"
proof -
  let ?w = "word_of_int a :: u32"
  have uw: "uint ?w = a" using assms by (simp add: uint_word_of_int)
  have p: "drop_bit k (and ?w (not (mask k))) = drop_bit k ?w"
    by (rule bit_eqI) (auto simp: bit_simps)
  have ud: "uint (drop_bit k ?w) = a div 2 ^ k"
    unfolding unsigned_drop_bit_eq uw using assms(2,3)
    by (simp add: drop_bit_eq_div take_bit_int_eq_self)
  have "a div 2 ^ k \<le> a" using assms(2) zdiv_mono2 [of a 1 "2 ^ k"] by simp
  then have "unat (drop_bit k ?w) < 2 ^ 31" using assms(3) ud unfolding unat_eq_nat_uint by simp
  then have sd: "sint (drop_bit k ?w) = uint (drop_bit k ?w)" by (simp only: sint_small uint_nat)
  then show "page_from_address (2 ^ k) a = a div 2 ^ k"
    unfolding page_from_address_def page_mask_pow [OF assms(1)] page_shift_pow [OF assms(1)] p
      sd ud ..
  have o: "and ?w (not (not (mask k))) = take_bit k ?w" by (simp add: take_bit_eq_mask)
  have ut: "uint (take_bit k ?w) = a mod 2 ^ k"
    unfolding unsigned_take_bit_eq uw by (simp add: take_bit_eq_mod)
  have "a mod 2 ^ k \<le> a" using assms(2) by (simp add: zmod_le_nonneg_dividend)
  then have "unat (take_bit k ?w) < 2 ^ 31" using assms(3) ut unfolding unat_eq_nat_uint by simp
  then have st: "sint (take_bit k ?w) = uint (take_bit k ?w)" by (simp only: sint_small uint_nat)
  then show "offset_from_address (2 ^ k) a = a mod 2 ^ k"
    unfolding offset_from_address_def offset_mask_def page_mask_pow [OF assms(1)] o
      st ut ..
qed

subsection \<open>Stepping\<close>

text \<open>The loop of \<^verbatim>\<open>advance_virt_addr\<close>. With a positive page size every round makes the offset
  smaller, so the offset itself is fuel enough; with page size 0 the loop never ends.\<close>

primrec advance_loop :: "nat \<Rightarrow> virt_addr_t \<Rightarrow> int \<Rightarrow> virt_addr_t res" where
  "advance_loop 0 addr page_size = Inl Diverges"
| "advance_loop (Suc k) addr page_size =
     (if va_offset addr \<ge> word_of_int page_size
      then advance_loop k (addr\<lparr>va_page := va_page addr + 1, va_offset := va_offset addr - word_of_int page_size\<rparr>) page_size
      else Inr addr)"

definition advance_virt_addr :: "virt_addr_t \<Rightarrow> int \<Rightarrow> int \<Rightarrow> virt_addr_t res" where
  "advance_virt_addr addr offset page_size =
     (let addr1 = addr\<lparr>va_offset := va_offset addr + word_of_int offset\<rparr>
      in advance_loop (Suc (unat (va_offset addr1))) addr1 page_size)"

lemma advance_loop_eq:
  assumes "0 < ps" "ps < 2 ^ 32" "unat (va_offset a) < k"
  shows "advance_loop k a (int ps) =
     Inr (a\<lparr>va_page := va_page a + word_of_int (int (unat (va_offset a) div ps)),
            va_offset := word_of_int (int (unat (va_offset a) mod ps))\<rparr>)"
  using assms(3)
proof (induction k arbitrary: a)
  case (Suc k)
  let ?w = "word_of_int (int ps) :: u32" let ?o = "unat (va_offset a)"
  have w: "unat ?w = ps" by (rule unat_small [OF assms(2)])
  show ?case
  proof (cases "ps \<le> ?o")
    case False
    then have "\<not> va_offset a \<ge> ?w" unfolding word_le_nat_alt w by simp
    moreover have "a\<lparr>va_page := va_page a + 0, va_offset := word_of_int (int ?o)\<rparr> = a" by simp
    ultimately show ?thesis using False by simp
  next
    case True
    let ?a = "a\<lparr>va_page := va_page a + 1, va_offset := va_offset a - ?w\<rparr>"
    have ge: "va_offset a \<ge> ?w" unfolding word_le_nat_alt w using True .
    then have sub: "unat (va_offset a - ?w) = ?o - ps" using unat_sub [of ?w "va_offset a"] w by simp
    have "advance_loop k ?a (int ps) =
        Inr (?a\<lparr>va_page := va_page ?a + word_of_int (int (unat (va_offset ?a) div ps)),
                va_offset := word_of_int (int (unat (va_offset ?a) mod ps))\<rparr>)"
      by (rule Suc.IH) (use Suc.prems sub assms(1) True in simp)
    moreover have "?o div ps = Suc ((?o - ps) div ps)" "(?o - ps) mod ps = ?o mod ps"
      using le_div_geq [OF assms(1) True] le_mod_geq [OF True] by simp_all
    ultimately show ?thesis using ge sub by (simp add: algebra_simps)
  qed
qed simp

lemma advance_virt_addr_ok:
  assumes "0 < ps" "ps < 2 ^ 31" "unat (va_offset a) < ps" "n < 2 ^ 31"
  shows "advance_virt_addr a (int n) (int ps) =
     Inr (a\<lparr>va_page := va_page a + word_of_int (int ((unat (va_offset a) + n) div ps)),
            va_offset := word_of_int (int ((unat (va_offset a) + n) mod ps))\<rparr>)"
proof -
  have "unat (va_offset a + word_of_int (int n)) = unat (va_offset a) + n"
    using assms unat_small [of n] by (simp add: unat_word_ariths)
  then show ?thesis
    using advance_loop_eq [of ps "a\<lparr>va_offset := va_offset a + word_of_int (int n)\<rparr>" "Suc (unat (va_offset a) + n)"] assms
    by (simp add: advance_virt_addr_def Let_def del: advance_loop.simps)
qed

lemma advance_diverges: "advance_virt_addr a n 0 = Inl Diverges"
proof -
  have "advance_loop k a 0 = Inl Diverges" for k a by (induction k arbitrary: a) simp_all
  then show ?thesis by (simp add: advance_virt_addr_def Let_def)
qed

lemma make_virt_addr_pow:
  assumes "k < 32" "0 \<le> a" "a < 2 ^ 31"
  shows "make_virt_addr a (2 ^ k) pid =
    \<lparr>va_pid = word_of_int pid, va_page = word_of_int (a div 2 ^ k), va_offset = word_of_int (a mod 2 ^ k)\<rparr> \<and>
    uint (va_page (make_virt_addr a (2 ^ k) pid)) * 2 ^ k + uint (va_offset (make_virt_addr a (2 ^ k) pid)) = a"
proof -
  have eq: "make_virt_addr a (2 ^ k) pid =
    \<lparr>va_pid = word_of_int pid, va_page = word_of_int (a div 2 ^ k), va_offset = word_of_int (a mod 2 ^ k)\<rparr>"
    by (simp add: make_virt_addr_def page_from_address_pow [OF assms])
  have small: "uint (word_of_int x :: u32) = x" if "0 \<le> x" "x < 2 ^ 31" for x
    using that by (simp add: uint_word_of_int)
  have "0 \<le> a div 2 ^ k" "a div 2 ^ k \<le> a" "0 \<le> a mod 2 ^ k" "a mod 2 ^ k \<le> a"
    using assms zdiv_mono2 [of a 1 "2 ^ k"] by (simp_all add: pos_imp_zdiv_nonneg_iff zmod_le_nonneg_dividend)
  then have "uint (word_of_int (a div 2 ^ k) :: u32) = a div 2 ^ k" "uint (word_of_int (a mod 2 ^ k) :: u32) = a mod 2 ^ k"
    using assms(3) small by simp_all
  then show ?thesis unfolding eq by (simp only: virt_addr_t.simps div_mult_mod_eq)
qed

end
