(* ===== verification/Pcb.thy ===== *)
theory Pcb
  imports Mmu Worker_Thread Address
begin

text \<open>
  \<^verbatim>\<open>vmsim/pcb.c\<close> and \<^verbatim>\<open>util/pcb_util.c\<close>: the container of the simulated processes, their mail boxes,
  and what a process does with a piece of mail. Small allocations succeed; condition variables
  have no state.
\<close>

subsection \<open>Data\<close>

datatype func_t = fcRead | fcLoopRead | fcReadToFile | fcLoopReadToFile | fcWrite | fcLoopWrite | fcDel

text \<open>The arguments of a post are pointers to blocks of different types.\<close>

datatype post_arg = PAddr virt_addr_t | PInt int | PChar byte | PStr "byte list"

record post_t =
  po_func :: func_t
  po_args :: "post_arg list"
  po_n_args :: int

text \<open>The argument of the thread is the container and the process id.\<close>

record process_t =
  prc_pid :: procid_t
  prc_disk_block_start :: int
  prc_junk :: bool
  prc_del :: bool
  prc_thrd :: "(unit, procid_t) worker_thread_t"
  prc_thrd_arg :: "procid_t option"
  prc_mail :: "post_t queue_t option"
  prc_mail_mutex :: bool

record proc_cont_t =
  pc_processes :: "process_t list option"
  pc_max_num_of_proc :: u32
  pc_prc_blk_size :: u32
  pc_mutex :: bool

text \<open>
  The file-level variables of \<^verbatim>\<open>app_util.c\<close> that order the output, and what has been written:
  to the standard output (\<open>None\<close>) or to a file.
\<close>

record job_t =
  job_done :: bool
  job_mutex :: bool

record sys_t =
  sys_vm :: vm_t
  sys_cont :: proc_cont_t
  sys_job :: job_t
  sys_out :: "(byte list option \<times> byte list) list"

definition pc_proc :: "proc_cont_t \<Rightarrow> procid_t \<Rightarrow> process_t res" where
  "pc_proc cont pid = (case pc_processes cont of None \<Rightarrow> Inl NullDeref | Some ps \<Rightarrow> arr_get ps (uint pid))"

definition pc_upd :: "procid_t \<Rightarrow> (process_t \<Rightarrow> process_t) \<Rightarrow> proc_cont_t \<Rightarrow> proc_cont_t res" where
  "pc_upd pid f cont = (case pc_processes cont of None \<Rightarrow> Inl NullDeref
     | Some ps \<Rightarrow> rbind (arr_get ps (uint pid)) (\<lambda>p.
                  rbind (arr_set ps (uint pid) (f p)) (\<lambda>ps'. Inr (cont\<lparr>pc_processes := Some ps'\<rparr>))))"

subsection \<open>Mail\<close>

definition create_post :: "func_t \<Rightarrow> post_arg list \<Rightarrow> int \<Rightarrow> post_t" where
  "create_post func args nargs = \<lparr>po_func = func, po_args = args, po_n_args = nargs\<rparr>"

definition compose_mail :: "proc_cont_t \<Rightarrow> procid_t \<Rightarrow> post_t \<Rightarrow> (errcode_t \<times> proc_cont_t) res" where
  "compose_mail cont pid post =
     (if pid > pc_max_num_of_proc cont then Inr (ecNotFound, cont)
      else
        rbind (pc_proc cont pid) (\<lambda>prc.
        if prc_junk prc then Inr (ecNotFound, cont)
        else
          rbind (pthread_mutex_lock (prc_mail_mutex prc)) (\<lambda>(_, m).
          if prc_del prc then
            rbind (pthread_mutex_unlock m) (\<lambda>(_, m').
            rbind (pc_upd pid (\<lambda>p. p\<lparr>prc_mail_mutex := m'\<rparr>) cont) (\<lambda>cont'. Inr (ecNotFound, cont')))
          else (case prc_mail prc of None \<Rightarrow> Inl NullDeref
            | Some q \<Rightarrow>
                rbind (queue_push q post) (\<lambda>(_, q').
                rbind (pthread_mutex_unlock m) (\<lambda>(_, m').
                rbind (pc_upd pid (\<lambda>p. p\<lparr>prc_mail := Some q', prc_mail_mutex := m'\<rparr>) cont) (\<lambda>cont'.
                Inr (ecSuccess, cont'))))))))"

subsection \<open>The container\<close>

text \<open>A slot of the array as \<^verbatim>\<open>calloc\<close> and \<^verbatim>\<open>bzero\<close> leave it.\<close>

definition zero_process :: process_t where
  "zero_process = \<lparr>prc_pid = 0, prc_disk_block_start = 0, prc_junk = False, prc_del = False,
     prc_thrd = \<lparr>wt_func = None, wt_arg = None, wt_stop = False, wt_running = False,
                 wt_file_started = None, wt_line_started = 0, wt_lock = rw_free\<rparr>,
     prc_thrd_arg = None, prc_mail = None, prc_mail_mutex = False\<rparr>"

definition init_proc_cont :: "int \<Rightarrow> int \<Rightarrow> proc_cont_t" where
  "init_proc_cont nprocs blk_size =
     \<lparr>pc_processes = Some (replicate (nat nprocs) (zero_process\<lparr>prc_junk := True\<rparr>)),
      pc_max_num_of_proc = word_of_int nprocs, pc_prc_blk_size = word_of_int blk_size, pc_mutex = False\<rparr>"

text \<open>The first slot that may be overridden; the loop ends at \<open>max_num_of_proc\<close>.\<close>

primrec find_slot :: "nat \<Rightarrow> u32 \<Rightarrow> proc_cont_t \<Rightarrow> u32 res" where
  "find_slot 0 i cont = Inr i"
| "find_slot (Suc n) i cont =
     rbind (pc_proc cont i) (\<lambda>p. if prc_junk p then Inr i else find_slot n (i + 1) cont)"

text \<open>\<^verbatim>\<open>free(prc)\<close>: only the first slot is where \<^verbatim>\<open>calloc\<close>'s block starts.\<close>

definition free_slot :: "u32 \<Rightarrow> proc_cont_t \<Rightarrow> proc_cont_t res" where
  "free_slot i cont = (if i = 0 then Inr (cont\<lparr>pc_processes := None\<rparr>) else Inl BadFree)"

text \<open>\<open>off\<close> is the indeterminate offset of the local address, \<open>oom\<close> answers the mail box.\<close>

definition init_process :: "u32 \<Rightarrow> (nat \<Rightarrow> bool) \<Rightarrow> mmu_t \<Rightarrow> proc_cont_t \<Rightarrow> (int \<times> mmu_t \<times> proc_cont_t) res" where
  "init_process off oom mmu cont =
     rbind (pthread_mutex_lock (pc_mutex cont)) (\<lambda>(_, m).
     rbind (find_slot (unat (pc_max_num_of_proc cont)) 0 cont) (\<lambda>i.
     if i \<ge> pc_max_num_of_proc cont then
       rbind (pthread_mutex_unlock m) (\<lambda>(_, m'). Inr (- 1, mmu, cont\<lparr>pc_mutex := m'\<rparr>))
     else
       rbind (pc_upd i (\<lambda>_. zero_process) cont) (\<lambda>cont1.
       rbind (disk_alloc_process_block (mmu_disk mmu)) (\<lambda>(errs, page, disk).
       let mmu1 = mmu\<lparr>mmu_disk := disk\<rparr>
       in if errs \<noteq> ecSuccess then
            rbind (pthread_mutex_unlock m) (\<lambda>(_, m').
            rbind (free_slot i (cont1\<lparr>pc_mutex := m'\<rparr>)) (\<lambda>cont2. Inr (- 2, mmu1, cont2)))
          else
            rbind (mmu_alloc_multiple off mmu1 \<lparr>va_pid = i, va_page = 0, va_offset = off\<rparr>
                     (sint (pc_prc_blk_size cont1)) page) (\<lambda>(errs, mmu2).
            if errs \<noteq> ecSuccess then
              rbind (pthread_mutex_unlock m) (\<lambda>(_, m').
              rbind (free_slot i (cont1\<lparr>pc_mutex := m'\<rparr>)) (\<lambda>cont2. Inr (- 2, mmu2, cont2)))
            else
              rbind (queue_init oom) (\<lambda>mail.
              rbind (pc_proc cont1 i) (\<lambda>p.
              rbind (worker_thread_create (prc_thrd p) ()) (\<lambda>(errs, thrd).
              rbind (pc_upd i (\<lambda>p. p\<lparr>prc_disk_block_start := page, prc_junk := False, prc_mail := Some mail,
                                     prc_pid := i, prc_thrd := thrd\<rparr>) cont1) (\<lambda>cont2.
              rbind (pthread_mutex_unlock m) (\<lambda>(_, m').
              if errs = ecFail then
                rbind (free_slot i (cont2\<lparr>pc_mutex := m'\<rparr>)) (\<lambda>cont3. Inr (- 3, mmu2, cont3))
              else Inr (sint i, mmu2, cont2\<lparr>pc_mutex := m'\<rparr>)))))))))))"

text \<open>\<open>rc\<close> is what \<^verbatim>\<open>pthread_create\<close> returned; the file and the line of the call are those of the
  macro \<^verbatim>\<open>worker_thread_start\<close>.\<close>

definition process_start :: "int \<Rightarrow> proc_cont_t \<Rightarrow> procid_t \<Rightarrow> (errcode_t \<times> proc_cont_t) res" where
  "process_start rc cont pid =
     rbind (pc_upd pid (\<lambda>p. p\<lparr>prc_thrd_arg := Some pid\<rparr>) cont) (\<lambda>cont1.
     rbind (pc_proc cont1 pid) (\<lambda>p.
     rbind (worker_thread_start_impl rc (prc_thrd p) pid ''vmsim/pcb.c'' 125) (\<lambda>(errs, thrd).
     rbind (pc_upd pid (\<lambda>p. p\<lparr>prc_thrd := thrd\<rparr>) cont1) (\<lambda>cont2. Inr (errs, cont2)))))"

primrec all_junk_loop :: "nat \<Rightarrow> u32 \<Rightarrow> proc_cont_t \<Rightarrow> bool res" where
  "all_junk_loop 0 i cont = Inr True"
| "all_junk_loop (Suc n) i cont =
     rbind (pc_proc cont i) (\<lambda>p. if \<not> prc_junk p then Inr False else all_junk_loop n (i + 1) cont)"

definition proc_cont_destroy :: "proc_cont_t option \<Rightarrow> (errcode_t \<times> proc_cont_t option) res" where
  "proc_cont_destroy cont = (case cont of None \<Rightarrow> Inr (ecFail, None)
     | Some c \<Rightarrow> rbind (all_junk_loop (unat (pc_max_num_of_proc c)) 0 c) (\<lambda>b.
                 if \<not> b then Inr (ecFail, Some c) else Inr (ecSuccess, None)))"

subsection \<open>Ordering the output\<close>

definition signal_job_done :: "job_t \<Rightarrow> job_t res" where
  "signal_job_done j =
     rbind (mutex_unlock (job_mutex j)) (\<lambda>(_, m). Inr (j\<lparr>job_done := True, job_mutex := m\<rparr>))"

text \<open>A wait for a job that nobody finishes never ends. The mutex stays locked.\<close>

definition wait_job_done :: "job_t \<Rightarrow> job_t res" where
  "wait_job_done j =
     rbind (mutex_lock (job_mutex j)) (\<lambda>(_, m).
     if \<not> job_done j then Inl Deadlock else Inr (j\<lparr>job_done := False, job_mutex := m\<rparr>))"

definition init_job_done :: job_t where
  "init_job_done = \<lparr>job_done = True, job_mutex = False\<rparr>"

text \<open>What the destruction of the mutex returns is not looked at, also when it is held.\<close>

definition destroy_job_done :: "job_t \<Rightarrow> unit res" where
  "destroy_job_done j = (let _ = pthread_mutex_destroy (job_mutex j) in Inr ())"

lemma destroy_job_done_ok [simp]: "destroy_job_done j = Inr ()"
  by (simp add: destroy_job_done_def)

subsection \<open>Reading and writing for a process\<close>

definition int_mul :: "int \<Rightarrow> int \<Rightarrow> int res" where
  "int_mul a b = (if - (2 ^ 31) \<le> a * b \<and> a * b < 2 ^ 31 then Inr (a * b) else Inl IntOverflow)"

text \<open>\<^verbatim>\<open>while (multiplier < amount && err == ecSuccess)\<close>; \<open>n\<close> counts the rounds that are left.\<close>

primrec sim_read_loop :: "nat \<Rightarrow> vm_t \<Rightarrow> virt_addr_t \<Rightarrow> int \<Rightarrow> int \<Rightarrow> (errcode_t \<times> byte list \<times> vm_t) res" where
  "sim_read_loop 0 vm vAddr off page_size = Inr (ecSuccess, [], vm)"
| "sim_read_loop (Suc n) vm vAddr off page_size =
     rbind (mmu_read vm vAddr 1) (\<lambda>(err, b, vm1).
     rbind (advance_virt_addr vAddr off page_size) (\<lambda>vAddr1.
     if err \<noteq> ecSuccess then Inr (err, b, vm1)
     else rbind (sim_read_loop n vm1 vAddr1 off page_size) (\<lambda>(err, bs, vm2). Inr (err, b @ bs, vm2))))"

text \<open>Every byte is printed with a newline. \<open>fo\<close>: \<^verbatim>\<open>fopen\<close> gave a stream.\<close>

definition print_bytes :: "byte list \<Rightarrow> byte list" where
  "print_bytes bs = concat (map (\<lambda>b. [b, 10]) bs)"

definition sim_read :: "bool \<Rightarrow> sys_t \<Rightarrow> virt_addr_t \<Rightarrow> int \<Rightarrow> int \<Rightarrow> byte list option \<Rightarrow> (errcode_t \<times> sys_t) res" where
  "sim_read fo sys vAddr off amount file_name =
     rbind (int_mul amount off) (\<lambda>x.
     rbind (int_add x 1) (\<lambda>_.
     rbind (cassert (off > 0)) (\<lambda>_.
     rbind (cassert (amount > 0)) (\<lambda>_.
     rbind (sim_read_loop (nat amount) (sys_vm sys) vAddr off
              (mm_page_size (mmu_mem (vm_mmu (sys_vm sys))))) (\<lambda>(err, buf, vm).
     rbind (if err = ecSuccess then
              (if file_name \<noteq> None \<and> \<not> fo then Inl NullDeref
               else Inr (sys_out sys @ [(file_name, print_bytes buf)]))
            else Inr (sys_out sys)) (\<lambda>out.
     rbind (signal_job_done (sys_job sys)) (\<lambda>j.
     Inr (err, sys\<lparr>sys_vm := vm, sys_out := out, sys_job := j\<rparr>))))))))"

text \<open>\<open>n\<close> is the number of rounds the two bounds of the loop allow; \<open>s\<close> holds what is left.\<close>

primrec sim_write_loop :: "nat \<Rightarrow> vm_t \<Rightarrow> virt_addr_t \<Rightarrow> byte list \<Rightarrow> int \<Rightarrow> (errcode_t \<times> vm_t) res" where
  "sim_write_loop 0 vm vAddr s page_size = Inr (ecSuccess, vm)"
| "sim_write_loop (Suc n) vm vAddr s page_size =
     rbind (mmu_write vm vAddr 1 (take 1 s)) (\<lambda>(err, vm1).
     rbind (advance_virt_addr vAddr 1 page_size) (\<lambda>vAddr1.
     if err \<noteq> ecSuccess then Inr (err, vm1) else sim_write_loop n vm1 vAddr1 (drop 1 s) page_size))"

definition sim_write :: "sys_t \<Rightarrow> virt_addr_t \<Rightarrow> byte list \<Rightarrow> int \<Rightarrow> (errcode_t \<times> sys_t) res" where
  "sim_write sys vAddr s amount =
     (let page_size = mm_page_size (mmu_mem (vm_mmu (sys_vm sys)))
      in rbind (cassert (amount > 0)) (\<lambda>_.
         rbind (sim_write_loop (nat (min amount page_size)) (sys_vm sys) vAddr s page_size) (\<lambda>(err, vm).
         rbind (signal_job_done (sys_job sys)) (\<lambda>j.
         Inr (err, sys\<lparr>sys_vm := vm, sys_job := j\<rparr>)))))"

primrec sim_loop_write_loop :: "nat \<Rightarrow> vm_t \<Rightarrow> virt_addr_t \<Rightarrow> byte \<Rightarrow> int \<Rightarrow> int \<Rightarrow> (errcode_t \<times> vm_t) res" where
  "sim_loop_write_loop 0 vm vAddr c off page_size = Inr (ecSuccess, vm)"
| "sim_loop_write_loop (Suc n) vm vAddr c off page_size =
     rbind (mmu_write vm vAddr 1 [c]) (\<lambda>(err, vm1).
     rbind (advance_virt_addr vAddr off page_size) (\<lambda>vAddr1.
     if err \<noteq> ecSuccess then Inr (err, vm1) else sim_loop_write_loop n vm1 vAddr1 c off page_size))"

definition sim_loop_write :: "sys_t \<Rightarrow> virt_addr_t \<Rightarrow> byte \<Rightarrow> int \<Rightarrow> int \<Rightarrow> (errcode_t \<times> sys_t) res" where
  "sim_loop_write sys vAddr c off amount =
     rbind (cassert (off \<ge> 0)) (\<lambda>_.
     rbind (cassert (amount > 0)) (\<lambda>_.
     rbind (sim_loop_write_loop (nat amount) (sys_vm sys) vAddr c off
              (mm_page_size (mmu_mem (vm_mmu (sys_vm sys))))) (\<lambda>(err, vm).
     rbind (signal_job_done (sys_job sys)) (\<lambda>j.
     Inr (err, sys\<lparr>sys_vm := vm, sys_job := j\<rparr>)))))"

subsection \<open>Decoders\<close>

text \<open>A pointer cast to the type the decoder expects.\<close>

definition arg_addr :: "post_t \<Rightarrow> int \<Rightarrow> virt_addr_t res" where
  "arg_addr post i = rbind (arr_get (po_args post) i) (\<lambda>a. case a of PAddr v \<Rightarrow> Inr v | _ \<Rightarrow> Inl OutOfBounds)"

definition arg_int :: "post_t \<Rightarrow> int \<Rightarrow> int res" where
  "arg_int post i = rbind (arr_get (po_args post) i) (\<lambda>a. case a of PInt v \<Rightarrow> Inr v | _ \<Rightarrow> Inl OutOfBounds)"

definition arg_char :: "post_t \<Rightarrow> int \<Rightarrow> byte res" where
  "arg_char post i = rbind (arr_get (po_args post) i) (\<lambda>a. case a of PChar v \<Rightarrow> Inr v | _ \<Rightarrow> Inl OutOfBounds)"

definition arg_str :: "post_t \<Rightarrow> int \<Rightarrow> byte list res" where
  "arg_str post i = rbind (arr_get (po_args post) i) (\<lambda>a. case a of PStr v \<Rightarrow> Inr v | _ \<Rightarrow> Inl OutOfBounds)"

definition read_decoder :: "sys_t \<Rightarrow> post_t \<Rightarrow> (errcode_t \<times> sys_t) res" where
  "read_decoder sys post =
     rbind (cassert (po_n_args post = 2)) (\<lambda>_.
     rbind (cassert (po_func post = fcRead)) (\<lambda>_.
     rbind (arg_addr post 0) (\<lambda>vAddr.
     rbind (arg_int post 1) (\<lambda>amount. sim_read True sys vAddr 1 amount None))))"

definition loop_read_decoder :: "sys_t \<Rightarrow> post_t \<Rightarrow> (errcode_t \<times> sys_t) res" where
  "loop_read_decoder sys post =
     rbind (cassert (po_n_args post = 3)) (\<lambda>_.
     rbind (cassert (po_func post = fcLoopRead)) (\<lambda>_.
     rbind (arg_addr post 0) (\<lambda>vAddr.
     rbind (arg_int post 1) (\<lambda>off.
     rbind (arg_int post 2) (\<lambda>amount. sim_read True sys vAddr off amount None)))))"

definition read_file_decoder :: "bool \<Rightarrow> sys_t \<Rightarrow> post_t \<Rightarrow> (errcode_t \<times> sys_t) res" where
  "read_file_decoder fo sys post =
     rbind (cassert (po_n_args post = 3)) (\<lambda>_.
     rbind (cassert (po_func post = fcReadToFile)) (\<lambda>_.
     rbind (arg_addr post 0) (\<lambda>vAddr.
     rbind (arg_int post 1) (\<lambda>amount.
     rbind (arg_str post 2) (\<lambda>file_name. sim_read fo sys vAddr 1 amount (Some file_name))))))"

definition loop_read_file_decoder :: "bool \<Rightarrow> sys_t \<Rightarrow> post_t \<Rightarrow> (errcode_t \<times> sys_t) res" where
  "loop_read_file_decoder fo sys post =
     rbind (cassert (po_n_args post = 4)) (\<lambda>_.
     rbind (cassert (po_func post = fcLoopReadToFile)) (\<lambda>_.
     rbind (arg_addr post 0) (\<lambda>vAddr.
     rbind (arg_int post 1) (\<lambda>off.
     rbind (arg_int post 2) (\<lambda>amount.
     rbind (arg_str post 3) (\<lambda>file_name. sim_read fo sys vAddr off amount (Some file_name)))))))"

definition write_decoder :: "sys_t \<Rightarrow> post_t \<Rightarrow> (errcode_t \<times> sys_t) res" where
  "write_decoder sys post =
     rbind (cassert (po_n_args post = 3)) (\<lambda>_.
     rbind (cassert (po_func post = fcWrite)) (\<lambda>_.
     rbind (arg_addr post 0) (\<lambda>vAddr.
     rbind (arg_str post 1) (\<lambda>s.
     rbind (arg_int post 2) (\<lambda>amount. sim_write sys vAddr s amount)))))"

definition loop_write_decoder :: "sys_t \<Rightarrow> post_t \<Rightarrow> (errcode_t \<times> sys_t) res" where
  "loop_write_decoder sys post =
     rbind (cassert (po_n_args post = 4)) (\<lambda>_.
     rbind (cassert (po_func post = fcLoopWrite)) (\<lambda>_.
     rbind (arg_addr post 0) (\<lambda>vAddr.
     rbind (arg_char post 1) (\<lambda>c.
     rbind (arg_int post 2) (\<lambda>off.
     rbind (arg_int post 3) (\<lambda>amount. sim_loop_write sys vAddr c off amount))))))"

end
