(* ===== verification/Process.thy ===== *)
theory Process
  imports Pcb
begin

text \<open>
  The life of a process: the function its thread calls for every piece of mail, its deallocation,
  and its destruction by another thread (\<^verbatim>\<open>util/pcb_util.c\<close>, \<^verbatim>\<open>vmsim/pcb.c\<close>).
\<close>

text \<open>
  The local address has an indeterminate offset, the argument \<open>off\<close>. The mail box is emptied with
  one round more than there are posts as fuel. Destroying a locked mutex or one that does not
  exist has no counterpart; the mail mutex is free at that point.
\<close>

definition process_dealloc :: "u32 \<Rightarrow> sys_t \<Rightarrow> procid_t \<Rightarrow> (errcode_t \<times> sys_t) res" where
  "process_dealloc off sys pid =
     (let cont = sys_cont sys; mmu = vm_mmu (sys_vm sys) in
      rbind (pthread_mutex_lock (pc_mutex cont)) (\<lambda>(_, m).
      rbind (pc_proc cont pid) (\<lambda>this_proc.
      rbind (cassert (\<not> prc_junk this_proc)) (\<lambda>_.
      rbind (cassert (prc_del this_proc)) (\<lambda>_.
      rbind (pthread_mutex_lock (prc_mail_mutex this_proc)) (\<lambda>(_, mm).
      rbind (case prc_mail this_proc of None \<Rightarrow> Inl NullDeref
             | Some q \<Rightarrow> queue_drain (Suc (nat (queue_size q))) q) (\<lambda>q.
      rbind (pthread_mutex_unlock mm) (\<lambda>(_, mm').
      rbind (mmu_free_multiple off mmu \<lparr>va_pid = pid, va_page = 0, va_offset = off\<rparr>
               (sint (pc_prc_blk_size cont))) (\<lambda>(_, mmu1).
      rbind (disk_free_process_block (mmu_disk mmu1) (prc_disk_block_start this_proc)) (\<lambda>(_, disk).
      rbind (worker_thread_destroy (prc_thrd this_proc)) (\<lambda>_.
      rbind (cassert (prc_thrd_arg this_proc \<noteq> None)) (\<lambda>_.
      rbind (pc_upd pid (\<lambda>p. p\<lparr>prc_mail := None, prc_mail_mutex := mm', prc_junk := True,
                               prc_thrd_arg := None\<rparr>) cont) (\<lambda>cont1.
      rbind (pthread_mutex_unlock m) (\<lambda>(_, m').
      Inr (ecSuccess, sys\<lparr>sys_vm := (sys_vm sys)\<lparr>vm_mmu := mmu1\<lparr>mmu_disk := disk\<rparr>\<rparr>,
                           sys_cont := cont1\<lparr>pc_mutex := m'\<rparr>\<rparr>)))))))))))))))"

text \<open>The \<^verbatim>\<open>switch\<close>: whether the thread stops afterwards.\<close>

definition process_switch :: "u32 \<Rightarrow> bool \<Rightarrow> sys_t \<Rightarrow> procid_t \<Rightarrow> post_t \<Rightarrow> (bool \<times> sys_t) res" where
  "process_switch off fo sys pid post =
     (case po_func post of
        fcRead \<Rightarrow> rbind (read_decoder sys post) (\<lambda>(_, s). Inr (False, s))
      | fcLoopRead \<Rightarrow> rbind (loop_read_decoder sys post) (\<lambda>(_, s). Inr (False, s))
      | fcReadToFile \<Rightarrow> rbind (read_file_decoder fo sys post) (\<lambda>(_, s). Inr (False, s))
      | fcLoopReadToFile \<Rightarrow> rbind (loop_read_file_decoder fo sys post) (\<lambda>(_, s). Inr (False, s))
      | fcWrite \<Rightarrow> rbind (write_decoder sys post) (\<lambda>(_, s). Inr (False, s))
      | fcLoopWrite \<Rightarrow> rbind (loop_write_decoder sys post) (\<lambda>(_, s). Inr (False, s))
      | fcDel \<Rightarrow> rbind (process_dealloc off sys pid) (\<lambda>(_, s). Inr (True, s)))"

text \<open>With an empty mail box the thread waits for mail that only another thread can send.\<close>

definition process_func :: "u32 \<Rightarrow> bool \<Rightarrow> procid_t \<Rightarrow> sys_t \<Rightarrow> (bool \<times> sys_t) res" where
  "process_func off fo pid sys =
     rbind (pc_proc (sys_cont sys) pid) (\<lambda>this_proc.
     rbind (pthread_mutex_lock (prc_mail_mutex this_proc)) (\<lambda>(_, m).
     case prc_mail this_proc of None \<Rightarrow> Inl NullDeref
     | Some mail_box \<Rightarrow>
         if queue_size mail_box = 0 then Inl Deadlock
         else
           rbind (queue_pop mail_box) (\<lambda>(post, q).
           rbind (pthread_mutex_unlock m) (\<lambda>(_, m').
           rbind (pc_upd pid (\<lambda>p. p\<lparr>prc_mail := Some q, prc_mail_mutex := m'\<rparr>) (sys_cont sys)) (\<lambda>cont1.
           case post of None \<Rightarrow> Inl NullDeref
           | Some po \<Rightarrow> process_switch off fo (sys\<lparr>sys_cont := cont1\<rparr>) pid po)))))"

text \<open>\<^verbatim>\<open>process_start\<close> has been called and has got a thread.\<close>

definition has_thread :: "process_t \<Rightarrow> bool" where
  "has_thread p \<longleftrightarrow> prc_thrd_arg p \<noteq> None \<and> worker_thread_is_running (prc_thrd p)"

lemma has_thread_marks [simp]:
  "has_thread (p\<lparr>prc_mail := q\<rparr>) = has_thread p" "has_thread (p\<lparr>prc_del := b\<rparr>) = has_thread p"
  by (simp_all add: has_thread_def)

text \<open>
  The wait of \<^verbatim>\<open>process_destroy\<close> with the container's mutex given up: the thread of the process
  works on its mail until it has deallocated the process. Without a thread the wait never ends.
\<close>

primrec await_delete :: "nat \<Rightarrow> u32 \<Rightarrow> bool \<Rightarrow> procid_t \<Rightarrow> sys_t \<Rightarrow> sys_t res" where
  "await_delete 0 off fo pid sys = Inl Diverges"
| "await_delete (Suc k) off fo pid sys =
     rbind (pc_proc (sys_cont sys) pid) (\<lambda>p.
     if \<not> worker_thread_is_running (prc_thrd p) then Inl Deadlock
     else
       rbind (process_func off fo pid sys) (\<lambda>(stop, sys1).
       if stop then Inr sys1 else await_delete k off fo pid sys1))"

definition process_destroy :: "u32 \<Rightarrow> bool \<Rightarrow> sys_t \<Rightarrow> procid_t \<Rightarrow> (errcode_t \<times> sys_t) res" where
  "process_destroy off fo sys pid =
     (let cont = sys_cont sys in
      rbind (pthread_mutex_lock (pc_mutex cont)) (\<lambda>(_, m).
      if pid \<ge> pc_max_num_of_proc cont then
        rbind (pthread_mutex_unlock m) (\<lambda>(_, m'). Inr (ecFail, sys\<lparr>sys_cont := cont\<lparr>pc_mutex := m'\<rparr>\<rparr>))
      else
        rbind (pc_proc cont pid) (\<lambda>this_proc.
        if prc_junk this_proc then
          rbind (pthread_mutex_unlock m) (\<lambda>(_, m'). Inr (ecNotFound, sys\<lparr>sys_cont := cont\<lparr>pc_mutex := m'\<rparr>\<rparr>))
        else
          rbind (compose_mail cont pid (create_post fcDel [] 0)) (\<lambda>(_, cont1).
          rbind (pc_upd pid (\<lambda>p. p\<lparr>prc_del := True\<rparr>) cont1) (\<lambda>cont2.
          rbind (pthread_mutex_unlock m) (\<lambda>(_, m').
          rbind (await_delete (Suc (case prc_mail this_proc of None \<Rightarrow> 0 | Some q \<Rightarrow> nat (queue_size q)))
                   off fo pid (sys\<lparr>sys_cont := cont2\<lparr>pc_mutex := m'\<rparr>\<rparr>)) (\<lambda>sys1.
          rbind (pthread_mutex_lock (pc_mutex (sys_cont sys1))) (\<lambda>(_, m1).
          rbind (pthread_mutex_unlock m1) (\<lambda>(_, m2).
          Inr (ecSuccess, sys1\<lparr>sys_cont := (sys_cont sys1)\<lparr>pc_mutex := m2\<rparr>\<rparr>))))))))))"

end
