(* ===== verification/Text.thy ===== *)
theory Text
  imports Prelude
begin

text \<open>
  Text as lists of bytes: the conversions of \<^verbatim>\<open>printf\<close> and \<^verbatim>\<open>sscanf\<close> that the source uses,
  \<^verbatim>\<open>strtok\<close> with a blank, and the logger (\<^verbatim>\<open>util/logger.c\<close>).
\<close>

subsection \<open>Printing\<close>

definition ascii :: "string \<Rightarrow> byte list" where
  "ascii s = map of_char s"

lemma unat_byte: "n < 256 \<Longrightarrow> unat (of_nat n :: byte) = n"
  by (simp add: unat_of_nat take_bit_nat_eq_self)

lemma of_char_byte_eq: "(of_char c :: byte) = of_char d \<longleftrightarrow> c = d"
proof -
  have "unat (of_char x :: byte) = (of_char x :: nat)" for x
  proof -
    have "(of_char x :: byte) = of_nat (of_char x :: nat)" by (simp only: of_nat_of_char)
    moreover have "(of_char x :: nat) < 256" by (rule nat_of_char_less_256)
    ultimately show ?thesis by (simp only: unat_byte)
  qed
  then show ?thesis by (metis of_char_eq_iff)
qed

lemma ascii_eq [simp]: "ascii s = ascii t \<longleftrightarrow> s = t"
  unfolding ascii_def using inj_map_eq_map [of "of_char :: char \<Rightarrow> byte"] of_char_byte_eq by (auto simp: inj_def)

text \<open>The digit \<open>d\<close> of a base up to 16.\<close>

definition digit :: "nat \<Rightarrow> byte" where
  "digit d = (if d < 10 then of_nat (48 + d) else of_nat (87 + d))"

function to_base :: "nat \<Rightarrow> nat \<Rightarrow> byte list" where
  "to_base b n = (if b < 2 \<or> n < b then [digit n] else to_base b (n div b) @ [digit (n mod b)])"
  by auto
termination by (relation "measure snd") auto

declare to_base.simps [simp del]

definition fmt_u :: "u32 \<Rightarrow> byte list" where
  "fmt_u w = to_base 10 (unat w)"

definition fmt_x :: "nat \<Rightarrow> byte list" where
  "fmt_x n = to_base 16 n"

definition fmt_d :: "int \<Rightarrow> byte list" where
  "fmt_d i = (if i < 0 then 45 # to_base 10 (nat (- i)) else to_base 10 (nat i))"

text \<open>\<^verbatim>\<open>%3d\<close>: blanks in front.\<close>

definition fmt_3d :: "int \<Rightarrow> byte list" where
  "fmt_3d i = replicate (3 - length (fmt_d i)) 32 @ fmt_d i"

subsection \<open>Scanning\<close>

definition isspace :: "byte \<Rightarrow> bool" where
  "isspace c \<longleftrightarrow> c = 32 \<or> (9 \<le> c \<and> c \<le> 13)"

definition isdigit :: "byte \<Rightarrow> bool" where
  "isdigit c \<longleftrightarrow> 48 \<le> c \<and> c \<le> 57"

definition number :: "byte list \<Rightarrow> nat" where
  "number ds = foldl (\<lambda>n c. 10 * n + unat (c - 48)) 0 ds"

text \<open>
  \<^verbatim>\<open>sscanf(s, " %u ", &n)\<close>, as the C library on Linux does it: a number that does not fit 64 bits
  becomes the largest one, a sign negates, the result is cut to 32 bits. \<open>None\<close>: no number is
  there, and the return value is not positive.
\<close>

definition scan_u :: "byte list \<Rightarrow> u32 option" where
  "scan_u s =
     (let t = dropWhile isspace s;
          neg = (t \<noteq> [] \<and> hd t = 45);
          ds = takeWhile isdigit (if t \<noteq> [] \<and> (hd t = 43 \<or> hd t = 45) then tl t else t)
      in if ds = [] then None
         else Some (if number ds \<ge> 2 ^ 64 then - 1
                    else if neg then - of_nat (number ds) else of_nat (number ds)))"

text \<open>What \<^verbatim>\<open>fscanf\<close> with \<^verbatim>\<open>%u\<close> leaves of the file; a sign without a number is lost.\<close>

definition scan_rest :: "byte list \<Rightarrow> byte list" where
  "scan_rest s =
     (let t = dropWhile isspace s
      in dropWhile isdigit (if t \<noteq> [] \<and> (hd t = 43 \<or> hd t = 45) then tl t else t))"

text \<open>The text in a format: a blank stands for any number of blanks. Whether it is there, and the rest.\<close>

primrec scan_lit :: "byte list \<Rightarrow> byte list \<Rightarrow> bool \<times> byte list" where
  "scan_lit [] s = (True, s)"
| "scan_lit (c # f) s =
     (if isspace c then scan_lit f (dropWhile isspace s)
      else case s of [] \<Rightarrow> (False, []) | x # t \<Rightarrow> if x = c then scan_lit f t else (False, s))"

text \<open>\<^verbatim>\<open>fscanf(f, "NAME = %u\n", &v)\<close> on what is left of a file; without a number \<open>v\<close> stays.\<close>

definition scan_setting :: "byte list \<Rightarrow> u32 \<Rightarrow> byte list \<Rightarrow> u32 \<times> byte list" where
  "scan_setting f old s =
     (case scan_lit f s of
        (False, s1) \<Rightarrow> (old, s1)
      | (True, s1) \<Rightarrow> (case scan_u s1 of
            None \<Rightarrow> (old, scan_rest s1)
          | Some v \<Rightarrow> (v, dropWhile isspace (scan_rest s1))))"

text \<open>\<^verbatim>\<open>sscanf(s, "%14s", buf)\<close>: the word, nothing when there is none.\<close>

definition scan_word :: "nat \<Rightarrow> byte list \<Rightarrow> byte list" where
  "scan_word n s = take n (takeWhile (\<lambda>c. \<not> isspace c) (dropWhile isspace s))"

text \<open>The tokens that repeated calls of \<^verbatim>\<open>strtok\<close> with \<^verbatim>\<open>" "\<close> return.\<close>

function tokens :: "byte list \<Rightarrow> byte list list" where
  "tokens s = (if dropWhile (\<lambda>c. c = 32) s = [] then []
     else takeWhile (\<lambda>c. c \<noteq> 32) (dropWhile (\<lambda>c. c = 32) s) #
          tokens (dropWhile (\<lambda>c. c \<noteq> 32) (dropWhile (\<lambda>c. c = 32) s)))"
  by auto
termination
proof (relation "measure length", goal_cases)
  case (2 s)
  obtain c t where ct: "dropWhile (\<lambda>c. c = 32) s = c # t" using 2 by (cases "dropWhile (\<lambda>c. c = 32) s") auto
  then have "c \<noteq> 32" using hd_dropWhile [of "\<lambda>c. c = 32" s] by auto
  moreover have "length (c # t) \<le> length s" unfolding ct [symmetric] by (rule length_dropWhile_le)
  moreover have "length (dropWhile (\<lambda>c. c \<noteq> 32) t) \<le> length t" by (rule length_dropWhile_le)
  ultimately show ?case by (simp add: ct)
qed simp

declare tokens.simps [simp del]

text \<open>The text up to the terminating 0.\<close>

definition cstr :: "byte list \<Rightarrow> byte list" where
  "cstr s = takeWhile (\<lambda>c. c \<noteq> 0) s"

text \<open>\<^verbatim>\<open>fgets(buf, n, f)\<close> on what is left of a file: at most \<open>n - 1\<close> bytes, up to a newline and with it.\<close>

primrec take_line :: "nat \<Rightarrow> byte list \<Rightarrow> byte list \<times> byte list" where
  "take_line 0 s = ([], s)"
| "take_line (Suc n) s = (case s of [] \<Rightarrow> ([], [])
     | c # t \<Rightarrow> if c = 10 then ([c], t) else (let (l, r) = take_line n t in (c # l, r)))"

definition fgets :: "nat \<Rightarrow> byte list \<Rightarrow> (byte list \<times> byte list) option" where
  "fgets n s = (if s = [] then None else Some (take_line (n - 1) s))"

subsection \<open>The logger\<close>

datatype log_level_t = lvDebug | lvInfo | lvError

fun log_rank :: "log_level_t \<Rightarrow> nat" where
  "log_rank lvDebug = 0"
| "log_rank lvInfo = 1"
| "log_rank lvError = 2"

text \<open>The levels are compared as the numbers of the enumeration.\<close>

instantiation log_level_t :: linorder
begin

definition less_eq_log_level_t :: "log_level_t \<Rightarrow> log_level_t \<Rightarrow> bool" where
  "less_eq_log_level_t a b = (log_rank a \<le> log_rank b)"

definition less_log_level_t :: "log_level_t \<Rightarrow> log_level_t \<Rightarrow> bool" where
  "less_log_level_t a b = (log_rank a < log_rank b)"

lemma log_rank_inject: "log_rank a = log_rank b \<longleftrightarrow> a = b"
  by (cases a; cases b) simp_all

instance
  by standard (auto simp: less_eq_log_level_t_def less_log_level_t_def log_rank_inject)

end

lemma log_levels [simp]: "lvDebug \<le> l" "l \<le> lvError" "\<not> lvInfo \<le> lvDebug" "\<not> lvError \<le> lvInfo" "\<not> lvError \<le> lvDebug"
  by (cases l; simp add: less_eq_log_level_t_def)+

text \<open>
  \<open>g_log_level\<close> is the argument \<open>cur\<close>; the message is given with its arguments filled in; \<open>tid\<close> is
  what the system says about the thread.
\<close>

definition log_write :: "int \<Rightarrow> log_level_t \<Rightarrow> string \<Rightarrow> int \<Rightarrow> string \<Rightarrow> log_level_t \<Rightarrow> byte list \<Rightarrow> byte list" where
  "log_write tid cur file line func level message =
     (if level \<ge> cur
      then ascii ''['' @ fmt_d tid @ ascii '']'' @ ascii file @ ascii ''('' @ fmt_d line @ ascii '') '' @ ascii func @ ascii '':'' @ message
      else [])"

definition log_set_level :: "log_level_t \<Rightarrow> log_level_t \<Rightarrow> log_level_t" where
  "log_set_level level cur = level"

text \<open>A message is shown when its level is not below the current one, and lowering the current one shows more.\<close>

lemma log_write_shown: "log_write tid cur file line func level message \<noteq> [] \<longleftrightarrow> cur \<le> level"
  by (simp add: log_write_def ascii_def)

lemma log_write_mono:
  "new \<le> cur \<Longrightarrow> log_write tid cur file line func level message \<noteq> [] \<Longrightarrow>
   log_write tid (log_set_level new cur) file line func level message = log_write tid cur file line func level message"
  by (auto simp: log_write_def log_set_level_def split: if_splits)

subsection \<open>Numbers are read back\<close>

lemma digit_facts:
  assumes "d < 10"
  shows "isdigit (digit d)" "unat (digit d - 48) = d" "\<not> isspace (digit d)" "digit d \<noteq> 43" "digit d \<noteq> 45" "digit d \<noteq> 32"
proof -
  have u: "unat (digit d) = 48 + d" unfolding digit_def using assms unat_byte [of "48 + d"] by simp
  have ge: "48 \<le> digit d" "digit d \<le> 57" using u assms by (simp_all add: word_le_nat_alt)
  show "isdigit (digit d)" using ge by (simp add: isdigit_def)
  show "unat (digit d - 48) = d" using ge(1) u by (simp add: unat_sub)
  show "\<not> isspace (digit d)" "digit d \<noteq> 43" "digit d \<noteq> 45" "digit d \<noteq> 32"
    using u by (auto simp: isspace_def word_le_nat_alt)
qed

lemma number_snoc: "number (ds @ [c]) = 10 * number ds + unat (c - 48)"
  by (simp add: number_def)

lemma to_base_10: "list_all isdigit (to_base 10 n) \<and> to_base 10 n \<noteq> [] \<and> number (to_base 10 n) = n"
proof (induction n rule: less_induct)
  case (less n)
  show ?case
  proof (cases "n < 10")
    case True
    then have "to_base 10 n = [digit n]" by (subst to_base.simps) simp
    then show ?thesis using digit_facts [OF True] by (simp add: number_def)
  next
    case False
    then have eq: "to_base 10 n = to_base 10 (n div 10) @ [digit (n mod 10)]" by (subst to_base.simps) simp
    have d: "n mod 10 < 10" by simp
    have ih: "list_all isdigit (to_base 10 (n div 10))" "number (to_base 10 (n div 10)) = n div 10"
      using less.IH [of "n div 10"] False by simp_all
    have "number (to_base 10 n) = n" unfolding eq number_snoc ih(2) digit_facts(2) [OF d] by simp
    then show ?thesis using ih(1) digit_facts(1) [OF d] by (simp add: eq)
  qed
qed

lemma isdigit_facts: "isdigit c \<Longrightarrow> \<not> isspace c \<and> c \<noteq> 43 \<and> c \<noteq> 45 \<and> c \<noteq> 32 \<and> c \<noteq> 0"
  by (auto simp: isdigit_def isspace_def word_le_nat_alt)

lemma scan_fmt_u: "scan_u (fmt_u w) = Some w"
proof -
  let ?ds = "to_base 10 (unat w)"
  have T: "list_all isdigit ?ds" "?ds \<noteq> []" "number ?ds = unat w" using to_base_10 by blast+
  have h: "isdigit (hd ?ds)" using T(1,2) by (cases ?ds) simp_all
  have skip: "dropWhile isspace ?ds = ?ds" using h T(2) isdigit_facts by (cases ?ds) auto
  have all: "takeWhile isdigit ?ds = ?ds" using T(1) by (auto simp: takeWhile_eq_all_conv list_all_iff)
  have "unat w < 2 ^ 64" using unat_bound [of w] by simp
  then show ?thesis
    using T(2,3) isdigit_facts [OF h] by (simp add: scan_u_def fmt_u_def skip all Let_def)
qed

lemma number_list: "list_all isdigit (to_base 10 n)" "to_base 10 n \<noteq> []" "number (to_base 10 n) = n"
  using to_base_10 [of n] by blast+

text \<open>A number in a file, up to something that is no digit.\<close>

lemma scan_number:
  assumes "r = [] \<or> \<not> isdigit (hd r)"
  shows "scan_u (fmt_u w @ r) = Some w" "scan_rest (fmt_u w @ r) = r"
proof -
  let ?ds = "to_base 10 (unat w)"
  obtain d ds where d: "?ds = d # ds" "isdigit d" using number_list(1,2) [of "unat w"] by (cases ?ds) auto
  have all: "\<And>x. x \<in> set ?ds \<Longrightarrow> isdigit x" using number_list(1) [of "unat w"] by (simp add: list_all_iff)
  define t where "t = ?ds @ r"
  have skip: "dropWhile isspace t = t" "hd t \<noteq> 43" "hd t \<noteq> 45" "t \<noteq> []"
    using isdigit_facts [OF d(2)] by (simp_all add: t_def d(1))
  have take: "takeWhile isdigit t = ?ds" "dropWhile isdigit t = r"
    unfolding t_def using all assms by (cases r; simp add: takeWhile_append dropWhile_append takeWhile_eq_all_conv dropWhile_eq_Nil_conv)+
  have "unat w < 2 ^ 64" using unat_bound [of w] by simp
  then show "scan_u (fmt_u w @ r) = Some w"
    using number_list(2,3) [of "unat w"] unfolding scan_u_def fmt_u_def Let_def t_def [symmetric] by (simp add: skip take)
  show "scan_rest (fmt_u w @ r) = r" unfolding scan_rest_def fmt_u_def Let_def t_def [symmetric] by (simp add: skip take)
qed

lemma scan_setting_text:
  assumes "\<And>s. s = [] \<or> \<not> isspace (hd s) \<Longrightarrow> scan_lit f (f @ s) = (True, s)" "r = [] \<or> \<not> isspace (hd r)"
  shows "scan_setting f old (f @ fmt_u w @ 10 # r) = (w, r)"
proof -
  have nl: "\<not> isdigit 10" "isspace 10" by (simp_all add: isdigit_def isspace_def)
  have "isdigit (hd (fmt_u w))" "fmt_u w \<noteq> []" using number_list [of "unat w"] by (cases "fmt_u w"; simp add: fmt_u_def)+
  then have "scan_lit f (f @ fmt_u w @ 10 # r) = (True, fmt_u w @ 10 # r)"
    using assms(1) [of "fmt_u w @ 10 # r"] isdigit_facts [of "hd (fmt_u w)"] by simp
  moreover have "dropWhile isspace r = r" using assms(2) by (cases r) simp_all
  ultimately show ?thesis using scan_number [of "10 # r" w] nl by (simp add: scan_setting_def)
qed

text \<open>Words separated by single blanks.\<close>

fun spaced :: "byte list list \<Rightarrow> byte list" where
  "spaced [] = []"
| "spaced [t] = t"
| "spaced (t # ts) = t @ 32 # spaced ts"

definition word_ok :: "byte list \<Rightarrow> bool" where
  "word_ok t \<longleftrightarrow> t \<noteq> [] \<and> 32 \<notin> set t"

lemma tokens_Nil [simp]: "tokens [] = []"
  by (simp add: tokens.simps)

lemma tokens_word:
  assumes "word_ok t" "s = [] \<or> hd s = 32"
  shows "tokens (t @ s) = t # tokens s"
proof -
  obtain c t' where t: "t = c # t'" "c \<noteq> 32" "32 \<notin> set t'" using assms(1) by (cases t) (auto simp: word_ok_def)
  have "takeWhile (\<lambda>c. c \<noteq> 32) (t @ s) = t" "dropWhile (\<lambda>c. c \<noteq> 32) (t @ s) = s"
    using assms by (cases s; auto simp: word_ok_def takeWhile_append dropWhile_append)+
  then show ?thesis using t by (subst tokens.simps) simp
qed

lemma tokens_blank: "tokens (32 # s) = tokens s"
  by (subst (1 2) tokens.simps) simp

lemma tokens_spaced: "list_all word_ok ts \<Longrightarrow> tokens (spaced ts) = ts"
proof (induction ts rule: spaced.induct)
  case (2 t)
  then show ?case using tokens_word [of t "[]"] by simp
next
  case (3 t u us)
  then show ?case using tokens_word [of t "32 # spaced (u # us)"] by (simp add: tokens_blank)
qed simp

lemma fmt_u_word: "word_ok (fmt_u w)"
  using to_base_10 [of "unat w"] isdigit_facts by (auto simp: word_ok_def fmt_u_def list_all_iff)

lemma to_base_length: "n < 10 ^ Suc k \<Longrightarrow> length (to_base 10 n) \<le> Suc k"
proof (induction k arbitrary: n)
  case 0
  then show ?case by (subst to_base.simps) simp
next
  case (Suc k)
  show ?case
  proof (cases "n < 10")
    case True
    then show ?thesis by (subst to_base.simps) simp
  next
    case False
    have "n div 10 < 10 ^ Suc k" using Suc.prems by (simp add: div_less_iff_less_mult)
    then show ?thesis using Suc.IH [of "n div 10"] False by (subst to_base.simps) simp
  qed
qed

lemma fmt_u_length: "length (fmt_u w) \<le> 10"
proof -
  have "unat w < 2 ^ 32" using unat_bound [of w] by simp
  then have "unat w < 10 ^ Suc 9" by simp
  then show ?thesis unfolding fmt_u_def using to_base_length [of "unat w" 9] by simp
qed

lemma spaced_all: "P 32 \<Longrightarrow> list_all (list_all P) ts \<Longrightarrow> list_all P (spaced ts)"
  by (induction ts rule: spaced.induct) simp_all

lemma spaced_length: "length (spaced ts) \<le> sum_list (map (\<lambda>t. Suc (length t)) ts)"
  by (induction ts rule: spaced.induct) simp_all

end
