(* ===== verification/App.thy ===== *)
theory App
  imports Process Text
begin

text \<open>
  \<^verbatim>\<open>util/app_util.c\<close>: building the simulator from a configuration, taking it down, sending the
  requests of the user to the processes, and the text of the dumps. Strings that are printed are
  lists of characters.
\<close>

subsection \<open>Start and end\<close>

text \<open>The six numbers of the configuration file, as \<^verbatim>\<open>fscanf\<close> read them.\<close>

record config_t =
  cf_nproc :: u32
  cf_page_size :: u32
  cf_n_page_mm :: u32
  cf_n_page_disk :: u32
  cf_n_proc_pages :: u32
  cf_shift_clock :: u32

text \<open>What the system answers: allocations of the three blocks, the bitmap, the entries, the HAT,
  the queue nodes, and the two threads.\<close>

record env_t =
  en_disk :: "nat option"
  en_bitmap :: bool
  en_mm :: "nat option"
  en_entries :: bool
  en_hat :: bool
  en_oom :: "nat \<Rightarrow> bool"
  en_rwlock :: int
  en_prm_thread :: int
  en_aging_thread :: int

record app_data_t =
  app_initialized :: bool
  app_page_size :: u32
  app_num_of_proc_page :: u32
  app_shift_clock :: u32
  app_sys :: sys_t

text \<open>What is printed goes to the standard output.\<close>

definition say :: "byte list \<Rightarrow> sys_t \<Rightarrow> sys_t" where
  "say t sys = sys\<lparr>sys_out := sys_out sys @ [(None, t)]\<rparr>"

lemma say_simps [simp]:
  "sys_vm (say t sys) = sys_vm sys" "sys_cont (say t sys) = sys_cont sys" "sys_job (say t sys) = sys_job sys"
  "sys_out (say t sys) = sys_out sys @ [(None, t)]"
  by (simp_all add: say_def)

text \<open>The configuration file; \<open>junk\<close> is what the local variables held before.\<close>

definition scan_config :: "config_t \<Rightarrow> byte list \<Rightarrow> config_t" where
  "scan_config junk f0 =
     (let (nproc, f1) = scan_setting (ascii ''MaxNumOfProcesses = '') (cf_nproc junk) f0;
          (page_size, f2) = scan_setting (ascii ''PageSize = '') (cf_page_size junk) f1;
          (n_page_mm, f3) = scan_setting (ascii ''NumOfPagesInMM = '') (cf_n_page_mm junk) f2;
          (n_page_disk, f4) = scan_setting (ascii ''NumOfPagesInDisk = '') (cf_n_page_disk junk) f3;
          (n_proc_pages, f5) = scan_setting (ascii ''NumOfProcessPages = '') (cf_n_proc_pages junk) f4;
          (shift_clock, _) = scan_setting (ascii ''ShiftClock = '') (cf_shift_clock junk) f5
      in \<lparr>cf_nproc = nproc, cf_page_size = page_size, cf_n_page_mm = n_page_mm, cf_n_page_disk = n_page_disk,
          cf_n_proc_pages = n_proc_pages, cf_shift_clock = shift_clock\<rparr>)"

text \<open>
  What is built from the numbers. \<open>app\<close> and the records in it hold what the memory held before. The
  results of \<^verbatim>\<open>disk_init\<close>, \<^verbatim>\<open>mm_init\<close> and \<^verbatim>\<open>mmu_init\<close> are not looked at.
\<close>

definition load_config :: "env_t \<Rightarrow> config_t \<Rightarrow> app_data_t \<Rightarrow> (bool \<times> app_data_t) res" where
  "load_config env cf app =
     (let vm = sys_vm (app_sys app);
          (_, disk) = disk_init (en_disk env) (en_bitmap env) (mmu_disk (vm_mmu vm))
                        (sint (cf_n_page_disk cf)) (sint (cf_page_size cf)) (sint (cf_n_proc_pages cf));
          (_, mm) = mm_init (en_mm env) (mmu_mem (vm_mmu vm)) (sint (cf_n_page_mm cf)) (sint (cf_page_size cf))
      in rbind (mmu_init (en_entries env) (en_hat env) (en_oom env) (en_rwlock env) (vm_mmu vm) mm disk
                  (sint (cf_shift_clock cf))) (\<lambda>(_, mmu).
         let cont = init_proc_cont (sint (cf_nproc cf)) (sint (cf_n_proc_pages cf))
         in rbind (prm_init (en_oom env) (en_prm_thread env) (vm_prm vm)) (\<lambda>(err, prm).
            rbind (cassert (err = ecSuccess)) (\<lambda>_.
            let (err, ag) = aging_daemon_start (en_aging_thread env) (vm_aging vm)
            in rbind (cassert (err = ecSuccess)) (\<lambda>_.
               Inr (True, \<lparr>app_initialized = True, app_page_size = cf_page_size cf,
                 app_num_of_proc_page = cf_n_proc_pages cf, app_shift_clock = cf_shift_clock cf,
                 app_sys = (app_sys app)\<lparr>sys_vm := \<lparr>vm_mmu = mmu, vm_prm = prm, vm_aging = ag\<rparr>,
                                         sys_cont := cont\<rparr>\<rparr>))))))"

text \<open>\<open>file\<close> holds the bytes of the file, \<open>None\<close> when it could not be opened.\<close>

definition load_app_data :: "env_t \<Rightarrow> byte list \<Rightarrow> byte list option \<Rightarrow> config_t \<Rightarrow> app_data_t \<Rightarrow> (bool \<times> app_data_t) res" where
  "load_app_data env file_name file junk app =
     (if app_initialized app then
        Inr (False, app\<lparr>app_sys := say (ascii ''Data already initialized'') (app_sys app)\<rparr>)
      else case file of
        None \<Rightarrow> Inr (False, app\<lparr>app_sys := say (ascii ''File not found: '' @ file_name) (app_sys app)\<rparr>)
      | Some f \<Rightarrow> load_config env (scan_config junk f) app)"

text \<open>\<^verbatim>\<open>for (pid = 0; pid < max; ++pid) process_destroy(cont, pid);\<close>\<close>

primrec destroy_all :: "nat \<Rightarrow> u32 \<Rightarrow> u32 \<Rightarrow> bool \<Rightarrow> sys_t \<Rightarrow> sys_t res" where
  "destroy_all 0 pid off fo sys = Inr sys"
| "destroy_all (Suc n) pid off fo sys =
     rbind (process_destroy off fo sys pid) (\<lambda>(_, sys1). destroy_all n (pid + 1) off fo sys1)"

text \<open>What is left of the container, and what has been printed: a process that is deleted does its mail first.\<close>

definition free_app_data :: "u32 \<Rightarrow> bool \<Rightarrow> app_data_t \<Rightarrow>
    (proc_cont_t option \<times> (byte list option \<times> byte list) list) res" where
  "free_app_data off fo app =
     (let sys = app_sys app in
      rbind (destroy_all (unat (pc_max_num_of_proc (sys_cont sys))) 0 off fo sys) (\<lambda>sys1.
      let vm = sys_vm sys1 in
      rbind (prm_destroy (vm_prm vm)) (\<lambda>_.
      let ag = aging_daemon_stop (vm_aging vm) in
      rbind (mmu_destroy (vm_mmu vm)) (\<lambda>mmu.
      rbind (mm_destroy (mmu_mem mmu)) (\<lambda>_.
      rbind (disk_destroy (mmu_disk mmu)) (\<lambda>_.
      rbind (proc_cont_destroy (Some (sys_cont sys1))) (\<lambda>(_, c). Inr (c, sys_out sys1))))))))"

definition create_process :: "u32 \<Rightarrow> (nat \<Rightarrow> bool) \<Rightarrow> sys_t \<Rightarrow> (int \<times> sys_t) res" where
  "create_process off oom sys =
     rbind (init_process off oom (vm_mmu (sys_vm sys)) (sys_cont sys)) (\<lambda>(pid, mmu, cont).
     Inr (pid, say (if pid < 0 then ascii ''ERR: A process could not be created: error-'' @ fmt_d pid @ [10]
                    else ascii ''Process with id '' @ fmt_u (word_of_int pid) @ ascii '' was created'' @ [10])
                 (sys\<lparr>sys_vm := (sys_vm sys)\<lparr>vm_mmu := mmu\<rparr>, sys_cont := cont\<rparr>)))"

definition del_process :: "u32 \<Rightarrow> bool \<Rightarrow> sys_t \<Rightarrow> procid_t \<Rightarrow> (errcode_t \<times> sys_t) res" where
  "del_process off fo sys pid =
     rbind (process_destroy off fo sys pid) (\<lambda>(err, sys1).
     Inr (err, say (case err of
         ecFail \<Rightarrow> ascii ''Process id '' @ fmt_u pid @ ascii '' is not within range'' @ [10]
       | ecNotFound \<Rightarrow> ascii ''Process '' @ fmt_u pid @ ascii '' was not found'' @ [10]
       | ecSuccess \<Rightarrow> ascii ''Process '' @ fmt_u pid @ ascii '' was deleted'' @ [10]) sys1))"

subsection \<open>Requests\<close>

text \<open>The end that the six requests share: compose the post, send it, and say when that failed.\<close>

definition send_post :: "sys_t \<Rightarrow> int \<Rightarrow> func_t \<Rightarrow> post_arg list \<Rightarrow> int \<Rightarrow> (errcode_t \<times> sys_t) res" where
  "send_post sys pid func args nargs =
     rbind (compose_mail (sys_cont sys) (word_of_int pid) (create_post func args nargs)) (\<lambda>(err, cont).
     Inr (err, (case err of
         ecSuccess \<Rightarrow> sys\<lparr>sys_cont := cont\<rparr>
       | ecNotFound \<Rightarrow> say (ascii ''ERROR: a process with pid '' @ fmt_d pid @ ascii '' could not be found'' @ [10])
                         (sys\<lparr>sys_cont := cont\<rparr>)
       | ecFail \<Rightarrow> say (ascii ''ERROR: couldn'' @ [39] @ ascii ''t send message'' @ [10]) (sys\<lparr>sys_cont := cont\<rparr>))))"

abbreviation sys_page_size :: "sys_t \<Rightarrow> int" where
  "sys_page_size sys \<equiv> mm_page_size (mmu_mem (vm_mmu (sys_vm sys)))"

definition read_process :: "sys_t \<Rightarrow> int \<Rightarrow> int \<Rightarrow> int \<Rightarrow> (errcode_t \<times> sys_t) res" where
  "read_process sys vaddr pid amount =
     send_post sys pid fcRead [PAddr (make_virt_addr vaddr (sys_page_size sys) pid), PInt amount] 2"

definition loop_read_process :: "sys_t \<Rightarrow> int \<Rightarrow> int \<Rightarrow> int \<Rightarrow> int \<Rightarrow> (errcode_t \<times> sys_t) res" where
  "loop_read_process sys vaddr pid off amount =
     send_post sys pid fcLoopRead
       [PAddr (make_virt_addr vaddr (sys_page_size sys) pid), PInt off, PInt amount] 3"

definition read_to_file_process :: "sys_t \<Rightarrow> int \<Rightarrow> int \<Rightarrow> int \<Rightarrow> byte list \<Rightarrow> (errcode_t \<times> sys_t) res" where
  "read_to_file_process sys vaddr pid amount file_name =
     send_post sys pid fcReadToFile
       [PAddr (make_virt_addr vaddr (sys_page_size sys) pid), PInt amount, PStr file_name] 3"

definition loop_read_to_file_process ::
  "sys_t \<Rightarrow> int \<Rightarrow> int \<Rightarrow> int \<Rightarrow> int \<Rightarrow> byte list \<Rightarrow> (errcode_t \<times> sys_t) res" where
  "loop_read_to_file_process sys vaddr pid off amount file_name =
     send_post sys pid fcLoopReadToFile
       [PAddr (make_virt_addr vaddr (sys_page_size sys) pid), PInt off, PInt amount, PStr file_name] 4"

definition write_process :: "sys_t \<Rightarrow> int \<Rightarrow> int \<Rightarrow> byte list \<Rightarrow> (errcode_t \<times> sys_t) res" where
  "write_process sys vaddr pid s =
     send_post sys pid fcWrite
       [PAddr (make_virt_addr vaddr (sys_page_size sys) pid), PStr s, PInt (int (length s))] 3"

definition loop_write_process :: "sys_t \<Rightarrow> int \<Rightarrow> int \<Rightarrow> byte \<Rightarrow> int \<Rightarrow> int \<Rightarrow> (errcode_t \<times> sys_t) res" where
  "loop_write_process sys vaddr pid c off amount =
     send_post sys pid fcLoopWrite
       [PAddr (make_virt_addr vaddr (sys_page_size sys) pid), PChar c, PInt off, PInt amount] 4"

subsection \<open>The configuration is read back\<close>

definition config_text :: "config_t \<Rightarrow> byte list" where
  "config_text cf =
     ascii ''MaxNumOfProcesses = '' @ fmt_u (cf_nproc cf) @ [10] @
     ascii ''PageSize = '' @ fmt_u (cf_page_size cf) @ [10] @
     ascii ''NumOfPagesInMM = '' @ fmt_u (cf_n_page_mm cf) @ [10] @
     ascii ''NumOfPagesInDisk = '' @ fmt_u (cf_n_page_disk cf) @ [10] @
     ascii ''NumOfProcessPages = '' @ fmt_u (cf_n_proc_pages cf) @ [10] @
     ascii ''ShiftClock = '' @ fmt_u (cf_shift_clock cf) @ [10]"

lemma scan_lit_ascii:
  assumes "s = [] \<or> \<not> isspace (hd s)"
  shows "scan_lit (ascii ''MaxNumOfProcesses = '') (ascii ''MaxNumOfProcesses = '' @ s) = (True, s)"
    "scan_lit (ascii ''PageSize = '') (ascii ''PageSize = '' @ s) = (True, s)"
    "scan_lit (ascii ''NumOfPagesInMM = '') (ascii ''NumOfPagesInMM = '' @ s) = (True, s)"
    "scan_lit (ascii ''NumOfPagesInDisk = '') (ascii ''NumOfPagesInDisk = '' @ s) = (True, s)"
    "scan_lit (ascii ''NumOfProcessPages = '') (ascii ''NumOfProcessPages = '' @ s) = (True, s)"
    "scan_lit (ascii ''ShiftClock = '') (ascii ''ShiftClock = '' @ s) = (True, s)"
proof -
  have "dropWhile isspace s = s" using assms by (cases s) simp_all
  then show "scan_lit (ascii ''MaxNumOfProcesses = '') (ascii ''MaxNumOfProcesses = '' @ s) = (True, s)"
    "scan_lit (ascii ''PageSize = '') (ascii ''PageSize = '' @ s) = (True, s)"
    "scan_lit (ascii ''NumOfPagesInMM = '') (ascii ''NumOfPagesInMM = '' @ s) = (True, s)"
    "scan_lit (ascii ''NumOfPagesInDisk = '') (ascii ''NumOfPagesInDisk = '' @ s) = (True, s)"
    "scan_lit (ascii ''NumOfProcessPages = '') (ascii ''NumOfProcessPages = '' @ s) = (True, s)"
    "scan_lit (ascii ''ShiftClock = '') (ascii ''ShiftClock = '' @ s) = (True, s)"
    by (simp_all add: ascii_def isspace_def of_char_def)
qed

lemma ascii_head:
  "ascii (c # cs) \<noteq> []" "hd (ascii (c # cs)) = of_char c"
  by (simp_all add: ascii_def)

lemma settings:
  assumes "r = [] \<or> \<not> isspace (hd r)"
  shows "scan_setting (ascii ''MaxNumOfProcesses = '') old (ascii ''MaxNumOfProcesses = '' @ fmt_u w @ 10 # r) = (w, r)"
    "scan_setting (ascii ''PageSize = '') old (ascii ''PageSize = '' @ fmt_u w @ 10 # r) = (w, r)"
    "scan_setting (ascii ''NumOfPagesInMM = '') old (ascii ''NumOfPagesInMM = '' @ fmt_u w @ 10 # r) = (w, r)"
    "scan_setting (ascii ''NumOfPagesInDisk = '') old (ascii ''NumOfPagesInDisk = '' @ fmt_u w @ 10 # r) = (w, r)"
    "scan_setting (ascii ''NumOfProcessPages = '') old (ascii ''NumOfProcessPages = '' @ fmt_u w @ 10 # r) = (w, r)"
    "scan_setting (ascii ''ShiftClock = '') old (ascii ''ShiftClock = '' @ fmt_u w @ 10 # r) = (w, r)"
  by (rule scan_setting_text [OF _ assms], erule scan_lit_ascii)+

lemma scan_config_text: "scan_config junk (config_text cf) = cf"
  by (simp add: scan_config_def config_text_def settings ascii_head isspace_def of_char_def)

end
