(* ===== verification/Mmu_Core_Proofs.thy ===== *)
theory Mmu_Core_Proofs
  imports Mmu_Core
begin

text \<open>
  The MMU as a virtual memory: its invariant, the contents of a virtual page wherever it lives, and
  what mapping, unmapping and the two synchronisations do to them.
\<close>

subsection \<open>Invariant and contents\<close>

abbreviation m_abs :: "mmu_t \<Rightarrow> vkey \<rightharpoonup> nat" where
  "m_abs m \<equiv> ipt_abs (mmu_mem_ipt m)"

abbreviation m_spare :: "mmu_t \<Rightarrow> nat list" where
  "m_spare m \<equiv> ipt_spare (mmu_mem_ipt m)"

abbreviation m_pd :: "mmu_t \<Rightarrow> nat \<Rightarrow> page_data_t" where
  "m_pd m \<equiv> ipt_pd (mmu_mem_ipt m)"

text \<open>The backing store: the disk page of every allocated virtual page.\<close>

definition m_bk :: "mmu_t \<Rightarrow> vkey \<rightharpoonup> int" where
  "m_bk m = map_abs vkey (mmu_disk_map m)"

definition backing_ok :: "disk_t \<Rightarrow> (vkey \<rightharpoonup> int) \<Rightarrow> bool" where
  "backing_ok d bk \<longleftrightarrow> (\<forall>k p. bk k = Some p \<longrightarrow> 0 \<le> p \<and> disk_live d (nat p)) \<and>
     (\<forall>k k' p. bk k = Some p \<and> bk k' = Some p \<longrightarrow> k = k')"

definition mmu_inv :: "mmu_t \<Rightarrow> bool" where
  "mmu_inv m \<longleftrightarrow> mm_inv (mmu_mem m) \<and> disk_inv (mmu_disk m) \<and> ipt_inv (mmu_mem_ipt m) \<and>
     map_inv vkey (mmu_disk_map m) \<and> ipt_n (mmu_mem_ipt m) = mm_frames (mmu_mem m) \<and>
     mm_page_size (mmu_mem m) = d_page_size (mmu_disk m) \<and>
     dom (m_abs m) \<subseteq> dom (m_bk m) \<and> backing_ok (mmu_disk m) (m_bk m) \<and>
     mmu_stats_lock m = rw_free"

lemma mmu_invD:
  assumes "mmu_inv m"
  shows "mm_inv (mmu_mem m)" "disk_inv (mmu_disk m)" "ipt_inv (mmu_mem_ipt m)"
    "map_inv vkey (mmu_disk_map m)" "ipt_n (mmu_mem_ipt m) = mm_frames (mmu_mem m)"
    "mm_page_size (mmu_mem m) = d_page_size (mmu_disk m)" "dom (m_abs m) \<subseteq> dom (m_bk m)"
    "backing_ok (mmu_disk m) (m_bk m)" "mmu_stats_lock m = rw_free"
  using assms by (simp_all add: mmu_inv_def)

text \<open>What a page holds: its frame when it is mapped, its disk page otherwise.\<close>

definition page_of :: "mmu_t \<Rightarrow> vkey \<Rightarrow> byte list option" where
  "page_of m key = (case m_bk m key of None \<Rightarrow> None
     | Some p \<Rightarrow> Some (case m_abs m key of Some f \<Rightarrow> mm_page (mmu_mem m) f
                     | None \<Rightarrow> disk_page (mmu_disk m) (nat p)))"

text \<open>
  A page is stable when it can be evicted without a change of its contents: it is on the disk, or
  it will be written back, or its two copies agree. A page that has been allocated but never
  written is the one that need not be.
\<close>

definition stable :: "mmu_t \<Rightarrow> vkey \<Rightarrow> bool" where
  "stable m key = (case m_abs m key of None \<Rightarrow> True
     | Some f \<Rightarrow> pd_dirty (m_pd m f) \<or>
         mm_page (mmu_mem m) f = disk_page (mmu_disk m) (nat (the (m_bk m key))))"

definition vmem :: "mmu_t \<Rightarrow> vkey \<rightharpoonup> byte list" where
  "vmem m key = (if stable m key then page_of m key else None)"

text \<open>What the contents depend on.\<close>

lemma view_cong:
  assumes "m_bk m' = m_bk m" "m_abs m' = m_abs m" "mmu_mem m' = mmu_mem m" "mmu_disk m' = mmu_disk m"
    and "\<And>k f. m_abs m k = Some f \<Longrightarrow> pd_dirty (m_pd m' f) = pd_dirty (m_pd m f)"
  shows "stable m' = stable m" "page_of m' = page_of m" "vmem m' = vmem m"
proof -
  show st: "stable m' = stable m"
    by (rule ext) (use assms in \<open>simp add: stable_def split: option.split\<close>)
  show pa: "page_of m' = page_of m" unfolding page_of_def assms ..
  show "vmem m' = vmem m" by (rule ext) (simp add: vmem_def st pa)
qed

text \<open>The sizes of the disk and what is allocated on it.\<close>

definition disk_shape :: "disk_t \<Rightarrow> int \<times> int \<times> bitmap_t" where
  "disk_shape d = (d_npages d, d_process_block_size d, d_alloc_bitmap d)"

lemma disk_shape_eqD:
  assumes "disk_shape d' = disk_shape d"
  shows "d_npages d' = d_npages d" "d_process_block_size d' = d_process_block_size d"
    "disk_live d' = disk_live d" "disk_blocks d' = disk_blocks d" "disk_nblocks d' = disk_nblocks d"
  using assms by (simp_all add: disk_shape_def disk_live_def disk_blocks_def disk_nblocks_def fun_eq_iff)

text \<open>The fields that the paging operations leave alone.\<close>

definition same_rest :: "mmu_t \<Rightarrow> mmu_t \<Rightarrow> bool" where
  "same_rest m m' \<longleftrightarrow> mmu_lock m' = mmu_lock m \<and> mmu_stats m' = mmu_stats m \<and>
     mmu_aging_freq m' = mmu_aging_freq m \<and> m_bk m' = m_bk m \<and>
     mm_npages (mmu_mem m') = mm_npages (mmu_mem m) \<and>
     mm_page_size (mmu_mem m') = mm_page_size (mmu_mem m) \<and>
     ipt_ref_count (mmu_mem_ipt m') = ipt_ref_count (mmu_mem_ipt m) \<and>
     disk_shape (mmu_disk m') = disk_shape (mmu_disk m)"

lemma same_rest_refl [simp]: "same_rest m m"
  by (simp add: same_rest_def)

lemma same_rest_trans: "same_rest a b \<Longrightarrow> same_rest b c \<Longrightarrow> same_rest a c"
  by (simp add: same_rest_def)

lemma vmem_leI:
  assumes "\<And>k. m_bk m k \<noteq> None \<Longrightarrow> stable m k \<Longrightarrow> stable m' k \<and> page_of m' k = page_of m k"
  shows "vmem m \<subseteq>\<^sub>m vmem m'"
proof (unfold map_le_def, rule ballI)
  fix k assume "k \<in> dom (vmem m)"
  then have "stable m k" "m_bk m k \<noteq> None" by (auto simp: vmem_def page_of_def split: if_splits option.splits)
  then show "vmem m k = vmem m' k" using assms [of k] by (simp add: vmem_def)
qed

lemma backing_page:
  assumes "mmu_inv m" "m_bk m key = Some p"
  shows "0 \<le> p" "p = int (nat p)" "disk_live (mmu_disk m) (nat p)" "nat p < disk_pages (mmu_disk m)"
proof -
  have "0 \<le> p \<and> disk_live (mmu_disk m) (nat p)"
    using mmu_invD(8) [OF assms(1)] assms(2) unfolding backing_ok_def by blast
  then show "0 \<le> p" "p = int (nat p)" "disk_live (mmu_disk m) (nat p)" "nat p < disk_pages (mmu_disk m)"
    by (auto simp: disk_live_def)
qed

lemma backing_inj: "mmu_inv m \<Longrightarrow> m_bk m k = Some p \<Longrightarrow> m_bk m k' = Some p' \<Longrightarrow> nat p = nat p' \<longleftrightarrow> k = k'"
  using backing_page(2) unfolding mmu_inv_def backing_ok_def by (metis option.inject)

lemma mapped_frame:
  assumes "mmu_inv m" "m_abs m key = Some f"
  shows "f < mm_frames (mmu_mem m)" "\<exists>p. m_bk m key = Some p"
  using ipt_abs_ran [of "mmu_mem_ipt m" key f] assms mmu_invD(7) [OF assms(1)]
  by (auto simp: mmu_inv_def)

text \<open>The address arithmetic stays inside the memory.\<close>

lemma frame_addr_inv:
  assumes "mm_inv mem" "f < mm_frames mem"
  shows "frame_addr mem (word_of_int (int f)) = int f * int (mm_psize mem)"
proof -
  have "int f * mm_page_size mem < mm_npages mem * mm_page_size mem"
    using assms by (intro mult_strict_right_mono) (auto simp: mm_inv_def)
  moreover have "mm_npages mem * mm_page_size mem < 2 ^ 31" using assms(1) by (simp add: mm_inv_def)
  ultimately have lt: "mm_page_size mem * int f < 2 ^ 31" unfolding mult.commute [of "mm_page_size mem"] by linarith
  have "0 \<le> mm_page_size mem * int f" using assms(1) by (simp add: mm_inv_def)
  moreover have "(word_of_int (mm_page_size mem) * word_of_int (int f) :: u32) = word_of_int (mm_page_size mem * int f)"
    by simp
  ultimately have "frame_addr mem (word_of_int (int f)) = mm_page_size mem * int f"
    unfolding frame_addr_def using lt by (simp add: uint_word_of_int del: of_int_mult of_int_of_nat_eq)
  then show ?thesis using assms(1) by (simp add: mm_inv_def mult.commute)
qed

lemma frame_read:
  assumes "mm_inv mem" "f < mm_frames mem"
  shows "mem_read (mm_bytes mem) (frame_addr mem (word_of_int (int f))) (mm_psize mem) = Inr (mm_page mem f)"
  using read_page [of f "mm_frames mem" "mm_bytes mem" "mm_psize mem"] assms
  by (simp only: frame_addr_inv mm_page_def) (simp add: mm_inv_def)

lemma frame_write:
  assumes "mm_inv mem" "f < mm_frames mem" "length buf = mm_psize mem"
  shows "\<exists>bs. mem_write (mm_bytes mem) (frame_addr mem (word_of_int (int f))) buf (length buf) = Inr bs \<and>
           mm_inv (mem\<lparr>mm_bytes := bs\<rparr>) \<and>
           (\<forall>j < mm_frames mem. mm_page (mem\<lparr>mm_bytes := bs\<rparr>) j = (if j = f then buf else mm_page mem j))"
proof -
  let ?bs = "overwrite (mm_bytes mem) (f * mm_psize mem) buf"
  have len: "length (mm_bytes mem) = mm_frames mem * mm_psize mem" using assms by (simp add: mm_inv_def)
  have "mem_write (mm_bytes mem) (frame_addr mem (word_of_int (int f))) buf (length buf) = Inr ?bs"
    unfolding frame_addr_inv [OF assms(1,2)] assms(3) by (rule write_page [OF assms(2) len assms(3)])
  moreover have "mm_inv (mem\<lparr>mm_bytes := ?bs\<rparr>)"
    using assms len page_fits [OF assms(2) len] by (auto simp: mm_inv_def)
  moreover have "\<forall>j < mm_frames mem. mm_page (mem\<lparr>mm_bytes := ?bs\<rparr>) j = (if j = f then buf else mm_page mem j)"
    using page_at_overwrite_page [OF assms(2) _ len assms(3)] by (simp add: mm_page_def)
  ultimately show ?thesis by blast
qed

subsection \<open>Writing back and unmapping\<close>

lemma map_get_bk:
  "mmu_inv m \<Longrightarrow> map_get (mmu_disk_map m) a want =
     Inr (case m_bk m (vkey a) of None \<Rightarrow> (ecNotFound, None) | Some p \<Rightarrow> (ecSuccess, if want then Some p else None))"
  by (simp add: ks.fetch_ok mmu_inv_def m_bk_def)

lemma mmu_sync_to_ok:
  assumes inv: "mmu_inv m" and f: "m_abs m (vkey a) = Some f" and p: "m_bk m (vkey a) = Some p"
  shows "\<exists>d'. mmu_sync_to_backing_page m a = Inr (ecSuccess, m\<lparr>mmu_disk := d'\<rparr>) \<and>
           mmu_inv (m\<lparr>mmu_disk := d'\<rparr>) \<and> disk_shape d' = disk_shape (mmu_disk m) \<and>
           (\<forall>j < disk_pages (mmu_disk m). disk_page d' j =
              (if pd_dirty (m_pd m f) \<and> j = nat p then mm_page (mmu_mem m) f else disk_page (mmu_disk m) j))"
proof (cases "pd_dirty (m_pd m f)")
  case False
  with f have "mmu_sync_to_backing_page m a = Inr (ecSuccess, m\<lparr>mmu_disk := mmu_disk m\<rparr>)"
    by (simp add: mmu_sync_to_backing_page_def ipt_is_dirty_inv mmu_invD [OF inv])
  with inv False show ?thesis by (intro exI [of _ "mmu_disk m"]) simp
next
  case True
  note D = mmu_invD [OF inv] and P = backing_page [OF inv p]
  have fn: "f < mm_frames (mmu_mem m)" by (rule mapped_frame [OF inv f])
  let ?buf = "mm_page (mmu_mem m) f"
  have len: "length ?buf = disk_psize (mmu_disk m)" using mp.page_length [OF D(1) fn] D(6) by simp
  obtain d' where d': "disk_set_page (mmu_disk m) (int (nat p)) ?buf = Inr (ecSuccess, d')" "disk_inv d'"
      "d' = (mmu_disk m)\<lparr>d_bytes := d_bytes d'\<rparr>"
      "\<forall>j < disk_pages (mmu_disk m). disk_page d' j = (if j = nat p then ?buf else disk_page (mmu_disk m) j)"
    using disk_set_page_inv [OF D(2) P(3) len] by blast
  then obtain bs where bs: "d' = (mmu_disk m)\<lparr>d_bytes := bs\<rparr>" by blast
  have fields: "d_page_size d' = d_page_size (mmu_disk m)" "disk_live d' = disk_live (mmu_disk m)"
      "disk_shape d' = disk_shape (mmu_disk m)"
    by (simp_all add: bs disk_live_def fun_eq_iff disk_shape_def)
  have "mmu_sync_to_backing_page m a = Inr (ecSuccess, m\<lparr>mmu_disk := d'\<rparr>)"
    using True f p d'(1) P(2) frame_read [OF D(1) fn] D(6)
    by (simp add: mmu_sync_to_backing_page_def ipt_is_dirty_inv ipt_translate_inv D map_get_bk [OF inv])
  moreover have "mmu_inv (m\<lparr>mmu_disk := d'\<rparr>)"
    using inv d'(2) fields by (simp add: mmu_inv_def backing_ok_def m_bk_def)
  ultimately show ?thesis using True d'(4) fields by auto
qed

lemma mmu_unmap_ok:
  assumes inv: "mmu_inv m" and f: "m_abs m (vkey a) = Some f"
  shows "\<exists>m'. mmu_unmap_page m a = Inr (ecSuccess, m') \<and> mmu_inv m' \<and>
           m_abs m' = (m_abs m)(vkey a := None) \<and> m_spare m' = m_spare m @ [f] \<and>
           m_pd m' = (m_pd m)(f := (m_pd m f)\<lparr>pd_valid := False\<rparr>) \<and>
           m' = m\<lparr>mmu_mem_ipt := mmu_mem_ipt m'\<rparr> \<and> ipt_ref_count (mmu_mem_ipt m') = ipt_ref_count (mmu_mem_ipt m)"
proof -
  obtain t where t: "ipt_remove (mmu_mem_ipt m) a = Inr (ecSuccess, t)" "ipt_inv t"
      "ipt_abs t = (m_abs m)(vkey a := None)" "ipt_spare t = m_spare m @ [f]"
      "ipt_pd t = (m_pd m)(f := (m_pd m f)\<lparr>pd_valid := False\<rparr>)" "same_shape (mmu_mem_ipt m) t"
    using ipt_remove_ok [OF mmu_invD(3) [OF inv] f] by blast
  let ?m' = "m\<lparr>mmu_mem_ipt := t\<rparr>"
  have "mmu_unmap_page m a = Inr (ecSuccess, ?m')" using t(1) by (simp add: mmu_unmap_page_def)
  moreover have "mmu_inv ?m'"
    using inv t by (auto simp: mmu_inv_def same_shape_def m_bk_def)
  ultimately show ?thesis using t by (intro exI [of _ ?m']) (simp add: same_shape_def)
qed

lemma mmu_unmap_absent:
  "mmu_inv m \<Longrightarrow> m_abs m (vkey a) = None \<Longrightarrow> mmu_unmap_page m a = Inr (ecNotFound, m)"
  by (simp add: mmu_unmap_page_def ipt_remove_absent mmu_invD)

subsection \<open>Mapping\<close>

lemma mmu_map_ok:
  assumes inv: "mmu_inv m" and absent: "m_abs m (vkey a) = None" and spare: "m_spare m = f # F"
    and backed: "m_bk m (vkey a) \<noteq> None"
  shows "\<exists>m'. mmu_map_page m a = Inr (ecSuccess, m') \<and> mmu_inv m' \<and>
           m_abs m' = (m_abs m)(vkey a \<mapsto> f) \<and> m_spare m' = F \<and>
           m_pd m' = (m_pd m)(f := fresh_pd a (m_pd m f)) \<and>
           m' = m\<lparr>mmu_mem_ipt := mmu_mem_ipt m'\<rparr> \<and> ipt_ref_count (mmu_mem_ipt m') = ipt_ref_count (mmu_mem_ipt m)"
proof -
  obtain t where t: "ipt_add (mmu_mem_ipt m) a = Inr (ecSuccess, t)" "ipt_inv t"
      "ipt_abs t = (m_abs m)(vkey a \<mapsto> f)" "ipt_spare t = F"
      "ipt_pd t = (m_pd m)(f := fresh_pd a (m_pd m f))" "same_shape (mmu_mem_ipt m) t"
    using ipt_add_ok [OF mmu_invD(3) [OF inv] absent spare] by blast
  let ?m' = "m\<lparr>mmu_mem_ipt := t\<rparr>"
  have "mmu_map_page m a = Inr (ecSuccess, ?m')"
    using t(1) absent by (simp add: mmu_map_page_def ipt_has_translation_inv mmu_invD [OF inv])
  moreover have "mmu_inv ?m'"
    using inv t backed by (auto simp: mmu_inv_def same_shape_def m_bk_def)
  ultimately show ?thesis using t by (intro exI [of _ ?m']) (simp add: same_shape_def)
qed

lemma mmu_map_full:
  assumes inv: "mmu_inv m" and "m_abs m (vkey a) = None" "m_spare m = []"
  shows "mmu_map_page m a = Inr (ecFail, m)"
  using assms by (simp add: mmu_map_page_def ipt_has_translation_inv mmu_invD [OF inv] ipt_add_full)

text \<open>A page that is mapped already makes the assertion fail.\<close>

lemma mmu_map_twice:
  assumes inv: "mmu_inv m" and "m_abs m (vkey a) = Some f"
  shows "mmu_map_page m a = Inl AssertFailed"
  using assms by (simp add: mmu_map_page_def ipt_has_translation_inv mmu_invD [OF inv])

lemma mmu_sync_from_ok:
  assumes inv: "mmu_inv m" and f: "m_abs m (vkey a) = Some f" and p: "m_bk m (vkey a) = Some p"
  shows "\<exists>mem'. mmu_sync_from_backing_page m a = Inr (ecSuccess, m\<lparr>mmu_mem := mem'\<rparr>) \<and>
           mmu_inv (m\<lparr>mmu_mem := mem'\<rparr>) \<and> mm_npages mem' = mm_npages (mmu_mem m) \<and>
           mm_page_size mem' = mm_page_size (mmu_mem m) \<and>
           (\<forall>j < mm_frames (mmu_mem m). mm_page mem' j =
              (if j = f then disk_page (mmu_disk m) (nat p) else mm_page (mmu_mem m) j))"
proof -
  note D = mmu_invD [OF inv] and P = backing_page [OF inv p]
  have fn: "f < mm_frames (mmu_mem m)" by (rule mapped_frame [OF inv f])
  let ?buf = "disk_page (mmu_disk m) (nat p)"
  have len: "length ?buf = mm_psize (mmu_mem m)" using dp.page_length [OF D(2) P(4)] D(6) by simp
  obtain bs where bs: "mem_write (mm_bytes (mmu_mem m)) (frame_addr (mmu_mem m) (word_of_int (int f))) ?buf (length ?buf) = Inr bs"
      "mm_inv ((mmu_mem m)\<lparr>mm_bytes := bs\<rparr>)"
      "\<forall>j < mm_frames (mmu_mem m). mm_page ((mmu_mem m)\<lparr>mm_bytes := bs\<rparr>) j = (if j = f then ?buf else mm_page (mmu_mem m) j)"
    using frame_write [OF D(1) fn len] by blast
  have "disk_get_page (mmu_disk m) p = Inr (ecSuccess, Some ?buf, mmu_disk m)"
    using dp.get_ok [OF D(2) P(3)] P(2) by simp
  then have "mmu_sync_from_backing_page m a = Inr (ecSuccess, m\<lparr>mmu_mem := (mmu_mem m)\<lparr>mm_bytes := bs\<rparr>\<rparr>)"
    using f p bs(1) by (simp add: mmu_sync_from_backing_page_def ipt_translate_inv D map_get_bk [OF inv])
  moreover have "mmu_inv (m\<lparr>mmu_mem := (mmu_mem m)\<lparr>mm_bytes := bs\<rparr>\<rparr>)"
    using inv bs(2) by (simp add: mmu_inv_def m_bk_def)
  ultimately show ?thesis using bs(3) by (intro exI [of _ "(mmu_mem m)\<lparr>mm_bytes := bs\<rparr>"]) simp
qed

end
