(* ===== verification/Prm_Proofs.thy ===== *)
theory Prm_Proofs
  imports Prm Mmu_Core_Proofs
begin

text \<open>
  The page replacement manager: it evicts the page with the smallest age, serves a fault with at
  most one eviction, always returns, and leaves the contents of every stable page as they were.
\<close>

subsection \<open>The oldest page\<close>

text \<open>
  The frames that may be evicted for a page \<open>t\<close>, and the one that is: of the smallest age, and
  the first of those.
\<close>

definition evictable :: "(nat \<Rightarrow> page_data_t) \<Rightarrow> vkey \<Rightarrow> nat \<Rightarrow> bool" where
  "evictable pd t k \<longleftrightarrow> pd_valid (pd k) \<and> vkey (pd_addr (pd k)) \<noteq> t"

definition is_oldest :: "(nat \<Rightarrow> page_data_t) \<Rightarrow> nat \<Rightarrow> vkey \<Rightarrow> nat \<Rightarrow> bool" where
  "is_oldest pd n t k \<longleftrightarrow> k < n \<and> evictable pd t k \<and>
     (\<forall>i < n. evictable pd t i \<longrightarrow> pd_page_age (pd k) \<le> pd_page_age (pd i)) \<and>
     (\<forall>i < k. evictable pd t i \<longrightarrow> pd_page_age (pd k) < pd_page_age (pd i))"

lemma get_oldest_fold:
  assumes "oldest_page_idx s = - 1"
  shows "\<exists>s'. fold (visit get_oldest_page) [0..<n] (pd, s) = (pd, s') \<and> swap_target s' = swap_target s \<and>
     ((\<forall>i < n. \<not> evictable pd (vkey (swap_target s)) i) \<and> oldest_page_idx s' = - 1 \<or>
      (\<exists>k. is_oldest pd n (vkey (swap_target s)) k \<and> oldest_page_vaddr s' = pd_addr (pd k) \<and>
           oldest_page_age s' = pd_page_age (pd k) \<and> oldest_page_idx s' = 0 \<and> cur_idx s' = 0))"
proof (induction n)
  case (Suc n)
  let ?t = "vkey (swap_target s)"
  from Suc obtain s' where s': "fold (visit get_oldest_page) [0..<n] (pd, s) = (pd, s')"
      "swap_target s' = swap_target s"
      "(\<forall>i < n. \<not> evictable pd ?t i) \<and> oldest_page_idx s' = - 1 \<or>
       (\<exists>k. is_oldest pd n ?t k \<and> oldest_page_vaddr s' = pd_addr (pd k) \<and>
            oldest_page_age s' = pd_page_age (pd k) \<and> oldest_page_idx s' = 0 \<and> cur_idx s' = 0)" by blast
  have run: "fold (visit get_oldest_page) [0..<Suc n] (pd, s) =
      (if pd_valid (pd n) then (pd, snd (get_oldest_page (word_of_int (int n)) (pd n) s')) else (pd, s'))"
    using s'(1) by (simp add: visit_def get_oldest_page_def Let_def)
  show ?case
  proof (cases "evictable pd ?t n")
    case False
    then have "fold (visit get_oldest_page) [0..<Suc n] (pd, s) = (pd, s') \<or>
        fold (visit get_oldest_page) [0..<Suc n] (pd, s) =
          (pd, if oldest_page_idx s' = - 1 then s'\<lparr>cur_idx := 0\<rparr> else s')"
      unfolding run using s'(2) by (auto simp: evictable_def get_oldest_page_def Let_def)
    then show ?thesis
      using s'(2,3) False by (auto simp: less_Suc_eq is_oldest_def split: if_splits)
  next
    case True
    then have n: "pd_valid (pd n)" "vkey (swap_target s') \<noteq> vkey (pd_addr (pd n))"
      using s'(2) by (auto simp: evictable_def)
    show ?thesis using s'(3)
    proof (elim disjE exE conjE)
      assume none: "\<forall>i < n. \<not> evictable pd ?t i" "oldest_page_idx s' = - 1"
      then have "is_oldest pd (Suc n) ?t n" using True by (auto simp: is_oldest_def less_Suc_eq)
      then show ?thesis
        unfolding run using n none s'(2) by (auto simp: get_oldest_page_def Let_def)
    next
      fix k assume k: "is_oldest pd n ?t k" "oldest_page_vaddr s' = pd_addr (pd k)"
        "oldest_page_age s' = pd_page_age (pd k)" "oldest_page_idx s' = 0" "cur_idx s' = 0"
      show ?thesis
      proof (cases "pd_page_age (pd n) < pd_page_age (pd k)")
        case True
        then have "is_oldest pd (Suc n) ?t n"
          using k(1) \<open>evictable pd ?t n\<close> by (auto simp: is_oldest_def less_Suc_eq)
        then show ?thesis
          unfolding run using n k s'(2) True by (auto simp: get_oldest_page_def Let_def)
      next
        case False
        then have "is_oldest pd (Suc n) ?t k" using k(1) by (auto simp: is_oldest_def less_Suc_eq)
        then show ?thesis
          unfolding run using n k s'(2) False by (auto simp: get_oldest_page_def Let_def)
      qed
    qed
  qed
qed (use assms in simp)

lemma keeps_page_refl [simp]: "keeps_page pd pd"
  by (simp add: keeps_page_def)

lemma keeps_page_oldest [simp]: "keeps_page pd (fst (get_oldest_page a pd s))"
  by (simp add: get_oldest_page_def Let_def)

lemma get_page_to_swap_ok:
  assumes inv: "mmu_inv m" and some: "evictable (m_pd m) (vkey a) i" "i < mm_frames (mmu_mem m)"
  shows "\<exists>v m' s' k. get_page_to_swap m s a = Inr (v, m', s') \<and> mmu_inv m' \<and>
           is_oldest (m_pd m) (mm_frames (mmu_mem m)) (vkey a) k \<and> v = pd_addr (m_pd m k) \<and>
           m_abs m (vkey v) = Some k \<and> m_abs m' = m_abs m \<and> m_spare m' = m_spare m \<and> m_pd m' = m_pd m \<and>
           m' = m\<lparr>mmu_mem_ipt := mmu_mem_ipt m'\<rparr> \<and> ipt_ref_count (mmu_mem_ipt m') = ipt_ref_count (mmu_mem_ipt m)"
proof -
  note D = mmu_invD [OF inv]
  let ?s = "s\<lparr>oldest_page_idx := - 1, swap_target := a\<rparr>" let ?n = "mm_frames (mmu_mem m)"
  obtain t s' where t: "ipt_for_each_entry (mmu_mem_ipt m) get_oldest_page ?s = Inr (ecSuccess, t, s')"
      "same_map (mmu_mem_ipt m) t" "ipt_ref_count t = ipt_ref_count (mmu_mem_ipt m)"
      "(ipt_pd t, s') = fold (visit get_oldest_page) [0..<?n] (m_pd m, ?s)"
    using ipt_for_each_entry_ok [OF D(3), of get_oldest_page ?s] D(5) by auto
  obtain k where k: "ipt_pd t = m_pd m" "is_oldest (m_pd m) ?n (vkey a) k" "oldest_page_vaddr s' = pd_addr (m_pd m k)"
    using get_oldest_fold [of ?s ?n "m_pd m"] t(4) some by auto
  then have kv: "k < ?n" "ipt_valid (mmu_mem_ipt m) k" "ipt_key (mmu_mem_ipt m) k \<noteq> vkey a"
    by (auto simp: is_oldest_def evictable_def)
  have "m_abs m (ipt_key (mmu_mem_ipt m) k) = Some k" using kv by (simp add: ipt_abs_Some [OF D(3)] D(5))
  moreover have "get_page_to_swap m s a = Inr (pd_addr (m_pd m k), m\<lparr>mmu_mem_ipt := t\<rparr>, s')"
    using t(1) k(3) kv(3) by (simp add: get_page_to_swap_def mmu_for_each_mem_page_def)
  moreover have "mmu_inv (m\<lparr>mmu_mem_ipt := t\<rparr>)"
    using inv t(2) by (simp add: mmu_inv_def same_map_def m_bk_def)
  ultimately show ?thesis
    using k t(2,3) by (intro exI [of _ "pd_addr (m_pd m k)"] exI [of _ "m\<lparr>mmu_mem_ipt := t\<rparr>"] exI [of _ s'] exI [of _ k])
      (simp add: same_map_def)
qed

subsection \<open>Evicting and loading\<close>

text \<open>What is left of a page when its frame \<open>f\<close> is given away: the frame when it is written back, what the
  disk has otherwise.\<close>

definition written_back :: "mmu_t \<Rightarrow> vkey \<Rightarrow> nat \<Rightarrow> byte list" where
  "written_back m key f =
     (if pd_dirty (m_pd m f) then mm_page (mmu_mem m) f else disk_page (mmu_disk m) (nat (the (m_bk m key))))"

lemma prm_swap_out_ok:
  assumes inv: "mmu_inv m" and f: "m_abs m (vkey a) = Some f"
  shows "\<exists>m'. prm_swap_out m a = Inr m' \<and> mmu_inv m' \<and> same_rest m m' \<and>
           m_abs m' = (m_abs m)(vkey a := None) \<and> m_spare m' = m_spare m @ [f] \<and> vmem m \<subseteq>\<^sub>m vmem m' \<and>
           page_of m' = (page_of m)(vkey a \<mapsto> written_back m (vkey a) f)"
proof -
  obtain p where p: "m_bk m (vkey a) = Some p" using mapped_frame [OF inv f] by blast
  obtain d' where d': "mmu_sync_to_backing_page m a = Inr (ecSuccess, m\<lparr>mmu_disk := d'\<rparr>)"
      "mmu_inv (m\<lparr>mmu_disk := d'\<rparr>)" "disk_shape d' = disk_shape (mmu_disk m)"
      "\<forall>j < disk_pages (mmu_disk m). disk_page d' j =
         (if pd_dirty (m_pd m f) \<and> j = nat p then mm_page (mmu_mem m) f else disk_page (mmu_disk m) j)"
    using mmu_sync_to_ok [OF inv f p] by blast
  obtain m' where m': "mmu_unmap_page (m\<lparr>mmu_disk := d'\<rparr>) a = Inr (ecSuccess, m')" "mmu_inv m'"
      "m_abs m' = (m_abs m)(vkey a := None)" "m_spare m' = m_spare m @ [f]"
      "m_pd m' = (m_pd m)(f := (m_pd m f)\<lparr>pd_valid := False\<rparr>)"
      "m' = m\<lparr>mmu_disk := d', mmu_mem_ipt := mmu_mem_ipt m'\<rparr>"
      "ipt_ref_count (mmu_mem_ipt m') = ipt_ref_count (mmu_mem_ipt m)"
    using mmu_unmap_ok [OF d'(2), of a f] f by auto
  obtain t where t: "m' = m\<lparr>mmu_disk := d', mmu_mem_ipt := t\<rparr>" using m'(6) by blast
  have bk: "m_bk m' = m_bk m" and mem: "mmu_mem m' = mmu_mem m" and dk: "mmu_disk m' = d'"
    by (simp_all add: t m_bk_def)
  have run: "prm_swap_out m a = Inr m'" using d'(1) m'(1) by (simp add: prm_swap_out_def)
  have rest: "same_rest m m'"
    using m'(7) bk d'(3) by (simp add: same_rest_def t)
  have pn: "nat p < disk_pages (mmu_disk m)" using backing_page [OF inv p] by blast
  have gone: "page_of m' (vkey a) = Some (written_back m (vkey a) f)"
    using p f d'(4) pn m'(3) by (auto simp: page_of_def written_back_def bk dk)
  have other: "page_of m' k = page_of m k \<and> (stable m k \<longrightarrow> stable m' k)" if k: "k \<noteq> vkey a" for k
  proof (cases "m_bk m k")
    case (Some q)
    have "nat q < disk_pages (mmu_disk m)" "nat q \<noteq> nat p" using backing_page [OF inv Some] backing_inj [OF inv Some p] k by blast+
    then have dp: "disk_page d' (nat q) = disk_page (mmu_disk m) (nat q)" using d'(4) by simp
    have "f' \<noteq> f" if "m_abs m k = Some f'" for f'
      using ipt_abs_inj [OF mmu_invD(3) [OF inv] f, of k] that k by auto
    then show ?thesis using Some k dp m'(3,5) by (auto simp: stable_def page_of_def bk dk mem split: option.splits)
  next
    case None
    then have "m_abs m k = None" using mmu_invD(7) [OF inv] by blast
    then show ?thesis using None k m'(3) by (simp add: page_of_def stable_def bk)
  qed
  have "stable m' k \<and> page_of m' k = page_of m k" if "m_bk m k \<noteq> None" "stable m k" for k
  proof (cases "k = vkey a")
    case True
    then show ?thesis using that p f gone m'(3) by (auto simp: stable_def page_of_def written_back_def)
  qed (use other that in blast)
  then have "vmem m \<subseteq>\<^sub>m vmem m'" by (rule vmem_leI)
  moreover have "page_of m' = (page_of m)(vkey a \<mapsto> written_back m (vkey a) f)"
    using gone other by (intro ext) simp
  ultimately show ?thesis using run m' rest by blast
qed

text \<open>Mapping a page and loading it from its disk page.\<close>

lemma map_and_load:
  assumes inv: "mmu_inv m" and absent: "m_abs m (vkey a) = None" and spare: "m_spare m = f # F"
    and backed: "m_bk m (vkey a) = Some p"
  shows "\<exists>m1 m2. mmu_map_page m a = Inr (ecSuccess, m1) \<and> mmu_inv m1 \<and> m_abs m1 (vkey a) = Some f \<and>
           mmu_sync_from_backing_page m1 a = Inr (ecSuccess, m2) \<and> mmu_inv m2 \<and> same_rest m m2 \<and>
           m_abs m2 = (m_abs m)(vkey a \<mapsto> f) \<and> m_spare m2 = F \<and>
           vmem m \<subseteq>\<^sub>m vmem m2 \<and> stable m2 (vkey a) \<and> page_of m2 = page_of m"
proof -
  obtain m1 where m1: "mmu_map_page m a = Inr (ecSuccess, m1)" "mmu_inv m1"
      "m_abs m1 = (m_abs m)(vkey a \<mapsto> f)" "m_spare m1 = F" "m_pd m1 = (m_pd m)(f := fresh_pd a (m_pd m f))"
      "m1 = m\<lparr>mmu_mem_ipt := mmu_mem_ipt m1\<rparr>" "ipt_ref_count (mmu_mem_ipt m1) = ipt_ref_count (mmu_mem_ipt m)"
    using mmu_map_ok [OF inv absent spare] backed by blast
  obtain t where t: "m1 = m\<lparr>mmu_mem_ipt := t\<rparr>" using m1(6) by blast
  have bk1: "m_bk m1 = m_bk m" by (simp add: t m_bk_def)
  obtain mem' where mem': "mmu_sync_from_backing_page m1 a = Inr (ecSuccess, m1\<lparr>mmu_mem := mem'\<rparr>)"
      "mmu_inv (m1\<lparr>mmu_mem := mem'\<rparr>)" "mm_npages mem' = mm_npages (mmu_mem m)"
      "mm_page_size mem' = mm_page_size (mmu_mem m)"
      "\<forall>j < mm_frames (mmu_mem m). mm_page mem' j =
         (if j = f then disk_page (mmu_disk m) (nat p) else mm_page (mmu_mem m) j)"
    using mmu_sync_from_ok [OF m1(2), of a f p] m1(3) bk1 backed by (auto simp: t)
  let ?m2 = "m1\<lparr>mmu_mem := mem'\<rparr>"
  have bk2: "m_bk ?m2 = m_bk m" by (simp add: t m_bk_def)
  have fn: "f < mm_frames (mmu_mem m)"
    using mapped_frame(1) [OF m1(2), of "vkey a" f] m1(3) by (simp add: t)
  have rest: "same_rest m ?m2" using m1(7) mem'(3,4) bk2 by (simp add: same_rest_def t)
  have st: "stable ?m2 (vkey a)" using m1(3) fn mem'(5) backed bk2 by (simp add: stable_def t)
  have pa: "page_of ?m2 (vkey a) = page_of m (vkey a)"
    using m1(3) fn mem'(5) backed bk2 absent by (simp add: page_of_def t)
  have keep: "page_of ?m2 k = page_of m k \<and> (stable m k \<longrightarrow> stable ?m2 k)" for k
  proof (cases "k = vkey a")
    case False
    have "f' \<noteq> f \<and> f' < mm_frames (mmu_mem m)" if "m_abs m k = Some f'" for f'
      using ipt_partition [OF mmu_invD(3) [OF inv]] ranI [of "m_abs m", OF that] spare mapped_frame(1) [OF inv that]
      by auto
    then show ?thesis
      using False m1(3,5) mem'(5) bk2 by (auto simp: stable_def page_of_def t split: option.splits)
  qed (use st pa in simp)
  then have "vmem m \<subseteq>\<^sub>m vmem ?m2" by (intro vmem_leI) blast
  moreover have "page_of ?m2 = page_of m" using keep by (intro ext) blast
  ultimately show ?thesis using m1 mem'(1,2) rest st by (intro exI [of _ m1] exI [of _ ?m2]) simp
qed

subsection \<open>Serving one fault\<close>

text \<open>The invariant and the contents do not depend on the lock of the MMU.\<close>

lemma mmu_lock_indep [simp]:
  "mmu_inv (m\<lparr>mmu_lock := l\<rparr>) = mmu_inv m" "vmem (m\<lparr>mmu_lock := l\<rparr>) = vmem m"
  "stable (m\<lparr>mmu_lock := l\<rparr>) = stable m" "m_bk (m\<lparr>mmu_lock := l\<rparr>) = m_bk m"
  "page_of (m\<lparr>mmu_lock := l\<rparr>) = page_of m"
proof -
  show bk: "m_bk (m\<lparr>mmu_lock := l\<rparr>) = m_bk m" by (simp add: m_bk_def)
  show "mmu_inv (m\<lparr>mmu_lock := l\<rparr>) = mmu_inv m" by (simp add: mmu_inv_def bk)
qed (rule view_cong; simp add: m_bk_def)+

lemma mmu_lock_steps:
  "mmu_lock m = rw_free \<Longrightarrow> mmu_acquire_write m = Inr (m\<lparr>mmu_lock := rw_writing\<rparr>)"
  "mmu_lock m = rw_free \<Longrightarrow> mmu_acquire_read m = Inr (m\<lparr>mmu_lock := rw_reading\<rparr>)"
  "mmu_lock m = rw_writing \<Longrightarrow> mmu_release_write m = Inr (m\<lparr>mmu_lock := rw_free\<rparr>)"
  "mmu_lock m = rw_reading \<Longrightarrow> mmu_release_read m = Inr (m\<lparr>mmu_lock := rw_free\<rparr>)"
  by (simp_all add: mmu_acquire_write_def mmu_acquire_read_def mmu_release_write_def mmu_release_read_def)

lemma mmu_shared_steps:
  "mmu_lock m = rw_shared n \<Longrightarrow> mmu_acquire_read m = Inr (m\<lparr>mmu_lock := rw_shared (Suc n)\<rparr>)"
  "mmu_lock m = rw_shared (Suc n) \<Longrightarrow> mmu_release_read m = Inr (m\<lparr>mmu_lock := rw_shared n\<rparr>)"
  "mmu_lock m = rw_shared (Suc n) \<Longrightarrow> mmu_acquire_write m = Inl Deadlock"
  by (simp_all add: mmu_acquire_write_def mmu_acquire_read_def mmu_release_read_def shared_steps)

text \<open>Which page the fault of \<open>key\<close> evicts, if any, and the frame it gets; and, with that, what the pages
  hold: none changes but the one evicted, when it is clean and differs from its copy on the disk.\<close>

definition fault_effect :: "mmu_t \<Rightarrow> vkey \<Rightarrow> mmu_t \<Rightarrow> bool" where
  "fault_effect m key m' \<longleftrightarrow>
     (case m_spare m of
        f # F \<Rightarrow> m_abs m' = (m_abs m)(key \<mapsto> f) \<and> m_spare m' = F
      | [] \<Rightarrow> (\<exists>f. is_oldest (m_pd m) (mm_frames (mmu_mem m)) key f \<and>
                  m_abs m' = (m_abs m)(vkey (pd_addr (m_pd m f)) := None, key \<mapsto> f) \<and> m_spare m' = []))"

definition fault_exact :: "mmu_t \<Rightarrow> vkey \<Rightarrow> mmu_t \<Rightarrow> bool" where
  "fault_exact m key m' \<longleftrightarrow>
     (case m_spare m of
        f # F \<Rightarrow> m_abs m' = (m_abs m)(key \<mapsto> f) \<and> m_spare m' = F \<and> page_of m' = page_of m
      | [] \<Rightarrow> (\<exists>f. is_oldest (m_pd m) (mm_frames (mmu_mem m)) key f \<and>
                  m_abs m' = (m_abs m)(vkey (pd_addr (m_pd m f)) := None, key \<mapsto> f) \<and> m_spare m' = [] \<and>
                  page_of m' = (page_of m)(vkey (pd_addr (m_pd m f)) \<mapsto> written_back m (vkey (pd_addr (m_pd m f))) f)))"

lemma fault_exactD: "fault_exact m key m' \<Longrightarrow> fault_effect m key m'"
  by (cases "m_spare m") (auto simp: fault_exact_def fault_effect_def)

lemma full_evictable:
  assumes inv: "mmu_inv m" and "m_abs m key = None" and "m_spare m = []"
  shows "evictable (m_pd m) key 0" "0 < mm_frames (mmu_mem m)"
proof -
  note D = mmu_invD [OF inv]
  show n: "0 < mm_frames (mmu_mem m)" using D(1) by (simp add: mm_inv_def)
  then have "ipt_valid (mmu_mem_ipt m) 0" using ipt_spare_set(2) [OF D(3)] assms(3) D(5) by auto
  then show "evictable (m_pd m) key 0" using n assms(2) D(5) by (auto simp: evictable_def ipt_abs_None)
qed

text \<open>The part between the lock and the unlock.\<close>

lemma prm_bring_in:
  assumes inv: "mmu_inv m" and absent: "m_abs m (vkey a) = None" and backed: "m_bk m (vkey a) = Some p"
  shows "\<exists>ec m1 m2 s' m3. mmu_map_page m a = Inr (ec, m1) \<and> swap_loop 2 m1 s a ec = Inr (m2, s') \<and>
           mmu_sync_from_backing_page m2 a = Inr (ecSuccess, m3) \<and> mmu_inv m3 \<and> same_rest m m3 \<and>
           fault_exact m (vkey a) m3 \<and> vmem m \<subseteq>\<^sub>m vmem m3 \<and> stable m3 (vkey a)"
proof (cases "m_spare m")
  case (Cons f F)
  from map_and_load [OF inv absent Cons backed] show ?thesis
    by (force simp: fault_exact_def Cons numeral_2_eq_2)
next
  case Nil
  obtain v m1 s' f where sw: "get_page_to_swap m s a = Inr (v, m1, s')" "mmu_inv m1"
      "is_oldest (m_pd m) (mm_frames (mmu_mem m)) (vkey a) f" "v = pd_addr (m_pd m f)"
      "m_abs m (vkey v) = Some f" "m_abs m1 = m_abs m" "m_spare m1 = m_spare m" "m_pd m1 = m_pd m"
      "m1 = m\<lparr>mmu_mem_ipt := mmu_mem_ipt m1\<rparr>" "ipt_ref_count (mmu_mem_ipt m1) = ipt_ref_count (mmu_mem_ipt m)"
    using get_page_to_swap_ok [OF inv full_evictable [OF inv absent Nil], of s] by blast
  obtain t where t: "m1 = m\<lparr>mmu_mem_ipt := t\<rparr>" using sw(9) by blast
  have bk1: "m_bk m1 = m_bk m" by (simp add: t m_bk_def)
  have rest1: "same_rest m m1" using sw(10) bk1 by (simp add: same_rest_def t)
  have vm1: "vmem m1 = vmem m" "page_of m1 = page_of m"
    by (rule view_cong; use sw(6,8) bk1 in \<open>simp add: t\<close>)+
  have wb: "written_back m1 (vkey v) f = written_back m (vkey v) f" using sw(8) bk1 by (simp add: written_back_def t)
  obtain m2 where m2: "prm_swap_out m1 v = Inr m2" "mmu_inv m2" "same_rest m1 m2"
      "m_abs m2 = (m_abs m)(vkey v := None)" "m_spare m2 = [f]" "vmem m \<subseteq>\<^sub>m vmem m2"
      "page_of m2 = (page_of m)(vkey v \<mapsto> written_back m (vkey v) f)"
    using prm_swap_out_ok [OF sw(2), of v f] sw(5,6,7) Nil vm1 wb by auto
  have bk2: "m_bk m2 (vkey a) = Some p" using m2(3) bk1 backed by (simp add: same_rest_def)
  have ab2: "m_abs m2 (vkey a) = None" using m2(4) absent by simp
  obtain m3 m4 where m3: "mmu_map_page m2 a = Inr (ecSuccess, m3)" "mmu_inv m3" "m_abs m3 (vkey a) = Some f"
      "mmu_sync_from_backing_page m3 a = Inr (ecSuccess, m4)" "mmu_inv m4" "same_rest m2 m4"
      "m_abs m4 = (m_abs m2)(vkey a \<mapsto> f)" "m_spare m4 = []" "vmem m2 \<subseteq>\<^sub>m vmem m4" "stable m4 (vkey a)"
      "page_of m4 = page_of m2"
    using map_and_load [OF m2(2) ab2 m2(5) bk2] by blast
  have "swap_loop 2 m s a ecFail = Inr (m3, s')"
    using sw(1) m2(1) m3(1,3) by (simp add: numeral_2_eq_2 ipt_translate_inv mmu_invD(3) [OF m3(2)])
  moreover have "fault_exact m (vkey a) m4"
    using sw(3,4) m3(7,8,11) m2(4,7) Nil by (auto simp: fault_exact_def)
  moreover have "same_rest m m4" using rest1 m2(3) m3(6) same_rest_trans by blast
  moreover have "vmem m \<subseteq>\<^sub>m vmem m4" using m2(6) m3(9) by (rule map_le_trans)
  ultimately show ?thesis
    using mmu_map_full [OF inv absent Nil] m3(4,5,10) by blast
qed

lemma fault_exact_lock:
  "fault_exact (m\<lparr>mmu_lock := l\<rparr>) key m' = fault_exact m key m'"
  "fault_exact m key (m'\<lparr>mmu_lock := l\<rparr>) = fault_exact m key m'"
  by (cases "m_spare m"; simp add: fault_exact_def written_back_def)+

lemma same_rest_lock:
  "same_rest (m\<lparr>mmu_lock := l\<rparr>) m' \<Longrightarrow> same_rest m (m'\<lparr>mmu_lock := mmu_lock m\<rparr>)"
  by (simp add: same_rest_def m_bk_def)

lemma prm_serve_ok:
  assumes inv: "mmu_inv m" and free: "mmu_lock m = rw_free"
    and absent: "m_abs m (vkey a) = None" and backed: "m_bk m (vkey a) = Some p"
  shows "\<exists>m' s'. prm_serve m s a = Inr (m', s') \<and> mmu_inv m' \<and> same_rest m m' \<and>
           fault_exact m (vkey a) m' \<and> vmem m \<subseteq>\<^sub>m vmem m' \<and> stable m' (vkey a)"
proof -
  let ?m = "m\<lparr>mmu_lock := rw_writing\<rparr>"
  obtain ec m1 m2 s' m3 where step: "mmu_map_page ?m a = Inr (ec, m1)" "swap_loop 2 m1 s a ec = Inr (m2, s')"
      "mmu_sync_from_backing_page m2 a = Inr (ecSuccess, m3)" "mmu_inv m3" "same_rest ?m m3"
      "fault_exact ?m (vkey a) m3" "vmem ?m \<subseteq>\<^sub>m vmem m3" "stable m3 (vkey a)"
    using prm_bring_in [of ?m a p s] assms by auto
  have "mmu_lock m3 = rw_writing" using step(5) by (simp add: same_rest_def)
  then have "prm_serve m s a = Inr (m3\<lparr>mmu_lock := rw_free\<rparr>, s')"
    using step(1-3) free by (simp add: prm_serve_def mmu_lock_steps)
  moreover have "same_rest m (m3\<lparr>mmu_lock := rw_free\<rparr>)"
    using same_rest_lock [OF step(5)] free by simp
  moreover have "fault_exact m (vkey a) (m3\<lparr>mmu_lock := rw_free\<rparr>)"
    using step(6) by (simp only: fault_exact_lock)
  ultimately show ?thesis using step(4,7,8) by (intro exI [of _ "m3\<lparr>mmu_lock := rw_free\<rparr>"]) simp
qed

text \<open>A page that is mapped when its command is served makes the thread abort.\<close>

lemma prm_serve_mapped:
  assumes inv: "mmu_inv m" and free: "mmu_lock m = rw_free" and f: "m_abs m (vkey a) = Some f"
  shows "prm_serve m s a = Inl AssertFailed"
proof -
  have "mmu_map_page (m\<lparr>mmu_lock := rw_writing\<rparr>) a = Inl AssertFailed"
    using mmu_map_twice [of "m\<lparr>mmu_lock := rw_writing\<rparr>" a f] inv f by simp
  then show ?thesis using free by (simp add: prm_serve_def mmu_lock_steps)
qed

subsection \<open>The command queue\<close>

text \<open>The manager while nobody waits for it.\<close>

definition prm_idle :: "prm_t \<Rightarrow> bool" where
  "prm_idle p \<longleftrightarrow> queue_inv (prm_queue p) \<and> queue_list (prm_queue p) = [] \<and> \<not> prm_mutex p \<and>
     \<not> prm_queue_mutex p \<and> prm_running p \<and> (\<forall>i. \<not> prm_oom p i)"

lemma mutex_steps [simp]:
  "pthread_mutex_lock False = Inr (0, True)" "pthread_mutex_unlock True = Inr (0, False)"
  by (simp_all add: mutex_run)

lemma push_command_ok:
  assumes "queue_inv (prm_queue p)" "\<not> prm_queue_mutex p"
  shows "\<exists>q. push_command p c = Inr (p\<lparr>prm_queue := q\<rparr>) \<and> queue_inv q \<and>
             queue_list q = queue_list (prm_queue p) @ [c]"
proof -
  obtain r q where q: "queue_push (prm_queue p) c = Inr (r, q)" "queue_inv q"
      "queue_list q = queue_list (prm_queue p) @ [c]"
    using fq.push_any [OF assms(1), of c] by blast
  have "p\<lparr>prm_queue := q, prm_queue_mutex := False\<rparr> = p\<lparr>prm_queue := q\<rparr>" using assms(2) by (cases p) simp
  then have "push_command p c = Inr (p\<lparr>prm_queue := q\<rparr>)"
    using q(1) assms(2) by (simp add: push_command_def)
  with q(2,3) show ?thesis by blast
qed

lemma prm_thread_step:
  assumes inv: "mmu_inv m" and free: "mmu_lock m = rw_free"
    and q: "queue_inv (prm_queue p)" "queue_list (prm_queue p) = c # cs"
    and mutex: "\<not> prm_mutex p" "\<not> prm_queue_mutex p"
    and cmd: "prm_cmds p c = Some cd"
    and absent: "m_abs m (vkey (cmd_addr cd)) = None" and backed: "m_bk m (vkey (cmd_addr cd)) = Some b"
  shows "\<exists>m' p'. prm_thread_func m p = Inr (False, m', p') \<and> mmu_inv m' \<and> same_rest m m' \<and>
           fault_exact m (vkey (cmd_addr cd)) m' \<and> vmem m \<subseteq>\<^sub>m vmem m' \<and> stable m' (vkey (cmd_addr cd)) \<and>
           queue_inv (prm_queue p') \<and> queue_list (prm_queue p') = cs \<and> \<not> prm_mutex p' \<and> \<not> prm_queue_mutex p' \<and>
           prm_running p' = prm_running p \<and> prm_oom p' = prm_oom p \<and> prm_brk p' = prm_brk p \<and>
           prm_cmds p' = (prm_cmds p)(c \<mapsto> cd\<lparr>cmd_done := True\<rparr>)"
proof -
  obtain q' where q': "queue_pop (prm_queue p) = Inr (Some c, q')" "queue_inv q'" "queue_list q' = cs"
    using fq.pop_cons [OF q] by blast
  obtain m' s' where serve: "prm_serve m (prm_oldest p) (cmd_addr cd) = Inr (m', s')" "mmu_inv m'" "same_rest m m'"
      "fault_exact m (vkey (cmd_addr cd)) m'" "vmem m \<subseteq>\<^sub>m vmem m'" "stable m' (vkey (cmd_addr cd))"
    using prm_serve_ok [OF inv free absent backed] by blast
  let ?p' = "p\<lparr>prm_queue := q', prm_queue_mutex := False,
      prm_cmds := (prm_cmds p)(c \<mapsto> cd\<lparr>cmd_done := True\<rparr>), prm_oldest := s', prm_mutex := False\<rparr>"
  have "prm_thread_func m p = Inr (False, m', ?p')"
    using q'(1) serve(1) mutex cmd by (simp add: prm_thread_func_def cmd_load_def Let_def)
  then show ?thesis using q'(2,3) serve(2-6) by (intro exI [of _ m'] exI [of _ ?p']) simp
qed

lemma prm_pagefault_ok:
  assumes inv: "mmu_inv m" and free: "mmu_lock m = rw_free" and idle: "prm_idle p"
    and absent: "m_abs m (vkey a) = None" and backed: "m_bk m (vkey a) = Some b"
  shows "\<exists>m' p'. prm_pagefault m p a = Inr (ecSuccess, m', p') \<and> prm_idle p' \<and> mmu_inv m' \<and>
           same_rest m m' \<and> fault_exact m (vkey a) m' \<and> vmem m \<subseteq>\<^sub>m vmem m' \<and> stable m' (vkey a)"
proof -
  have I: "queue_inv (prm_queue p)" "queue_list (prm_queue p) = []" "\<not> prm_mutex p" "\<not> prm_queue_mutex p"
      "prm_running p" "\<And>i. \<not> prm_oom p i"
    using idle by (simp_all add: prm_idle_def)
  let ?c = "prm_brk p" and ?cd = "\<lparr>cmd_addr = a, cmd_done = False\<rparr>"
  let ?p1 = "p\<lparr>prm_cmds := (prm_cmds p)(?c \<mapsto> ?cd), prm_brk := Suc ?c\<rparr>"
  obtain q where q: "push_command ?p1 ?c = Inr (?p1\<lparr>prm_queue := q\<rparr>)" "queue_inv q" "queue_list q = [?c]"
    using push_command_ok [of ?p1 ?c] I by auto
  let ?p2 = "?p1\<lparr>prm_queue := q\<rparr>"
  obtain m' p' where step: "prm_thread_func m ?p2 = Inr (False, m', p')" "mmu_inv m'" "same_rest m m'"
      "fault_exact m (vkey a) m'" "vmem m \<subseteq>\<^sub>m vmem m'" "stable m' (vkey a)"
      "queue_inv (prm_queue p')" "queue_list (prm_queue p') = []" "\<not> prm_mutex p'" "\<not> prm_queue_mutex p'"
      "prm_running p' = prm_running p" "prm_oom p' = prm_oom p"
      "prm_cmds p' = (prm_cmds ?p2)(?c \<mapsto> ?cd\<lparr>cmd_done := True\<rparr>)"
    using prm_thread_step [OF inv free, of ?p2 ?c "[]" ?cd b] q(2,3) I absent backed by auto
  have sz: "nat (queue_size q) = Suc 0" using fq.count_ok [OF q(2)] q(3) by simp
  have unlock: "?p2\<lparr>prm_mutex := False\<rparr> = ?p2" using I(3) by (cases p) simp
  have "wait_for_completion (Suc (Suc 0)) m (?p2\<lparr>prm_mutex := True\<rparr>) ?c = Inr (m', p'\<lparr>prm_mutex := True\<rparr>)"
    using step(1,9,13) unlock by (simp add: cmd_load_def)
  then have "prm_pagefault m p a =
      Inr (ecSuccess, m', p'\<lparr>prm_mutex := False, prm_cmds := (prm_cmds p')(?c := None)\<rparr>)"
    using q(1) sz I step(13)
    by (simp add: prm_pagefault_def fault_push_def new_prm_command_def delete_prm_command_def cmd_load_def
        del: wait_for_completion.simps)
  then show ?thesis
    using step I by (intro exI [of _ m'] exI [of _ "p'\<lparr>prm_mutex := False, prm_cmds := (prm_cmds p')(?c := None)\<rparr>"])
      (simp add: prm_idle_def)
qed

end
