(* ===== verification/Mmu_Proofs.thy ===== *)
theory Mmu_Proofs
  imports Mmu Prm_Proofs
begin

text \<open>
  Reading and writing through the MMU: every access to an allocated page returns, reads what was
  written last, and keeps the contents of all other pages, whatever is swapped in and out on the
  way.
\<close>

subsection \<open>Ageing\<close>

definition ag_idle :: "aging_t \<Rightarrow> bool" where
  "ag_idle ag \<longleftrightarrow> ag_running ag \<and> \<not> ag_mutex ag"

text \<open>What one update does to the page data: every mapped page ages.\<close>

definition aged :: "nat \<Rightarrow> (nat \<Rightarrow> page_data_t) \<Rightarrow> nat \<Rightarrow> page_data_t" where
  "aged n pd k = (if k < n \<and> pd_valid (pd k) then age_page (word_of_int (int k)) (pd k) else pd k)"

definition ipt_only :: "mmu_t \<Rightarrow> mmu_t \<Rightarrow> bool" where
  "ipt_only m m' \<longleftrightarrow> (\<exists>t. m' = m\<lparr>mmu_mem_ipt := t\<rparr> \<and> same_map (mmu_mem_ipt m) t)"

lemma ipt_only_facts:
  assumes "ipt_only m m'"
  shows "mmu_mem m' = mmu_mem m" "mmu_disk m' = mmu_disk m" "m_bk m' = m_bk m" "m_abs m' = m_abs m"
    "m_spare m' = m_spare m" "mmu_lock m' = mmu_lock m" "mmu_stats m' = mmu_stats m"
    "mmu_aging_freq m' = mmu_aging_freq m" "mmu_inv m \<Longrightarrow> mmu_inv m'"
proof -
  obtain t where t: "m' = m\<lparr>mmu_mem_ipt := t\<rparr>" "same_map (mmu_mem_ipt m) t"
    using assms by (auto simp: ipt_only_def)
  then show "mmu_mem m' = mmu_mem m" "mmu_disk m' = mmu_disk m" "m_bk m' = m_bk m" "m_abs m' = m_abs m"
    "m_spare m' = m_spare m" "mmu_lock m' = mmu_lock m" "mmu_stats m' = mmu_stats m"
    "mmu_aging_freq m' = mmu_aging_freq m" "mmu_inv m \<Longrightarrow> mmu_inv m'"
    by (simp_all add: same_map_def m_bk_def mmu_inv_def)
qed

lemma ipt_only_trans: "ipt_only a b \<Longrightarrow> ipt_only b c \<Longrightarrow> ipt_only a c"
  unfolding ipt_only_def using same_map_trans by fastforce

lemma daemon_func_ok:
  assumes inv: "mmu_inv m" and free: "mmu_lock m = rw_shared n"
    and ag: "\<not> ag_mutex ag" "ag_should_update ag"
  shows "\<exists>m'. daemon_func m ag = Inr (False, m', ag\<lparr>ag_should_update := False, ag_done_updating := True\<rparr>) \<and>
           ipt_only m m' \<and> m_pd m' = aged (mm_frames (mmu_mem m)) (m_pd m) \<and>
           ipt_ref_count (mmu_mem_ipt m') = ipt_ref_count (mmu_mem_ipt m)"
proof -
  note D = mmu_invD [OF inv]
  let ?f = "\<lambda>a pd (_ :: unit). (age_page a pd, ())"
  obtain t where t: "ipt_for_each_entry (mmu_mem_ipt m) ?f () = Inr (ecSuccess, t, ())"
      "same_map (mmu_mem_ipt m) t" "ipt_ref_count t = ipt_ref_count (mmu_mem_ipt m)"
      "(ipt_pd t, ()) = fold (visit ?f) [0..<mm_frames (mmu_mem m)] (m_pd m, ())"
    using ipt_for_each_entry_ok [OF D(3), of ?f "()"] D(5) by auto
  have "ipt_pd t = fst (fold (visit ?f) [0..<mm_frames (mmu_mem m)] (m_pd m, ()))"
    using t(4) by (metis fst_conv)
  then have pd: "ipt_pd t = aged (mm_frames (mmu_mem m)) (m_pd m)"
    unfolding fold_visit_unit aged_def .
  have m0: "m\<lparr>mmu_lock := rw_shared n\<rparr> = m" using free by simp
  have ag0: "ag\<lparr>ag_should_update := False, ag_done_updating := True, ag_mutex := False\<rparr> =
      ag\<lparr>ag_should_update := False, ag_done_updating := True\<rparr>" using ag by (cases ag) simp
  have "daemon_func m ag = Inr (False, m\<lparr>mmu_mem_ipt := t\<rparr>, ag\<lparr>ag_should_update := False, ag_done_updating := True\<rparr>)"
    using t(1) ag free ag0 m0
    by (simp add: daemon_func_def mmu_shared_steps mmu_for_each_mem_page_def)
  then show ?thesis using t(2,3) pd by (intro exI [of _ "m\<lparr>mmu_mem_ipt := t\<rparr>"]) (auto simp: ipt_only_def)
qed

lemma update_pages_ok:
  assumes inv: "mmu_inv m" and free: "mmu_lock m = rw_shared n" and ag: "ag_idle ag"
  shows "\<exists>m' ag'. aging_daemon_update_pages m ag = Inr (ecSuccess, m', ag') \<and> ag_idle ag' \<and> ipt_only m m' \<and>
           m_pd m' = aged (mm_frames (mmu_mem m)) (m_pd m) \<and>
           ipt_ref_count (mmu_mem_ipt m') = ipt_ref_count (mmu_mem_ipt m)"
proof -
  have A: "ag_running ag" "\<not> ag_mutex ag" using ag by (simp_all add: ag_idle_def)
  let ?ag0 = "ag\<lparr>ag_done_updating := False, ag_should_update := True, ag_mutex := False\<rparr>"
  obtain m' where m': "daemon_func m ?ag0 =
        Inr (False, m', ?ag0\<lparr>ag_should_update := False, ag_done_updating := True\<rparr>)" "ipt_only m m'"
      "m_pd m' = aged (mm_frames (mmu_mem m)) (m_pd m)"
      "ipt_ref_count (mmu_mem_ipt m') = ipt_ref_count (mmu_mem_ipt m)"
    using daemon_func_ok [OF inv free, of ?ag0] by auto
  let ?ag' = "?ag0\<lparr>ag_should_update := False, ag_done_updating := True\<rparr>"
  have "aging_daemon_update_pages m ag = Inr (ecSuccess, m', ?ag')"
    using A m'(1) by (simp add: aging_daemon_update_pages_def numeral_2_eq_2)
  then show ?thesis using A m'(2-4) by (intro exI [of _ m'] exI [of _ ?ag']) (simp add: ag_idle_def)
qed

subsection \<open>The whole state\<close>

definition vm_inv :: "vm_t \<Rightarrow> bool" where
  "vm_inv vm \<longleftrightarrow> mmu_inv (vm_mmu vm) \<and> mmu_lock (vm_mmu vm) = rw_free \<and> prm_idle (vm_prm vm) \<and>
     ag_idle (vm_aging vm)"

declare vm_inv_def [whole]

abbreviation vm_view :: "vm_t \<Rightarrow> vkey \<rightharpoonup> byte list" where
  "vm_view vm \<equiv> vmem (vm_mmu vm)"

abbreviation vm_bk :: "vm_t \<Rightarrow> vkey \<rightharpoonup> int" where
  "vm_bk vm \<equiv> m_bk (vm_mmu vm)"

abbreviation vm_psize :: "vm_t \<Rightarrow> nat" where
  "vm_psize vm \<equiv> mm_psize (mmu_mem (vm_mmu vm))"

lemma ipt_only_dirty_view:
  assumes "ipt_only m m'" "\<And>f. pd_dirty (m_pd m' f) = pd_dirty (m_pd m f)"
  shows "stable m' = stable m" "page_of m' = page_of m" "vmem m' = vmem m"
  by (rule view_cong; simp add: ipt_only_facts [OF assms(1)] assms(2))+

text \<open>The round of the daemon does not touch the page replacement manager, whatever that is doing.\<close>

lemma age_round:
  assumes inv: "mmu_inv (vm_mmu vm)" and free: "mmu_lock (vm_mmu vm) = rw_shared n" and ag: "ag_idle (vm_aging vm)"
  shows "\<exists>m' ag'. mmu_age_pages_if_needed vm = Inr (ecSuccess, vm\<lparr>vm_mmu := m', vm_aging := ag'\<rparr>) \<and>
           ag_idle ag' \<and> ipt_only (vm_mmu vm) m' \<and>
           page_of m' = page_of (vm_mmu vm) \<and> stable m' = stable (vm_mmu vm) \<and> vmem m' = vm_view vm \<and>
           (if ipt_ref_count (mmu_mem_ipt (vm_mmu vm)) \<ge> mmu_aging_freq (vm_mmu vm)
            then ipt_ref_count (mmu_mem_ipt m') = 0 \<and>
                 m_pd m' = aged (mm_frames (mmu_mem (vm_mmu vm))) (m_pd (vm_mmu vm))
            else m' = vm_mmu vm)"
proof -
  let ?m = "vm_mmu vm"
  note D = mmu_invD [OF inv]
  show ?thesis
  proof (cases "ipt_ref_count (mmu_mem_ipt ?m) \<ge> mmu_aging_freq ?m")
    case False
    then have "mmu_age_pages_if_needed vm = Inr (ecSuccess, vm\<lparr>vm_mmu := ?m, vm_aging := vm_aging vm\<rparr>)"
      by (simp add: mmu_age_pages_if_needed_def ipt_ref_count_of_inv D)
    then show ?thesis
      using False ag same_map_refl [OF D(3)]
      by (intro exI [of _ ?m] exI [of _ "vm_aging vm"]) (auto simp: ipt_only_def intro!: exI [of _ "mmu_mem_ipt ?m"])
  next
    case True
    let ?m1 = "?m\<lparr>mmu_mem_ipt := (mmu_mem_ipt ?m)\<lparr>ipt_ref_count := 0\<rparr>\<rparr>"
    have o1: "ipt_only ?m ?m1" unfolding ipt_only_def using ref_count_same(1) [OF D(3)] by blast
    have pd1: "m_pd ?m1 = m_pd ?m" by (simp add: ref_count_same(2))
    have "mmu_inv ?m1" "mmu_lock ?m1 = rw_shared n" using ipt_only_facts [OF o1] inv free by simp_all
    from update_pages_ok [OF this ag] obtain m' ag' where
      up: "aging_daemon_update_pages ?m1 (vm_aging vm) = Inr (ecSuccess, m', ag')" "ag_idle ag'" "ipt_only ?m1 m'"
        "m_pd m' = aged (mm_frames (mmu_mem ?m)) (m_pd ?m)" "ipt_ref_count (mmu_mem_ipt m') = 0"
      using pd1 by auto
    have o2: "ipt_only ?m m'" using o1 up(3) by (rule ipt_only_trans)
    have dirty: "pd_dirty (m_pd m' f) = pd_dirty (m_pd ?m f)" for f by (simp add: up(4) aged_def)
    have "mmu_age_pages_if_needed vm = Inr (ecSuccess, vm\<lparr>vm_mmu := m', vm_aging := ag'\<rparr>)"
      using True up(1) by (simp add: mmu_age_pages_if_needed_def ipt_ref_count_of_inv ipt_zero_ref_count_inv D)
    then show ?thesis using True up(2,4,5) o2 ipt_only_dirty_view [OF o2 dirty] by auto
  qed
qed

lemma age_if_needed_ok:
  assumes inv: "vm_inv vm"
  shows "\<exists>m' ag'. mmu_age_pages_if_needed vm = Inr (ecSuccess, vm\<lparr>vm_mmu := m', vm_aging := ag'\<rparr>) \<and>
           vm_inv (vm\<lparr>vm_mmu := m', vm_aging := ag'\<rparr>) \<and> ipt_only (vm_mmu vm) m' \<and>
           page_of m' = page_of (vm_mmu vm) \<and> stable m' = stable (vm_mmu vm) \<and> vmem m' = vm_view vm \<and>
           (if ipt_ref_count (mmu_mem_ipt (vm_mmu vm)) \<ge> mmu_aging_freq (vm_mmu vm)
            then ipt_ref_count (mmu_mem_ipt m') = 0 \<and>
                 m_pd m' = aged (mm_frames (mmu_mem (vm_mmu vm))) (m_pd (vm_mmu vm))
            else m' = vm_mmu vm)"
proof -
  have I: "mmu_inv (vm_mmu vm)" "mmu_lock (vm_mmu vm) = rw_free" "prm_idle (vm_prm vm)" "ag_idle (vm_aging vm)"
    using inv by (simp_all add: vm_inv_def)
  have keep: "vm_inv (vm\<lparr>vm_mmu := m', vm_aging := ag'\<rparr>)" if "ipt_only (vm_mmu vm) m'" "ag_idle ag'" for m' ag'
    using ipt_only_facts [OF that(1)] I that(2) by (simp add: vm_inv_def)
  from age_round [OF I(1) I(2) [folded rw_shared_0] I(4)] show ?thesis by (elim exE conjE) (intro exI conjI keep; assumption)
qed

subsection \<open>Pinning\<close>

text \<open>The statistics after a reference that did or did not find its page mapped.\<close>

definition count_ref :: "bool \<Rightarrow> mmu_stats_t \<Rightarrow> mmu_stats_t" where
  "count_ref hit st = (if hit then st\<lparr>st_hits := st_hits st + 1, st_nrefs := st_nrefs st + 1\<rparr>
                       else st\<lparr>st_nrefs := st_nrefs st + 1\<rparr>)"

lemma stats_indep [simp]:
  "m_bk (m\<lparr>mmu_stats := st, mmu_stats_lock := l\<rparr>) = m_bk m"
  "stable (m\<lparr>mmu_stats := st, mmu_stats_lock := l\<rparr>) = stable m"
  "page_of (m\<lparr>mmu_stats := st, mmu_stats_lock := l\<rparr>) = page_of m"
  "vmem (m\<lparr>mmu_stats := st, mmu_stats_lock := l\<rparr>) = vmem m"
  "mmu_inv m \<Longrightarrow> mmu_inv (m\<lparr>mmu_stats := st, mmu_stats_lock := rw_free\<rparr>)"
proof -
  show "m_bk (m\<lparr>mmu_stats := st, mmu_stats_lock := l\<rparr>) = m_bk m" by (simp add: m_bk_def)
  show "mmu_inv m \<Longrightarrow> mmu_inv (m\<lparr>mmu_stats := st, mmu_stats_lock := rw_free\<rparr>)"
    by (simp add: mmu_inv_def m_bk_def)
qed (rule view_cong; simp add: m_bk_def)+

text \<open>What a pinned page has cost: nothing, or a fault.\<close>

definition pin_effect :: "mmu_t \<Rightarrow> vkey \<Rightarrow> mmu_t \<Rightarrow> bool" where
  "pin_effect m key m' \<longleftrightarrow>
     (if m_abs m key \<noteq> None then m_abs m' = m_abs m \<and> m_spare m' = m_spare m else fault_effect m key m') \<and>
     mmu_stats m' = count_ref (m_abs m key \<noteq> None) (mmu_stats m)"

lemma fault_effect_lock:
  "fault_effect (m\<lparr>mmu_lock := l\<rparr>) key m' = fault_effect m key m'"
  "fault_effect m key (m'\<lparr>mmu_lock := l\<rparr>) = fault_effect m key m'"
  by (cases "m_spare m"; simp add: fault_effect_def)+

lemma fault_effect_mapped: "fault_effect m key m' \<Longrightarrow> \<exists>f. m_abs m' key = Some f"
  by (cases "m_spare m") (auto simp: fault_effect_def)

lemma fault_loop_ok:
  assumes inv: "mmu_inv (vm_mmu vm)" and lock: "mmu_lock (vm_mmu vm) = rw_reading" and idle: "prm_idle (vm_prm vm)"
    and absent: "m_abs (vm_mmu vm) (vkey a) = None" and backed: "vm_bk vm (vkey a) = Some b"
  shows "\<exists>m' p'. fault_loop 2 vm a = Inr (ecSuccess, vm\<lparr>vm_mmu := m', vm_prm := p'\<rparr>) \<and> mmu_inv m' \<and>
           same_rest (vm_mmu vm) m' \<and> prm_idle p' \<and> fault_effect (vm_mmu vm) (vkey a) m' \<and>
           vm_view vm \<subseteq>\<^sub>m vmem m' \<and> stable m' (vkey a)"
proof -
  let ?m = "(vm_mmu vm)\<lparr>mmu_lock := rw_free\<rparr>"
  obtain m1 p' where step: "prm_pagefault ?m (vm_prm vm) a = Inr (ecSuccess, m1, p')" "prm_idle p'" "mmu_inv m1"
      "same_rest ?m m1" "fault_exact ?m (vkey a) m1" "vmem ?m \<subseteq>\<^sub>m vmem m1" "stable m1 (vkey a)"
    using prm_pagefault_ok [of ?m "vm_prm vm" a b] inv idle absent backed by auto
  note effect = fault_exactD [OF step(5)]
  have lk: "mmu_lock m1 = rw_free" using step(4) by (simp add: same_rest_def)
  let ?m' = "m1\<lparr>mmu_lock := rw_reading\<rparr>"
  have mapped: "m_abs m1 (vkey a) \<noteq> None" using fault_effect_mapped [OF effect] by auto
  have "fault_loop 2 vm a = Inr (ecSuccess, vm\<lparr>vm_mmu := ?m', vm_prm := p'\<rparr>)"
    using lock step(1) lk mapped
    by (simp add: numeral_2_eq_2 mmu_lock_steps ipt_has_translation_inv mmu_invD(3) [OF step(3)] Let_def)
  moreover have "same_rest (vm_mmu vm) ?m'"
    using same_rest_lock [OF step(4)] lock by simp
  moreover have "fault_effect (vm_mmu vm) (vkey a) ?m'" using effect by (simp add: fault_effect_lock)
  ultimately show ?thesis using step by (intro exI [of _ ?m'] exI [of _ p']) simp
qed

lemma pin_ok:
  assumes inv: "mmu_inv (vm_mmu vm)" and lock: "mmu_lock (vm_mmu vm) = rw_reading" and idle: "prm_idle (vm_prm vm)"
    and backed: "vm_bk vm (vkey a) = Some b"
  shows "\<exists>m' p'. mmu_pin_page vm a = Inr (ecSuccess, vm\<lparr>vm_mmu := m', vm_prm := p'\<rparr>) \<and> mmu_inv m' \<and>
           prm_idle p' \<and> mmu_lock m' = rw_reading \<and> m_bk m' = vm_bk vm \<and>
           mm_page_size (mmu_mem m') = mm_page_size (mmu_mem (vm_mmu vm)) \<and>
           mm_npages (mmu_mem m') = mm_npages (mmu_mem (vm_mmu vm)) \<and>
           disk_shape (mmu_disk m') = disk_shape (mmu_disk (vm_mmu vm)) \<and>
           vm_view vm \<subseteq>\<^sub>m vmem m' \<and> page_of m' (vkey a) = page_of (vm_mmu vm) (vkey a) \<and>
           (\<exists>f. m_abs m' (vkey a) = Some f) \<and> pin_effect (vm_mmu vm) (vkey a) m'"
proof -
  let ?m = "vm_mmu vm" let ?hit = "m_abs ?m (vkey a) \<noteq> None"
  let ?m1 = "?m\<lparr>mmu_stats := count_ref ?hit (mmu_stats ?m), mmu_stats_lock := rw_free\<rparr>"
  let ?vm1 = "vm\<lparr>vm_mmu := ?m1\<rparr>"
  note D = mmu_invD [OF inv]
  have run: "mmu_pin_page vm a = (if ?hit then Inr (ecSuccess, ?vm1) else fault_loop 2 ?vm1 a)"
    using D(9) by (simp add: mmu_pin_page_def pin_count_def ipt_has_translation_inv D count_ref_def Let_def)
  show ?thesis
  proof (cases ?hit)
    case True
    then show ?thesis
      using run inv lock idle by (intro exI [of _ ?m1] exI [of _ "vm_prm vm"]) (auto simp: pin_effect_def)
  next
    case False
    obtain m' p' where step: "fault_loop 2 ?vm1 a = Inr (ecSuccess, ?vm1\<lparr>vm_mmu := m', vm_prm := p'\<rparr>)" "mmu_inv m'"
        "same_rest ?m1 m'" "prm_idle p'" "fault_effect ?m1 (vkey a) m'" "vmem ?m \<subseteq>\<^sub>m vmem m'" "stable m' (vkey a)"
      using fault_loop_ok [of ?vm1 a b] inv lock idle backed False by auto
    have "stable ?m (vkey a)" using False by (simp add: stable_def)
    then have "vmem ?m (vkey a) \<noteq> None" using backed by (simp add: vmem_def page_of_def split: option.split)
    then have "vmem m' (vkey a) = vmem ?m (vkey a)" using step(6) by (metis domIff map_le_def)
    then have "page_of m' (vkey a) = page_of ?m (vkey a)"
      using step(7) \<open>stable ?m (vkey a)\<close> by (simp add: vmem_def)
    moreover have "fault_effect ?m (vkey a) m'"
      using step(5) by (cases "m_spare ?m") (auto simp: fault_effect_def)
    ultimately show ?thesis
      using False run step fault_effect_mapped [OF step(5)]
      by (intro exI [of _ m'] exI [of _ p']) (simp add: same_rest_def pin_effect_def lock)
  qed
qed

subsection \<open>Bytes of a frame\<close>

lemma int_add_nat: "x + y < 2 ^ 31 \<Longrightarrow> int_add (int x) (int y) = Inr (int (x + y))"
  by (simp add: int_add_def)

lemma mm_bound:
  assumes "mm_inv mem"
  shows "mm_page_size mem = int (mm_psize mem)" "mm_frames mem * mm_psize mem < 2 ^ 31" "mm_psize mem < 2 ^ 31"
proof -
  have pos: "0 < mm_npages mem" "0 < mm_page_size mem" "mm_npages mem * mm_page_size mem < 2 ^ 31"
    using assms by (simp_all add: mm_inv_def)
  then show "mm_page_size mem = int (mm_psize mem)" by simp
  have "nat (mm_npages mem * mm_page_size mem) < 2 ^ 31" using pos by (simp add: nat_less_iff)
  then show lt: "mm_frames mem * mm_psize mem < 2 ^ 31" using pos by (simp add: nat_mult_distrib)
  have "1 * mm_psize mem \<le> mm_frames mem * mm_psize mem" using pos by (intro mult_le_mono1) simp
  with lt show "mm_psize mem < 2 ^ 31" by linarith
qed

lemma byte_addr_inv:
  assumes mem: "mm_inv mem" and f: "f < mm_frames mem" and w: "unat w \<le> mm_psize mem"
  shows "uint (byte_addr mem (word_of_int (int f)) w) = int (f * mm_psize mem + unat w)"
proof -
  have "f * mm_psize mem + mm_psize mem \<le> mm_frames mem * mm_psize mem"
    using f by (metis Suc_leI add.commute mult_Suc mult_le_mono1)
  then have "f * mm_psize mem + unat w < 2 ^ 31" using w mm_bound(2) [OF mem] by linarith
  then have lt: "f * mm_psize mem + unat w < 2 ^ 32" by simp
  have "byte_addr mem (word_of_int (int f)) w = word_of_int (int (f * mm_psize mem + unat w))"
  proof -
    have "(word_of_int (int f) * word_of_int (int p) + w :: u32) = word_of_int (int (f * p + unat w))" for p
      by simp
    from this [of "mm_psize mem"] show ?thesis
      unfolding byte_addr_def mm_bound(1) [OF mem, symmetric] .
  qed
  then show ?thesis by (simp only: uint_nat unat_small [OF lt])
qed

lemma frame_peek:
  assumes mem: "mm_inv mem" and f: "f < mm_frames mem" and fit: "unat w + n \<le> mm_psize mem"
  shows "mem_read (mm_bytes mem) (uint (byte_addr mem (word_of_int (int f)) w)) n =
           Inr (take n (drop (unat w) (mm_page mem f)))"
proof -
  have len: "length (mm_bytes mem) = mm_frames mem * mm_psize mem" using mem by (simp add: mm_inv_def)
  have "f * mm_psize mem + unat w + n \<le> length (mm_bytes mem)"
    using page_fits [OF f len] fit by linarith
  moreover have "unat w \<le> mm_psize mem" using fit by simp
  moreover have "take n (drop (unat w) (mm_page mem f)) = take n (drop (f * mm_psize mem + unat w) (mm_bytes mem))"
    using fit by (simp add: mm_page_def page_at_def drop_take min_def add.commute)
  ultimately show ?thesis by (simp only: byte_addr_inv [OF mem f] mem_read_in)
qed

lemma frame_poke:
  assumes mem: "mm_inv mem" and f: "f < mm_frames mem" and fit: "unat w + n \<le> mm_psize mem" "n \<le> length buf"
  shows "\<exists>bs. mem_write (mm_bytes mem) (uint (byte_addr mem (word_of_int (int f)) w)) buf n = Inr bs \<and>
           mm_inv (mem\<lparr>mm_bytes := bs\<rparr>) \<and> (\<forall>j < mm_frames mem. mm_page (mem\<lparr>mm_bytes := bs\<rparr>) j =
             (if j = f then overwrite (mm_page mem f) (unat w) (take n buf) else mm_page mem j))"
proof -
  have len: "length (mm_bytes mem) = mm_frames mem * mm_psize mem" using mem by (simp add: mm_inv_def)
  let ?bs = "overwrite (mm_bytes mem) (f * mm_psize mem + unat w) (take n buf)"
  have room: "f * mm_psize mem + unat w + n \<le> length (mm_bytes mem)"
    using page_fits [OF f len] fit by linarith
  have "unat w \<le> mm_psize mem" using fit by simp
  then have "mem_write (mm_bytes mem) (uint (byte_addr mem (word_of_int (int f)) w)) buf n = Inr ?bs"
    by (simp only: byte_addr_inv [OF mem f] mem_write_in [OF room fit(2)])
  moreover have "mm_inv (mem\<lparr>mm_bytes := ?bs\<rparr>)" using mem len room fit by (simp add: mm_inv_def)
  moreover have "unat w + length (take n buf) \<le> mm_psize mem" using fit by simp
  then have "\<forall>j < mm_frames mem. mm_page (mem\<lparr>mm_bytes := ?bs\<rparr>) j =
      (if j = f then overwrite (mm_page mem f) (unat w) (take n buf) else mm_page mem j)"
    using page_at_overwrite_same [OF f len] page_at_overwrite_other [OF f _ _ len] by (auto simp: mm_page_def)
  ultimately show ?thesis by blast
qed

subsection \<open>Reading and writing\<close>

lemma pin_effect_cong:
  "m_abs m1 = m_abs m' \<Longrightarrow> m_spare m1 = m_spare m' \<Longrightarrow> mmu_stats m1 = mmu_stats m' \<Longrightarrow>
   pin_effect m key m' \<Longrightarrow> pin_effect m key m1"
  by (cases "m_spare m") (auto simp: pin_effect_def fault_effect_def)

text \<open>What every access keeps: the invariant, the allocation and the sizes; and what it costs.\<close>

definition access :: "vm_t \<Rightarrow> vkey \<Rightarrow> vm_t \<Rightarrow> bool" where
  "access vm key vm' \<longleftrightarrow> vm_inv vm' \<and> vm_bk vm' = vm_bk vm \<and> vm_psize vm' = vm_psize vm \<and>
     disk_shape (mmu_disk (vm_mmu vm')) = disk_shape (mmu_disk (vm_mmu vm)) \<and>
     pin_effect (vm_mmu vm) key (vm_mmu vm')"

lemma reference_view:
  assumes inv: "mmu_inv m" and f: "m_abs m (vkey a) = Some f"
  shows "\<exists>t. ipt_reference (mmu_mem_ipt m) a r = Inr (ecSuccess, t) \<and> ipt_only m (m\<lparr>mmu_mem_ipt := t\<rparr>) \<and>
           ipt_pd t = (m_pd m)(f := touch r (m_pd m f))"
  using ipt_reference_ok [OF mmu_invD(3) [OF inv] f, of r] by (auto simp: ipt_only_def)

text \<open>A write into a frame that has been marked dirty.\<close>

lemma poke_view:
  assumes m: "mmu_inv m" and f: "m_abs m (vkey a) = Some f"
    and t: "ipt_only m (m\<lparr>mmu_mem_ipt := t\<rparr>)" "ipt_pd t = (m_pd m)(f := touch refWrite (m_pd m f))"
    and mem: "mm_inv mem" "mm_npages mem = mm_npages (mmu_mem m)" "mm_page_size mem = mm_page_size (mmu_mem m)"
      "\<forall>j < mm_frames (mmu_mem m). mm_page mem j = (if j = f then pg' else mm_page (mmu_mem m) j)"
  shows "mmu_inv (m\<lparr>mmu_mem_ipt := t, mmu_mem := mem\<rparr>)"
    "(vmem m)(vkey a \<mapsto> pg') \<subseteq>\<^sub>m vmem (m\<lparr>mmu_mem_ipt := t, mmu_mem := mem\<rparr>)"
proof -
  let ?m' = "m\<lparr>mmu_mem_ipt := t, mmu_mem := mem\<rparr>"
  note O = ipt_only_facts [OF t(1)]
  have ab: "ipt_abs t = m_abs m" using O(4) by simp
  have bk: "m_bk ?m' = m_bk m" by (simp add: m_bk_def)
  show "mmu_inv ?m'" using O(9) [OF m] mem(1-3) by (simp add: mmu_inv_def m_bk_def)
  obtain b where b: "m_bk m (vkey a) = Some b" using mapped_frame(2) [OF m f] by blast
  have fn: "f < mm_frames (mmu_mem m)" by (rule mapped_frame(1) [OF m f])
  show "(vmem m)(vkey a \<mapsto> pg') \<subseteq>\<^sub>m vmem ?m'"
  proof (unfold map_le_def, rule ballI)
    fix k assume k: "k \<in> dom ((vmem m)(vkey a \<mapsto> pg'))"
    show "((vmem m)(vkey a \<mapsto> pg')) k = vmem ?m' k"
    proof (cases "k = vkey a")
      case True
      then show ?thesis
        using f t(2) fn mem(4) b by (simp add: vmem_def stable_def page_of_def ab bk)
    next
      case False
      then have "stable m k" using k by (auto simp: vmem_def split: if_splits)
      have other: "f' \<noteq> f \<and> f' < mm_frames (mmu_mem m)" if "m_abs m k = Some f'" for f'
        using ipt_abs_inj [OF mmu_invD(3) [OF m] f, of k] mapped_frame(1) [OF m that] that False by auto
      then have "stable ?m' k" "page_of ?m' k = page_of m k"
        using \<open>stable m k\<close> t(2) mem(4)
        by (auto simp: stable_def page_of_def ab bk split: option.splits)
      with False \<open>stable m k\<close> show ?thesis by (simp add: vmem_def)
    qed
  qed
qed

text \<open>An access to a pinned page, by a thread that holds the lock: it reads or writes the bytes of the page and gives the lock back.\<close>

lemma read_pinned_shared:
  assumes m: "mmu_inv (vm_mmu vm)" "mmu_lock (vm_mmu vm) = rw_shared (Suc k)" and f: "m_abs (vm_mmu vm) (vkey a) = Some f"
    and fit: "unat (va_offset a) + unat n \<le> vm_psize vm"
  shows "\<exists>t. read_pinned vm a n = Inr (ecSuccess, take (unat n) (drop (unat (va_offset a)) (mm_page (mmu_mem (vm_mmu vm)) f)),
             vm\<lparr>vm_mmu := (vm_mmu vm)\<lparr>mmu_mem_ipt := t, mmu_lock := rw_shared k\<rparr>\<rparr>) \<and>
           mmu_inv ((vm_mmu vm)\<lparr>mmu_mem_ipt := t, mmu_lock := rw_shared k\<rparr>) \<and>
           ipt_only (vm_mmu vm) ((vm_mmu vm)\<lparr>mmu_mem_ipt := t\<rparr>) \<and>
           vmem ((vm_mmu vm)\<lparr>mmu_mem_ipt := t, mmu_lock := rw_shared k\<rparr>) = vm_view vm"
proof -
  let ?m = "vm_mmu vm"
  obtain t where t: "ipt_reference (mmu_mem_ipt ?m) a refRead = Inr (ecSuccess, t)" "ipt_only ?m (?m\<lparr>mmu_mem_ipt := t\<rparr>)"
      "ipt_pd t = (m_pd ?m)(f := touch refRead (m_pd ?m f))"
    using reference_view [OF m(1) f] by blast
  have m3: "mmu_inv (?m\<lparr>mmu_mem_ipt := t\<rparr>)" "ipt_abs t (vkey a) = Some f"
    using ipt_only_facts(4,9) [OF t(2)] m(1) f by simp_all
  have "pd_dirty (m_pd (?m\<lparr>mmu_mem_ipt := t\<rparr>) g) = pd_dirty (m_pd ?m g)" for g using t(3) by simp
  note V = ipt_only_dirty_view [OF t(2) this]
  have "ipt_translate t a = Inr (ecSuccess, word_of_int (int f))"
    using ipt_translate_inv [of t a] mmu_invD(3) [OF m3(1)] m3(2) by simp
  then have "read_pinned vm a n = Inr (ecSuccess, take (unat n) (drop (unat (va_offset a)) (mm_page (mmu_mem ?m) f)),
      vm\<lparr>vm_mmu := ?m\<lparr>mmu_mem_ipt := t, mmu_lock := rw_shared k\<rparr>\<rparr>)"
    using t(1) frame_peek [OF mmu_invD(1) [OF m(1)] mapped_frame(1) [OF m(1) f] fit] m(2)
    by (simp add: read_pinned_def mmu_unpin_page_def mmu_shared_steps Let_def)
  then show ?thesis
    using t(2) m3(1) V(3) mmu_lock_indep(1,2) [where m = "?m\<lparr>mmu_mem_ipt := t\<rparr>" and l = "rw_shared k"] by auto
qed

lemma write_pinned_shared:
  assumes m: "mmu_inv (vm_mmu vm)" "mmu_lock (vm_mmu vm) = rw_shared (Suc k)" and f: "m_abs (vm_mmu vm) (vkey a) = Some f"
    and fit: "unat (va_offset a) + unat n \<le> vm_psize vm" and buf: "unat n \<le> length buf"
  defines "pg' \<equiv> overwrite (mm_page (mmu_mem (vm_mmu vm)) f) (unat (va_offset a)) (take (unat n) buf)"
  shows "\<exists>t mem. write_pinned vm a n buf =
             Inr (ecSuccess, vm\<lparr>vm_mmu := (vm_mmu vm)\<lparr>mmu_mem_ipt := t, mmu_mem := mem, mmu_lock := rw_shared k\<rparr>\<rparr>) \<and>
           mmu_inv ((vm_mmu vm)\<lparr>mmu_mem_ipt := t, mmu_mem := mem, mmu_lock := rw_shared k\<rparr>) \<and>
           mm_npages mem = mm_npages (mmu_mem (vm_mmu vm)) \<and> mm_page_size mem = mm_page_size (mmu_mem (vm_mmu vm)) \<and>
           ipt_only (vm_mmu vm) ((vm_mmu vm)\<lparr>mmu_mem_ipt := t\<rparr>) \<and>
           (vm_view vm)(vkey a \<mapsto> pg') \<subseteq>\<^sub>m vmem ((vm_mmu vm)\<lparr>mmu_mem_ipt := t, mmu_mem := mem, mmu_lock := rw_shared k\<rparr>)"
proof -
  let ?m = "vm_mmu vm"
  obtain t where t: "ipt_reference (mmu_mem_ipt ?m) a refWrite = Inr (ecSuccess, t)" "ipt_only ?m (?m\<lparr>mmu_mem_ipt := t\<rparr>)"
      "ipt_pd t = (m_pd ?m)(f := touch refWrite (m_pd ?m f))"
    using reference_view [OF m(1) f] by blast
  have "ipt_abs t (vkey a) = Some f" "mmu_inv (?m\<lparr>mmu_mem_ipt := t\<rparr>)"
    using ipt_only_facts(4,9) [OF t(2)] m(1) f by simp_all
  then have tr: "ipt_translate t a = Inr (ecSuccess, word_of_int (int f))"
    using ipt_translate_inv [of t a] mmu_invD(3) by fastforce
  obtain bs where bs: "mem_write (mm_bytes (mmu_mem ?m)) (uint (byte_addr (mmu_mem ?m) (word_of_int (int f)) (va_offset a)))
         buf (unat n) = Inr bs" "mm_inv ((mmu_mem ?m)\<lparr>mm_bytes := bs\<rparr>)"
      "\<forall>j < mm_frames (mmu_mem ?m). mm_page ((mmu_mem ?m)\<lparr>mm_bytes := bs\<rparr>) j = (if j = f then pg' else mm_page (mmu_mem ?m) j)"
    unfolding pg'_def using frame_poke [OF mmu_invD(1) [OF m(1)] mapped_frame(1) [OF m(1) f] fit buf] by blast
  let ?mem = "(mmu_mem ?m)\<lparr>mm_bytes := bs\<rparr>"
  have "write_pinned vm a n buf = Inr (ecSuccess, vm\<lparr>vm_mmu := ?m\<lparr>mmu_mem_ipt := t, mmu_mem := ?mem, mmu_lock := rw_shared k\<rparr>\<rparr>)"
    using t(1) tr bs(1) m(2) by (simp add: write_pinned_def mmu_unpin_page_def mmu_shared_steps Let_def)
  moreover note P = poke_view [OF m(1) f t(2,3) bs(2) _ _ bs(3)]
  ultimately show ?thesis
    using t(2) P mmu_lock_indep(1,2) [where m = "?m\<lparr>mmu_mem_ipt := t, mmu_mem := ?mem\<rparr>" and l = "rw_shared k"]
    by (intro exI [of _ t] exI [of _ ?mem]) simp
qed

lemmas read_pinned_ok = read_pinned_shared [where k = 0, unfolded rw_shared_0]
lemmas write_pinned_ok = write_pinned_shared [where k = 0, unfolded rw_shared_0]

text \<open>The first half of every access: lock and pin.\<close>

lemma access_open:
  assumes inv: "vm_inv vm" and pg: "page_of (vm_mmu vm) (vkey a) = Some pg"
  obtains m2 p2 f where
    "mmu_acquire_read (vm_mmu vm) = Inr ((vm_mmu vm)\<lparr>mmu_lock := rw_reading\<rparr>)"
    "mmu_pin_page (vm\<lparr>vm_mmu := (vm_mmu vm)\<lparr>mmu_lock := rw_reading\<rparr>\<rparr>) a =
       Inr (ecSuccess, vm\<lparr>vm_mmu := m2, vm_prm := p2\<rparr>)"
    "mmu_inv m2" "mmu_lock m2 = rw_reading" "prm_idle p2"
    "m_bk m2 = vm_bk vm" "mm_psize (mmu_mem m2) = vm_psize vm" "vm_view vm \<subseteq>\<^sub>m vmem m2"
    "m_abs m2 (vkey a) = Some f" "mm_page (mmu_mem m2) f = pg"
    "pin_effect (vm_mmu vm) (vkey a) m2" "disk_shape (mmu_disk m2) = disk_shape (mmu_disk (vm_mmu vm))"
proof -
  let ?m = "vm_mmu vm"
  have I: "mmu_inv ?m" "mmu_lock ?m = rw_free" "prm_idle (vm_prm vm)"
    using inv by (simp_all add: vm_inv_def)
  obtain b where b: "vm_bk vm (vkey a) = Some b" using pg by (auto simp: page_of_def split: option.splits)
  let ?vm1 = "vm\<lparr>vm_mmu := ?m\<lparr>mmu_lock := rw_reading\<rparr>\<rparr>"
  obtain m2 p2 f where pin: "mmu_pin_page ?vm1 a = Inr (ecSuccess, vm\<lparr>vm_mmu := m2, vm_prm := p2\<rparr>)" "mmu_inv m2"
      "prm_idle p2" "mmu_lock m2 = rw_reading" "m_bk m2 = vm_bk vm"
      "mm_page_size (mmu_mem m2) = mm_page_size (mmu_mem ?m)"
      "disk_shape (mmu_disk m2) = disk_shape (mmu_disk ?m)"
      "vm_view vm \<subseteq>\<^sub>m vmem m2" "page_of m2 (vkey a) = Some pg" "m_abs m2 (vkey a) = Some f"
      "pin_effect (?m\<lparr>mmu_lock := rw_reading\<rparr>) (vkey a) m2"
    using pin_ok [of ?vm1 a b] I b pg by auto
  moreover have "mm_page (mmu_mem m2) f = pg" using pin(5,9,10) b by (simp add: page_of_def)
  moreover have "pin_effect ?m (vkey a) m2" using pin(11)
    by (auto simp: pin_effect_def fault_effect_lock split: if_splits)
  ultimately show thesis
    using mmu_lock_steps(2) [OF I(2)] by (intro that [of p2 m2 f]) simp_all
qed

text \<open>The end of every access: the pages age when it is time. \<open>m3\<close> is the MMU after the lock was released.\<close>

lemma access_close:
  assumes inv: "vm_inv vm" and m3: "mmu_inv m3" "mmu_lock m3 = rw_free" and p: "prm_idle p"
    and m2: "ipt_only m2 (m2\<lparr>mmu_mem_ipt := t\<rparr>)" "m3 = m2\<lparr>mmu_mem_ipt := t, mmu_mem := mem, mmu_lock := rw_free\<rparr>"
      "m_bk m2 = vm_bk vm" "mm_psize mem = vm_psize vm" "pin_effect (vm_mmu vm) key m2"
      "disk_shape (mmu_disk m2) = disk_shape (mmu_disk (vm_mmu vm))"
  shows "\<exists>vm'. mmu_age_pages_if_needed (vm\<lparr>vm_prm := p, vm_mmu := m3\<rparr>) = Inr (ecSuccess, vm') \<and>
           access vm key vm' \<and> vm_view vm' = vmem m3"
proof -
  have "vm_inv (vm\<lparr>vm_prm := p, vm_mmu := m3\<rparr>)" using inv m3 p by (simp add: vm_inv_def)
  from age_if_needed_ok [OF this] obtain m5 ag where
    A: "mmu_age_pages_if_needed (vm\<lparr>vm_prm := p, vm_mmu := m3\<rparr>) = Inr (ecSuccess, vm\<lparr>vm_prm := p, vm_mmu := m5, vm_aging := ag\<rparr>)"
      "vm_inv (vm\<lparr>vm_prm := p, vm_mmu := m5, vm_aging := ag\<rparr>)" "ipt_only m3 m5" "vmem m5 = vmem m3" by auto
  note O = ipt_only_facts [OF m2(1)] and O5 = ipt_only_facts [OF A(3)]
  have "pin_effect (vm_mmu vm) key m5"
    by (rule pin_effect_cong [OF _ _ _ m2(5)]) (use O O5 m2(2) in simp_all)
  moreover have "m_bk m3 = m_bk m2" by (simp add: m2(2) m_bk_def)
  ultimately show ?thesis using A m2(3,4,6) O5(1-3) by (simp add: access_def) (simp add: m2(2))
qed

lemma read_fits_ok:
  assumes mi: "mmu_inv (vm_mmu vm)" and fit: "unat (va_offset a) + unat n \<le> vm_psize vm"
  shows "read_fits vm a n = Inr ()"
proof -
  let ?m = "vm_mmu vm" let ?e = "int (unat (va_offset a) + unat n)"
  note ps = mm_bound(1,3) [OF mmu_invD(1) [OF mi]]
  have "unat (va_offset a) < 2 ^ 31" "unat n < 2 ^ 31" using fit ps(2) by linarith+
  note si = this [THEN sint_small]
  have "int_add (sint (va_offset a)) (sint n) = Inr ?e"
    unfolding si by (rule int_add_nat) (use fit ps(2) in linarith)
  moreover have "?e \<le> int (vm_psize vm)" using fit by (simp only: of_nat_le_iff)
  then have "?e \<le> mm_page_size (mmu_mem ?m)" unfolding ps(1) [symmetric] .
  ultimately show ?thesis by (simp add: read_fits_def)
qed

lemma write_fits_ok:
  assumes mi: "mmu_inv (vm_mmu vm)" and fit: "unat (va_offset a) + unat n \<le> vm_psize vm"
  shows "write_fits vm a n = Inr ()"
proof -
  let ?m = "vm_mmu vm"
  note ps = mm_bound(1,3) [OF mmu_invD(1) [OF mi]]
  have un: "unat (va_offset a + n) = unat (va_offset a) + unat n"
    using fit ps(2) by (simp add: unat_word_ariths)
  have "unat (word_of_int (int (vm_psize vm)) :: u32) = vm_psize vm"
    using ps(2) by (intro unat_small) simp
  then have "va_offset a + n \<le> word_of_int (mm_page_size (mmu_mem ?m))"
    unfolding ps(1) [symmetric] word_le_nat_alt un using fit by simp
  then show ?thesis by (simp add: write_fits_def)
qed

lemma mmu_read_ok:
  assumes inv: "vm_inv vm" and pg: "page_of (vm_mmu vm) (vkey a) = Some pg"
    and fit: "unat (va_offset a) + unat n \<le> vm_psize vm"
  shows "\<exists>vm'. mmu_read vm a n = Inr (ecSuccess, take (unat n) (drop (unat (va_offset a)) pg), vm') \<and>
           access vm (vkey a) vm' \<and> vm_view vm \<subseteq>\<^sub>m vm_view vm'"
  using inv pg
proof (rule access_open)
  let ?m = "vm_mmu vm"
  fix m2 p2 f
  assume run: "mmu_acquire_read ?m = Inr (?m\<lparr>mmu_lock := rw_reading\<rparr>)"
      "mmu_pin_page (vm\<lparr>vm_mmu := ?m\<lparr>mmu_lock := rw_reading\<rparr>\<rparr>) a = Inr (ecSuccess, vm\<lparr>vm_mmu := m2, vm_prm := p2\<rparr>)"
    and st: "mmu_inv m2" "mmu_lock m2 = rw_reading" "prm_idle p2"
    and vw: "m_bk m2 = vm_bk vm" "mm_psize (mmu_mem m2) = vm_psize vm" "vm_view vm \<subseteq>\<^sub>m vmem m2"
      "m_abs m2 (vkey a) = Some f" "mm_page (mmu_mem m2) f = pg" "pin_effect ?m (vkey a) m2"
      "disk_shape (mmu_disk m2) = disk_shape (mmu_disk ?m)"
  obtain t where t: "read_pinned (vm\<lparr>vm_mmu := m2, vm_prm := p2\<rparr>) a n = Inr (ecSuccess, take (unat n) (drop (unat (va_offset a)) pg),
        vm\<lparr>vm_prm := p2, vm_mmu := m2\<lparr>mmu_mem_ipt := t, mmu_lock := rw_free\<rparr>\<rparr>)"
      "mmu_inv (m2\<lparr>mmu_mem_ipt := t, mmu_lock := rw_free\<rparr>)" "ipt_only m2 (m2\<lparr>mmu_mem_ipt := t\<rparr>)"
      "vmem (m2\<lparr>mmu_mem_ipt := t, mmu_lock := rw_free\<rparr>) = vmem m2"
    using read_pinned_ok [of "vm\<lparr>vm_mmu := m2, vm_prm := p2\<rparr>" a f n] st vw(2,4,5) fit by auto
  let ?m3 = "m2\<lparr>mmu_mem_ipt := t, mmu_lock := rw_free\<rparr>"
  have m3: "?m3 = m2\<lparr>mmu_mem_ipt := t, mmu_mem := mmu_mem m2, mmu_lock := rw_free\<rparr>" "mmu_lock ?m3 = rw_free" by (cases m2; simp)+
  obtain vm' where vm': "mmu_age_pages_if_needed (vm\<lparr>vm_prm := p2, vm_mmu := ?m3\<rparr>) = Inr (ecSuccess, vm')"
      "access vm (vkey a) vm'" "vm_view vm' = vmem ?m3"
    using access_close [OF inv t(2) m3(2) st(3) t(3) m3(1) vw(1,2,6,7)] by blast
  have "mmu_read vm a n = Inr (ecSuccess, take (unat n) (drop (unat (va_offset a)) pg), vm')"
    using read_fits_ok [OF _ fit] inv [unfolded vm_inv_def] run t(1) vm'(1) by (simp add: mmu_read_def)
  moreover have "vm_view vm \<subseteq>\<^sub>m vm_view vm'" unfolding vm'(3) t(4) by (rule vw(3))
  ultimately show ?thesis using vm'(2) by blast
qed

lemma mmu_write_ok:
  assumes inv: "vm_inv vm" and pg: "page_of (vm_mmu vm) (vkey a) = Some pg"
    and fit: "unat (va_offset a) + unat n \<le> vm_psize vm" and buf: "unat n \<le> length buf"
  shows "\<exists>vm'. mmu_write vm a n buf = Inr (ecSuccess, vm') \<and> access vm (vkey a) vm' \<and>
           (vm_view vm)(vkey a \<mapsto> overwrite pg (unat (va_offset a)) (take (unat n) buf)) \<subseteq>\<^sub>m vm_view vm'"
  using inv pg
proof (rule access_open)
  let ?m = "vm_mmu vm" let ?pg' = "overwrite pg (unat (va_offset a)) (take (unat n) buf)"
  fix m2 p2 f
  assume run: "mmu_acquire_read ?m = Inr (?m\<lparr>mmu_lock := rw_reading\<rparr>)"
      "mmu_pin_page (vm\<lparr>vm_mmu := ?m\<lparr>mmu_lock := rw_reading\<rparr>\<rparr>) a = Inr (ecSuccess, vm\<lparr>vm_mmu := m2, vm_prm := p2\<rparr>)"
    and st: "mmu_inv m2" "mmu_lock m2 = rw_reading" "prm_idle p2"
    and vw: "m_bk m2 = vm_bk vm" "mm_psize (mmu_mem m2) = vm_psize vm" "vm_view vm \<subseteq>\<^sub>m vmem m2"
      "m_abs m2 (vkey a) = Some f" "mm_page (mmu_mem m2) f = pg" "pin_effect ?m (vkey a) m2"
      "disk_shape (mmu_disk m2) = disk_shape (mmu_disk ?m)"
  obtain t mem where t: "write_pinned (vm\<lparr>vm_mmu := m2, vm_prm := p2\<rparr>) a n buf =
        Inr (ecSuccess, vm\<lparr>vm_prm := p2, vm_mmu := m2\<lparr>mmu_mem_ipt := t, mmu_mem := mem, mmu_lock := rw_free\<rparr>\<rparr>)"
      "mmu_inv (m2\<lparr>mmu_mem_ipt := t, mmu_mem := mem, mmu_lock := rw_free\<rparr>)" "mm_page_size mem = mm_page_size (mmu_mem m2)"
      "ipt_only m2 (m2\<lparr>mmu_mem_ipt := t\<rparr>)"
      "(vmem m2)(vkey a \<mapsto> ?pg') \<subseteq>\<^sub>m vmem (m2\<lparr>mmu_mem_ipt := t, mmu_mem := mem, mmu_lock := rw_free\<rparr>)"
    using write_pinned_ok [of "vm\<lparr>vm_mmu := m2, vm_prm := p2\<rparr>" a f n buf] st vw(2,4,5) fit buf by auto
  let ?m3 = "m2\<lparr>mmu_mem_ipt := t, mmu_mem := mem, mmu_lock := rw_free\<rparr>"
  have ps: "mm_psize mem = vm_psize vm" using vw(2) t(3) by simp
  have lk: "mmu_lock ?m3 = rw_free" by simp
  obtain vm' where vm': "mmu_age_pages_if_needed (vm\<lparr>vm_prm := p2, vm_mmu := ?m3\<rparr>) = Inr (ecSuccess, vm')"
      "access vm (vkey a) vm'" "vm_view vm' = vmem ?m3"
    using access_close [OF inv t(2) lk st(3) t(4) refl vw(1) ps vw(6,7)] by blast
  have "mmu_write vm a n buf = Inr (ecSuccess, vm')"
    using write_fits_ok [OF _ fit] inv [unfolded vm_inv_def] run t(1) vm'(1) by (simp add: mmu_write_def)
  moreover have "(vm_view vm)(vkey a \<mapsto> ?pg') \<subseteq>\<^sub>m (vmem m2)(vkey a \<mapsto> ?pg')"
    using vw(3) by (simp add: map_le_def)
  then have "(vm_view vm)(vkey a \<mapsto> ?pg') \<subseteq>\<^sub>m vm_view vm'" unfolding vm'(3) using t(5) by (rule map_le_trans)
  ultimately show ?thesis using vm'(2) by blast
qed

end
