(* ===== verification/Mmu_Alloc.thy ===== *)
theory Mmu_Alloc
  imports Mmu_Proofs
begin

text \<open>
  Initialising the MMU, allocating and freeing virtual pages, and destroying it.
\<close>

subsection \<open>Initialisation\<close>

lemma mmu_init_ok:
  assumes mem: "mm_inv mem" and disk: "disk_inv disk" and ps: "mm_page_size mem = d_page_size disk"
    and oom: "\<And>i. \<not> oom i"
  shows "\<exists>m. mmu_init True True oom 0 mmu mem disk freq = Inr (ecSuccess, m) \<and> mmu_inv m \<and>
           mmu_lock m = rw_free \<and> m_bk m = Map.empty \<and> m_abs m = Map.empty \<and>
           m_spare m = [0..<mm_frames mem] \<and> mmu_mem m = mem \<and> mmu_disk m = disk \<and>
           mmu_stats m = \<lparr>st_nrefs = 0, st_hits = 0\<rparr>"
proof -
  have n: "0 < mm_frames mem" using mem by (simp add: mm_inv_def)
  have "1 * mm_frames mem \<le> mm_psize mem * mm_frames mem"
    using mem by (intro mult_le_mono1) (simp add: mm_inv_def Suc_le_eq)
  moreover have "mm_psize mem * mm_frames mem < 2 ^ 31"
    using mm_bound(2) [OF mem] by (simp only: mult.commute)
  ultimately have n31: "mm_frames mem < 2 ^ 31" by linarith
  have np: "mm_npages mem = int (mm_frames mem)" using mem by (simp add: mm_inv_def)
  obtain t where t: "ipt_init True True oom 0 (mmu_mem_ipt mmu) (mm_npages mem) = Inr (ecSuccess, t)" "ipt_inv t"
      "ipt_n t = mm_frames mem" "ipt_abs t = Map.empty" "ipt_spare t = [0..<mm_frames mem]" "ipt_ref_count t = 0"
    using ipt_init_ok [OF n n31, of oom "mmu_mem_ipt mmu"] oom by (simp only: np [symmetric]) blast
  have cmp: "disk_map_comparator = (\<lambda>x y. vkey x \<noteq> vkey y)"
    by (simp add: disk_map_comparator_def fun_eq_iff)
  obtain dm :: "(virt_addr_t, int) map_t" where dmi: "map_init 12 4 disk_map_comparator = (ecSuccess, dm)"
      and dm: "map_inv vkey dm" "map_abs vkey dm = Map.empty"
  proof (rule that)
    let ?dm = "snd (map_init 12 4 disk_map_comparator) :: (virt_addr_t, int) map_t"
    show "map_init 12 4 disk_map_comparator = (ecSuccess, ?dm)" by (simp add: map_init_def)
    show "map_inv vkey ?dm" "map_abs vkey ?dm = Map.empty"
      unfolding cmp by (rule map_init_inv, rule map_init_abs)
  qed
  let ?m = "mmu\<lparr>mmu_mem_ipt := t, mmu_disk_map := dm, mmu_lock := rw_free, mmu_stats_lock := rw_free,
      mmu_mem := mem, mmu_disk := disk, mmu_aging_freq := word_of_int freq,
      mmu_stats := \<lparr>st_nrefs = 0, st_hits = 0\<rparr>\<rparr>"
  have "mmu_init True True oom 0 mmu mem disk freq = Inr (ecSuccess, ?m)"
    unfolding mmu_init_def t(1) dmi by (simp add: rwlock_init_def)
  moreover have bk: "m_bk ?m = Map.empty" by (simp add: m_bk_def dm(2))
  moreover have "mmu_inv ?m"
    using t mem disk ps dm(1) bk by (simp add: mmu_inv_def backing_ok_def)
  ultimately show ?thesis using t by (intro exI [of _ ?m]) simp
qed

subsection \<open>One page\<close>

lemma mmu_alloc_page_ok:
  assumes inv: "mmu_inv m" and free: "mmu_lock m = rw_free" and new: "m_bk m (vkey a) = None"
    and p: "0 \<le> p" "disk_live (mmu_disk m) (nat p)" "p \<notin> ran (m_bk m)"
  shows "\<exists>m'. mmu_alloc_page m a p = Inr (ecSuccess, m') \<and> mmu_inv m' \<and> mmu_lock m' = rw_free \<and>
           m_bk m' = (m_bk m)(vkey a \<mapsto> p) \<and>
           m_abs m' = (case m_spare m of [] \<Rightarrow> m_abs m | f # F \<Rightarrow> (m_abs m)(vkey a \<mapsto> f)) \<and>
           m_spare m' = tl (m_spare m) \<and> mmu_mem m' = mmu_mem m \<and> mmu_disk m' = mmu_disk m \<and>
           mmu_stats m' = mmu_stats m \<and> vmem m \<subseteq>\<^sub>m vmem m' \<and>
           (\<forall>f F. m_spare m = f # F \<longrightarrow> \<not> pd_dirty (m_pd m' f))"
proof -
  note D = mmu_invD [OF inv]
  have absent: "m_abs m (vkey a) = None" using D(7) new by auto
  have "\<exists>ec t. ipt_add (mmu_mem_ipt m) a = Inr (ec, t) \<and> ipt_inv t \<and> ipt_spare t = tl (m_spare m) \<and>
      ipt_abs t = (case m_spare m of [] \<Rightarrow> m_abs m | f # F \<Rightarrow> (m_abs m)(vkey a \<mapsto> f)) \<and>
      ipt_n t = ipt_n (mmu_mem_ipt m) \<and>
      (\<forall>k f. k \<noteq> vkey a \<and> m_abs m k = Some f \<longrightarrow> ipt_pd t f = m_pd m f) \<and>
      (\<forall>f F. m_spare m = f # F \<longrightarrow> \<not> pd_dirty (ipt_pd t f))"
  proof (cases "m_spare m")
    case Nil
    then show ?thesis using ipt_add_full [OF D(3) Nil] D(3) by auto
  next
    case (Cons f F)
    have "f' \<noteq> f" if "m_abs m k = Some f'" for k f'
      using ipt_partition [OF D(3)] ranI [of "m_abs m", OF that] Cons by auto
    then show ?thesis using ipt_add_ok [OF D(3) absent Cons] Cons by (fastforce simp: same_shape_def)
  qed
  then obtain ec t where t: "ipt_add (mmu_mem_ipt m) a = Inr (ec, t)" "ipt_inv t" "ipt_spare t = tl (m_spare m)"
      "ipt_abs t = (case m_spare m of [] \<Rightarrow> m_abs m | f # F \<Rightarrow> (m_abs m)(vkey a \<mapsto> f))"
      "ipt_n t = ipt_n (mmu_mem_ipt m)" "\<And>k f. k \<noteq> vkey a \<Longrightarrow> m_abs m k = Some f \<Longrightarrow> ipt_pd t f = m_pd m f"
      "\<forall>f F. m_spare m = f # F \<longrightarrow> \<not> pd_dirty (ipt_pd t f)" by blast
  obtain dm where dm: "map_set (mmu_disk_map m) a p = Inr (ecSuccess, dm)" "map_inv vkey dm"
      "map_abs vkey dm = (m_bk m)(vkey a \<mapsto> p)"
    using ks.store_ok [OF D(4), of a p] by (auto simp: m_bk_def)
  let ?m' = "m\<lparr>mmu_mem_ipt := t, mmu_disk_map := dm\<rparr>"
  have bk: "m_bk ?m' = (m_bk m)(vkey a \<mapsto> p)" by (simp add: m_bk_def dm(3))
  have lk: "?m'\<lparr>mmu_lock := rw_free\<rparr> = ?m'" using free by simp
  have "mmu_alloc_page m a p = Inr (ecSuccess, ?m')"
    using t(1) dm(1) free new absent lk map_get_bk [OF inv, of a False]
    by (simp add: mmu_alloc_page_def mmu_lock_steps mmu_map_page_def ipt_has_translation_inv D(3))
  moreover have dom: "dom (ipt_abs t) \<subseteq> insert (vkey a) (dom (m_bk m))"
    using D(7) unfolding t(4) by (cases "m_spare m") auto
  have "backing_ok (mmu_disk m) ((m_bk m)(vkey a \<mapsto> p))"
    using D(8) p new unfolding backing_ok_def ran_def fun_upd_apply by (auto simp del: split_paired_All)
  then have "mmu_inv ?m'"
    using inv t(2,5) dm(2) bk dom by (simp add: mmu_inv_def)
  moreover have "vmem m \<subseteq>\<^sub>m vmem ?m'"
  proof (rule vmem_leI)
    fix k assume k: "m_bk m k \<noteq> None" "stable m k"
    then have ne: "k \<noteq> vkey a" using new by auto
    then have "ipt_abs t k = m_abs m k" unfolding t(4) by (cases "m_spare m") auto
    then show "stable ?m' k \<and> page_of ?m' k = page_of m k"
      using k ne t(6) [OF ne] by (auto simp: stable_def page_of_def bk split: option.splits)
  qed
  ultimately show ?thesis using t bk free by (intro exI [of _ ?m']) simp
qed

lemma mmu_free_page_ok:
  assumes inv: "mmu_inv m" and free: "mmu_lock m = rw_free" and p: "m_bk m (vkey a) = Some p"
  shows "\<exists>m'. mmu_free_page m a = Inr (ecSuccess, m') \<and> mmu_inv m' \<and> mmu_lock m' = rw_free \<and>
           m_bk m' = (m_bk m)(vkey a := None) \<and> m_abs m' = (m_abs m)(vkey a := None) \<and>
           m_spare m' = m_spare m @ (case m_abs m (vkey a) of None \<Rightarrow> [] | Some f \<Rightarrow> [f]) \<and>
           mmu_mem m' = mmu_mem m \<and> mmu_disk m' = mmu_disk m \<and> mmu_stats m' = mmu_stats m \<and>
           vmem m' = (vmem m)(vkey a := None)"
proof -
  note D = mmu_invD [OF inv]
  have "\<exists>ec t. ipt_remove (mmu_mem_ipt m) a = Inr (ec, t) \<and> ec \<noteq> ecFail \<and> ipt_inv t \<and>
      ipt_spare t = m_spare m @ (case m_abs m (vkey a) of None \<Rightarrow> [] | Some f \<Rightarrow> [f]) \<and>
      ipt_abs t = (m_abs m)(vkey a := None) \<and> ipt_n t = ipt_n (mmu_mem_ipt m) \<and>
      (\<forall>k f. k \<noteq> vkey a \<and> m_abs m k = Some f \<longrightarrow> ipt_pd t f = m_pd m f)"
  proof (cases "m_abs m (vkey a)")
    case None
    then show ?thesis using ipt_remove_absent [OF D(3) None] D(3) by (auto simp: fun_upd_idem)
  next
    case (Some f)
    have "f' \<noteq> f" if "k \<noteq> vkey a" "m_abs m k = Some f'" for k f'
      using ipt_abs_inj [OF D(3) Some, of k] that by auto
    then show ?thesis using ipt_remove_ok [OF D(3) Some] Some by (fastforce simp: same_shape_def)
  qed
  then obtain ec t where t: "ipt_remove (mmu_mem_ipt m) a = Inr (ec, t)" "ec \<noteq> ecFail" "ipt_inv t"
      "ipt_spare t = m_spare m @ (case m_abs m (vkey a) of None \<Rightarrow> [] | Some f \<Rightarrow> [f])"
      "ipt_abs t = (m_abs m)(vkey a := None)" "ipt_n t = ipt_n (mmu_mem_ipt m)"
      "\<And>k f. k \<noteq> vkey a \<Longrightarrow> m_abs m k = Some f \<Longrightarrow> ipt_pd t f = m_pd m f" by blast
  obtain e2 dm where dm: "map_remove (mmu_disk_map m) a = Inr (e2, dm)" "map_inv vkey dm"
      "map_abs vkey dm = (m_bk m)(vkey a := None)"
    using ks.discard_ok [OF D(4), of a] by (auto simp: m_bk_def)
  let ?m' = "m\<lparr>mmu_mem_ipt := t, mmu_disk_map := dm\<rparr>"
  have bk: "m_bk ?m' = (m_bk m)(vkey a := None)" by (simp add: m_bk_def dm(3))
  have lk: "?m'\<lparr>mmu_lock := rw_free\<rparr> = ?m'" using free by simp
  have "mmu_free_page m a = Inr (ecSuccess, ?m')"
    using t(1,2) dm(1) free p lk map_get_bk [OF inv, of a False]
    by (simp add: mmu_free_page_def mmu_lock_steps mmu_unmap_page_def)
  moreover have "backing_ok (mmu_disk m) ((m_bk m)(vkey a := None))"
    using D(8) unfolding backing_ok_def fun_upd_apply by (auto simp del: split_paired_All)
  then have "mmu_inv ?m'"
    using inv t(3,6) dm(2) bk D(7) t(5) by (auto simp: mmu_inv_def simp del: split_paired_All split_paired_Ex)
  moreover have "vmem ?m' = (vmem m)(vkey a := None)"
  proof
    fix k
    show "vmem ?m' k = ((vmem m)(vkey a := None)) k"
    proof (cases "k = vkey a")
      case False
      then show ?thesis
        using t(5) t(7) [OF False]
        by (auto simp: vmem_def stable_def page_of_def bk split: option.splits)
    qed (simp add: vmem_def page_of_def bk)
  qed
  ultimately show ?thesis using t bk free by (intro exI [of _ ?m']) simp
qed

subsection \<open>Consecutive pages\<close>

text \<open>The \<open>i\<close>-th page from an address on; the page number is \<^verbatim>\<open>unsigned\<close> and wraps.\<close>

definition page_key :: "virt_addr_t \<Rightarrow> nat \<Rightarrow> vkey" where
  "page_key a i = (va_pid a, va_page a + word_of_int (int i))"

definition page_keys :: "virt_addr_t \<Rightarrow> nat \<Rightarrow> vkey set" where
  "page_keys a n = page_key a ` {..<n}"

definition next_page :: "virt_addr_t \<Rightarrow> virt_addr_t" where
  "next_page a = a\<lparr>va_page := va_page a + 1\<rparr>"

lemma page_key_0 [simp]: "page_key a 0 = vkey a"
  by (simp add: page_key_def vkey_def)

lemma page_key_Suc: "page_key a (Suc i) = page_key (next_page a) i"
  by (simp add: page_key_def next_page_def)

lemma page_keys_Suc: "page_keys a (Suc n) = insert (vkey a) (page_keys (next_page a) n)"
  unfolding page_keys_def lessThan_Suc_eq_insert_0 image_insert page_key_0
  by (simp add: image_image page_key_Suc)

lemma page_keys_0 [simp]: "page_keys a 0 = {}"
  by (simp add: page_keys_def)

lemma page_key_inj:
  assumes "i < 2 ^ 32" "j < 2 ^ 32" "page_key a i = page_key a j"
  shows "i = j"
proof -
  have "(word_of_int (int i) :: u32) = word_of_int (int j)" using assms(3) by (simp add: page_key_def)
  then show ?thesis using unat_small [OF assms(1)] unat_small [OF assms(2)] by metis
qed

lemma page_keys_fresh:
  assumes "n < 2 ^ 32"
  shows "vkey a \<notin> page_keys (next_page a) n"
proof
  assume "vkey a \<in> page_keys (next_page a) n"
  then obtain j where j: "j < n" "page_key a 0 = page_key a (Suc j)"
    by (auto simp: page_keys_def page_key_Suc)
  have "0 = Suc j" by (rule page_key_inj [OF _ _ j(2)]) (use j assms in simp_all)
  then show False by simp
qed

text \<open>The backing store after \<open>n\<close> pages from \<open>a\<close> on were given the disk pages from \<open>b\<close> on.\<close>

definition bk_range :: "(vkey \<rightharpoonup> int) \<Rightarrow> virt_addr_t \<Rightarrow> nat \<Rightarrow> int \<Rightarrow> vkey \<rightharpoonup> int" where
  "bk_range bk a n b = fold (\<lambda>i bk. bk(page_key a i \<mapsto> b + int i)) [0..<n] bk"

lemma bk_range_Suc: "bk_range bk a (Suc n) b = bk_range (bk(vkey a \<mapsto> b)) (next_page a) n (b + 1)"
proof -
  have "[0..<Suc n] = 0 # map Suc [0..<n]" by (simp add: upt_conv_Cons map_Suc_upt del: upt_Suc)
  then show ?thesis
    by (simp add: bk_range_def fold_map o_def page_key_Suc add.assoc del: upt_Suc)
qed

lemma bk_range_0 [simp]: "bk_range bk a 0 b = bk"
  by (simp add: bk_range_def)

lemma bk_range_other: "k \<notin> page_keys a n \<Longrightarrow> bk_range bk a n b k = bk k"
proof (induction n arbitrary: bk a b)
  case (Suc n)
  then show ?case by (simp add: bk_range_Suc page_keys_Suc)
qed simp

text \<open>The loop of \<^verbatim>\<open>mmu_alloc_multiple\<close>: all pages get their backing page, the first of them a
  frame, as long as there are spare ones.\<close>

lemma alloc_loop_ok:
  assumes "mmu_inv m" "mmu_lock m = rw_free" "n \<le> 2 ^ 32"
    and "page_keys a n \<inter> dom (m_bk m) = {}"
    and "\<And>i. i < n \<Longrightarrow> 0 \<le> b + int i \<and> disk_live (mmu_disk m) (nat (b + int i)) \<and> b + int i \<notin> ran (m_bk m)"
  shows "\<exists>m'. alloc_loop n a b m = Inr (ecSuccess, m') \<and> mmu_inv m' \<and> mmu_lock m' = rw_free \<and>
           m_bk m' = bk_range (m_bk m) a n b \<and> m_spare m' = drop n (m_spare m) \<and>
           mmu_mem m' = mmu_mem m \<and> mmu_disk m' = mmu_disk m \<and> mmu_stats m' = mmu_stats m \<and>
           vmem m \<subseteq>\<^sub>m vmem m'"
  using assms
proof (induction n arbitrary: m a b)
  case 0
  then show ?case by (simp add: map_le_refl)
next
  case (Suc n)
  have new: "m_bk m (vkey a) = None" using Suc.prems(4) by (auto simp: page_keys_Suc)
  have b0: "0 \<le> b" "disk_live (mmu_disk m) (nat b)" "b \<notin> ran (m_bk m)" using Suc.prems(5) [of 0] by simp_all
  obtain m1 where m1: "mmu_alloc_page m a b = Inr (ecSuccess, m1)" "mmu_inv m1" "mmu_lock m1 = rw_free"
      "m_bk m1 = (m_bk m)(vkey a \<mapsto> b)" "m_spare m1 = tl (m_spare m)" "mmu_mem m1 = mmu_mem m"
      "mmu_disk m1 = mmu_disk m" "mmu_stats m1 = mmu_stats m" "vmem m \<subseteq>\<^sub>m vmem m1"
    using mmu_alloc_page_ok [OF Suc.prems(1,2) new b0] by blast
  have fresh: "page_keys (next_page a) n \<inter> dom (m_bk m1) = {}"
  proof -
    have "vkey a \<notin> page_keys (next_page a) n" using Suc.prems(3) by (intro page_keys_fresh) simp
    then show ?thesis using Suc.prems(4) m1(4) by (auto simp: page_keys_Suc)
  qed
  have pages: "0 \<le> b + 1 + int i \<and> disk_live (mmu_disk m1) (nat (b + 1 + int i)) \<and> b + 1 + int i \<notin> ran (m_bk m1)"
    if "i < n" for i
    using Suc.prems(5) [of "Suc i"] that m1(4,7) new
    by (auto simp: add.commute add.left_commute ran_def split: if_splits)
  obtain m' where "alloc_loop n (next_page a) (b + 1) m1 = Inr (ecSuccess, m')" "mmu_inv m'" "mmu_lock m' = rw_free"
      "m_bk m' = bk_range (m_bk m1) (next_page a) n (b + 1)" "m_spare m' = drop n (m_spare m1)"
      "mmu_mem m' = mmu_mem m1" "mmu_disk m' = mmu_disk m1" "mmu_stats m' = mmu_stats m1" "vmem m1 \<subseteq>\<^sub>m vmem m'"
    using Suc.IH [OF m1(2,3) _ fresh pages] Suc.prems(3) by auto
  with m1 show ?case
    by (auto simp: bk_range_Suc next_page_def drop_Suc intro: map_le_trans)
qed

lemma free_loop_ok:
  assumes "mmu_inv m" "mmu_lock m = rw_free" "n \<le> 2 ^ 32" "page_keys a n \<subseteq> dom (m_bk m)"
  shows "\<exists>m'. free_loop n a m = Inr (ecSuccess, m') \<and> mmu_inv m' \<and> mmu_lock m' = rw_free \<and>
           m_bk m' = m_bk m |` (- page_keys a n) \<and> m_abs m' = m_abs m |` (- page_keys a n) \<and>
           mmu_mem m' = mmu_mem m \<and> mmu_disk m' = mmu_disk m \<and> mmu_stats m' = mmu_stats m \<and>
           vmem m' = vmem m |` (- page_keys a n)"
  using assms
proof (induction n arbitrary: m a)
  case 0
  then show ?case by (simp add: restrict_map_def)
next
  case (Suc n)
  obtain p where p: "m_bk m (vkey a) = Some p" using Suc.prems(4) by (auto simp: page_keys_Suc)
  obtain m1 where m1: "mmu_free_page m a = Inr (ecSuccess, m1)" "mmu_inv m1" "mmu_lock m1 = rw_free"
      "m_bk m1 = (m_bk m)(vkey a := None)" "m_abs m1 = (m_abs m)(vkey a := None)" "mmu_mem m1 = mmu_mem m"
      "mmu_disk m1 = mmu_disk m" "mmu_stats m1 = mmu_stats m" "vmem m1 = (vmem m)(vkey a := None)"
    using mmu_free_page_ok [OF Suc.prems(1,2) p] by blast
  have "vkey a \<notin> page_keys (next_page a) n" using Suc.prems(3) by (intro page_keys_fresh) simp
  then have sub: "page_keys (next_page a) n \<subseteq> dom (m_bk m1)"
    using Suc.prems(4) m1(4) by (auto simp: page_keys_Suc simp del: split_paired_All)
  have drop: "f(vkey a := None) |` (- page_keys (next_page a) n) = f |` (- page_keys a (Suc n))" for f :: "vkey \<rightharpoonup> 'z"
    by (auto simp: restrict_map_def page_keys_Suc fun_eq_iff)
  obtain m' where m': "free_loop n (next_page a) m1 = Inr (ecSuccess, m')" "mmu_inv m'" "mmu_lock m' = rw_free"
      "m_bk m' = m_bk m1 |` (- page_keys (next_page a) n)" "m_abs m' = m_abs m1 |` (- page_keys (next_page a) n)"
      "mmu_mem m' = mmu_mem m1" "mmu_disk m' = mmu_disk m1" "mmu_stats m' = mmu_stats m1"
      "vmem m' = vmem m1 |` (- page_keys (next_page a) n)"
    using Suc.IH [OF m1(2,3) _ sub] Suc.prems(3) by auto
  have "free_loop (Suc n) a m = Inr (ecSuccess, m')" using m1(1) m'(1) by (simp add: next_page_def)
  moreover note m'(4) [unfolded m1(4) drop] m'(5) [unfolded m1(5) drop] m'(9) [unfolded m1(9) drop]
  ultimately show ?case using m'(2,3,6,7,8) m1(6,7,8)
    by (intro exI [of _ m'] conjI) (assumption | simp only:)+
qed

lemma bk_range_at:
  assumes "n \<le> 2 ^ 32" "j < n"
  shows "bk_range bk a n b (page_key a j) = Some (b + int j)"
  using assms
proof (induction n arbitrary: bk a b j)
  case (Suc n)
  show ?case
  proof (cases j)
    case 0
    have "vkey a \<notin> page_keys (next_page a) n" using Suc.prems(1) by (intro page_keys_fresh) simp
    then show ?thesis using 0 by (simp add: bk_range_Suc bk_range_other)
  next
    case (Suc j')
    then show ?thesis
      using Suc.IH [of j' "bk(vkey a \<mapsto> b)" "next_page a" "b + 1"] Suc.prems
      by (simp add: bk_range_Suc page_key_Suc add.assoc del: fun_upd_apply)
  qed
qed simp

lemma page_keys_cong: "va_pid a = va_pid a' \<Longrightarrow> va_page a = va_page a' \<Longrightarrow> page_key a = page_key a' \<and> page_keys a n = page_keys a' n"
  by (simp add: page_key_def page_keys_def fun_eq_iff)

lemma alloc_free_multiple:
  assumes m: "mmu_inv m" "mmu_lock m = rw_free" and n: "0 \<le> n" "n < 2 ^ 31"
    and new: "page_keys a (nat n) \<inter> dom (m_bk m) = {}"
    and pages: "\<And>i. i < nat n \<Longrightarrow> 0 \<le> b + int i \<and> disk_live (mmu_disk m) (nat (b + int i)) \<and> b + int i \<notin> ran (m_bk m)"
  shows "\<exists>m1 m2. mmu_alloc_multiple off m a n b = Inr (ecSuccess, m1) \<and> mmu_inv m1 \<and>
           (\<forall>i < nat n. m_bk m1 (page_key a i) = Some (b + int i)) \<and> vmem m \<subseteq>\<^sub>m vmem m1 \<and>
           mmu_free_multiple off m1 a n = Inr (ecSuccess, m2) \<and> mmu_inv m2 \<and> m_bk m2 = m_bk m \<and>
           vmem m \<subseteq>\<^sub>m vmem m2"
proof -
  let ?a = "\<lparr>va_pid = va_pid a, va_page = va_page a, va_offset = off\<rparr>" and ?n = "nat n"
  have n32: "?n \<le> 2 ^ 32" using n by simp
  have cong: "page_key ?a = page_key a" "page_keys ?a ?n = page_keys a ?n"
    using page_keys_cong [of ?a a] by simp_all
  obtain m1 where m1: "alloc_loop ?n ?a b m = Inr (ecSuccess, m1)" "mmu_inv m1" "mmu_lock m1 = rw_free"
      "m_bk m1 = bk_range (m_bk m) ?a ?n b" "vmem m \<subseteq>\<^sub>m vmem m1"
    using alloc_loop_ok [OF m n32, of ?a b] new pages unfolding cong by blast
  have at: "\<forall>i < ?n. m_bk m1 (page_key a i) = Some (b + int i)"
    using bk_range_at [OF n32, of _ "m_bk m" ?a b] unfolding m1(4) cong(1) by blast
  then have "page_keys ?a ?n \<subseteq> dom (m_bk m1)" unfolding cong(2) by (auto simp: page_keys_def)
  then obtain m2 where m2: "free_loop ?n ?a m1 = Inr (ecSuccess, m2)" "mmu_inv m2"
      "m_bk m2 = m_bk m1 |` (- page_keys a ?n)" "vmem m2 = vmem m1 |` (- page_keys a ?n)"
    using free_loop_ok [OF m1(2,3) n32, of ?a] unfolding cong(2) by blast
  have out: "m_bk m k = None" if "k \<in> page_keys a ?n" for k
    using new that by (meson disjoint_iff domIff)
  have "m_bk m2 k = m_bk m k" for k
    using m1(4) bk_range_other [of k ?a ?n "m_bk m" b] out [of k] unfolding m2(3) cong(2)
    by (cases "k \<in> page_keys a ?n") (simp_all add: restrict_map_def)
  then have bk: "m_bk m2 = m_bk m" ..
  have "dom (vmem m) \<subseteq> dom (m_bk m)" by (auto simp: vmem_def page_of_def split: if_splits option.splits)
  then have "vmem m \<subseteq>\<^sub>m vmem m2"
    using m1(5) new unfolding m2(4) map_le_def by (auto simp: restrict_map_def)
  then show ?thesis using m1 m2 at bk by (auto simp: mmu_alloc_multiple_def mmu_free_multiple_def)
qed

end
