(* ===== verification/Vmem.thy ===== *)
theory Vmem
  imports Mmu_Alloc
begin

text \<open>
  The contract of a virtual memory, proved once for any provider of a read and a write operation
  and interpreted on \<^verbatim>\<open>mmu_read\<close> and \<^verbatim>\<open>mmu_write\<close>: a sequence of requests gives the answers of a
  plain memory, in which every page is always there. What a new page holds is not determined before the
  first write to it.
\<close>

subsection \<open>The plain memory\<close>

datatype request = Rd virt_addr_t u32 | Wr virt_addr_t u32 "byte list"

primrec req_addr :: "request \<Rightarrow> virt_addr_t" where
  "req_addr (Rd a n) = a"
| "req_addr (Wr a n buf) = a"

definition page_get :: "byte list \<Rightarrow> virt_addr_t \<Rightarrow> u32 \<Rightarrow> byte list" where
  "page_get pg a n = take (unat n) (drop (unat (va_offset a)) pg)"

definition page_put :: "byte list \<Rightarrow> virt_addr_t \<Rightarrow> u32 \<Rightarrow> byte list \<Rightarrow> byte list" where
  "page_put pg a n buf = overwrite pg (unat (va_offset a)) (take (unat n) buf)"

text \<open>Requests that stay inside a page, of a process that owns the page.\<close>

fun request_ok :: "nat \<Rightarrow> vkey set \<Rightarrow> request \<Rightarrow> bool" where
  "request_ok ps K (Rd a n) \<longleftrightarrow> vkey a \<in> K \<and> unat (va_offset a) + unat n \<le> ps"
| "request_ok ps K (Wr a n buf) \<longleftrightarrow>
     vkey a \<in> K \<and> unat (va_offset a) + unat n \<le> ps \<and> unat n \<le> length buf"

fun plain_run :: "request list \<Rightarrow> (vkey \<rightharpoonup> byte list) \<Rightarrow> byte list list \<times> (vkey \<rightharpoonup> byte list)" where
  "plain_run [] A = ([], A)"
| "plain_run (Rd a n # rs) A =
     (let (out, A') = plain_run rs A in (page_get (the (A (vkey a))) a n # out, A'))"
| "plain_run (Wr a n buf # rs) A =
     plain_run rs (A(vkey a \<mapsto> page_put (the (A (vkey a))) a n buf))"

text \<open>
  The same for pages of which \<open>A\<close> knows nothing: pages that have been allocated, but not written since. They read
  as anything, and not even twice as the same; the first write to such a page fixes all of its bytes.
\<close>

fun plain_step :: "nat \<Rightarrow> request \<Rightarrow> byte list \<Rightarrow> (vkey \<rightharpoonup> byte list) \<Rightarrow> (vkey \<rightharpoonup> byte list) \<Rightarrow> bool" where
  "plain_step ps (Rd a n) ans A A' \<longleftrightarrow> A' = A \<and> length ans = unat n \<and>
     (case A (vkey a) of None \<Rightarrow> True | Some pg \<Rightarrow> ans = page_get pg a n)"
| "plain_step ps (Wr a n buf) ans A A' \<longleftrightarrow> ans = [] \<and>
     (\<exists>pg. length pg = ps \<and> (case A (vkey a) of None \<Rightarrow> True | Some pg' \<Rightarrow> pg = pg') \<and>
        A' = A(vkey a \<mapsto> page_put pg a n buf))"

inductive plain_steps :: "nat \<Rightarrow> (vkey \<rightharpoonup> byte list) \<Rightarrow> (request \<times> byte list) list \<Rightarrow> (vkey \<rightharpoonup> byte list) \<Rightarrow> bool" for ps where
  none: "plain_steps ps A [] A"
| more: "plain_step ps r ans A A1 \<Longrightarrow> plain_steps ps A1 ls A2 \<Longrightarrow> plain_steps ps A ((r, ans) # ls) A2"

inductive_simps plain_steps_simps [simp]: "plain_steps ps A [] A'" "plain_steps ps A (x # ls) A'"

text \<open>The answers to the reads.\<close>

primrec answered :: "request \<Rightarrow> byte list \<Rightarrow> byte list list" where
  "answered (Rd a n) ans = [ans]"
| "answered (Wr a n buf) ans = []"

definition answers :: "(request \<times> byte list) list \<Rightarrow> byte list list" where
  "answers ls = concat (map (\<lambda>(r, ans). answered r ans) ls)"

lemma answers_simps [simp]: "answers [] = []" "answers ((r, ans) # ls) = answered r ans @ answers ls"
  by (simp_all add: answers_def)

text \<open>With nothing but pages that \<open>A\<close> knows there is one plain memory, and it gives one answer.\<close>

lemma plain_steps_exact:
  assumes "plain_steps ps A ls A'" "list_all (request_ok ps (dom A)) (map fst ls)"
  shows "answers ls = fst (plain_run (map fst ls) A) \<and> A' = snd (plain_run (map fst ls) A)"
  using assms
proof (induction rule: plain_steps.induct)
  case (more r ans A A1 ls A2)
  show ?case
  proof (cases r)
    case (Rd a n)
    then show ?thesis using more.hyps(1) more.IH more.prems by (auto simp: case_prod_beta)
  next
    case (Wr a n buf)
    then obtain pg where pg: "A (vkey a) = Some pg" using more.prems by auto
    then have A1: "A1 = A(vkey a \<mapsto> page_put pg a n buf)" "dom A1 = dom A" using more.hyps(1) Wr by auto
    have "list_all (request_ok ps (dom A1)) (map fst ls)" unfolding A1(2) using more.prems by simp
    note IH = more.IH [OF this]
    have "plain_run (map fst ((r, ans) # ls)) A = plain_run (map fst ls) A1" by (simp add: Wr pg A1(1))
    then show ?thesis using IH more.hyps(1) Wr by simp
  qed
qed simp

text \<open>A run of the provider: the answers to the reads, and the final state. Stopping at the first
  return code that is not success is a fault.\<close>

fun vm_run :: "('s \<Rightarrow> virt_addr_t \<Rightarrow> u32 \<Rightarrow> (errcode_t \<times> byte list \<times> 's) res) \<Rightarrow>
    ('s \<Rightarrow> virt_addr_t \<Rightarrow> u32 \<Rightarrow> byte list \<Rightarrow> (errcode_t \<times> 's) res) \<Rightarrow>
    request list \<Rightarrow> 's \<Rightarrow> (byte list list \<times> 's) res" where
  "vm_run rd wr [] s = Inr ([], s)"
| "vm_run rd wr (Rd a n # rs) s =
     rbind (rd s a n) (\<lambda>(ec, b, s1). rbind (cassert (ec = ecSuccess)) (\<lambda>_.
     rbind (vm_run rd wr rs s1) (\<lambda>(out, s2). Inr (b # out, s2))))"
| "vm_run rd wr (Wr a n buf # rs) s =
     rbind (wr s a n buf) (\<lambda>(ec, s1). rbind (cassert (ec = ecSuccess)) (\<lambda>_. vm_run rd wr rs s1))"

subsection \<open>The contract\<close>

text \<open>\<open>page\<close> is what a page holds at the moment, \<open>view\<close> the part of it that the provider guarantees to keep.\<close>

locale virtual_memory =
  fixes rd :: "'s \<Rightarrow> virt_addr_t \<Rightarrow> u32 \<Rightarrow> (errcode_t \<times> byte list \<times> 's) res"
    and wr :: "'s \<Rightarrow> virt_addr_t \<Rightarrow> u32 \<Rightarrow> byte list \<Rightarrow> (errcode_t \<times> 's) res"
    and page :: "'s \<Rightarrow> vkey \<rightharpoonup> byte list"
    and view :: "'s \<Rightarrow> vkey \<rightharpoonup> byte list"
    and psize :: "'s \<Rightarrow> nat"
    and ok :: "'s \<Rightarrow> bool"
  assumes rd_ok: "ok s \<Longrightarrow> page s (vkey a) = Some pg \<Longrightarrow> unat (va_offset a) + unat n \<le> psize s \<Longrightarrow>
            \<exists>s'. rd s a n = Inr (ecSuccess, page_get pg a n, s') \<and> ok s' \<and> psize s' = psize s \<and>
                 dom (page s') = dom (page s) \<and> view s \<subseteq>\<^sub>m view s'"
    and wr_ok: "ok s \<Longrightarrow> page s (vkey a) = Some pg \<Longrightarrow> unat (va_offset a) + unat n \<le> psize s \<Longrightarrow>
            unat n \<le> length buf \<Longrightarrow>
            \<exists>s'. wr s a n buf = Inr (ecSuccess, s') \<and> ok s' \<and> psize s' = psize s \<and>
                 dom (page s') = dom (page s) \<and> (view s)(vkey a \<mapsto> page_put pg a n buf) \<subseteq>\<^sub>m view s'"
    and view_page: "view s \<subseteq>\<^sub>m page s"
    and page_len: "ok s \<Longrightarrow> page s k = Some pg \<Longrightarrow> length pg = psize s"
begin

lemma write_then_read:
  assumes "ok s" "page s (vkey a) = Some pg" "unat (va_offset a) + unat n \<le> psize s" "unat n = length buf"
  shows "\<exists>s1 s2. wr s a n buf = Inr (ecSuccess, s1) \<and> rd s1 a n = Inr (ecSuccess, buf, s2) \<and> ok s2"
proof -
  obtain s1 where s1: "wr s a n buf = Inr (ecSuccess, s1)" "ok s1" "psize s1 = psize s"
      "(view s)(vkey a \<mapsto> page_put pg a n buf) \<subseteq>\<^sub>m view s1"
    using wr_ok [OF assms(1-3)] assms(4) by force
  have "page s1 (vkey a) = Some (page_put pg a n buf)"
    by (rule map_le_updD) (rule map_le_trans [OF s1(4) view_page])
  moreover have "page_get (page_put pg a n buf) a n = buf"
    using assms page_len [OF assms(1,2)] by (simp add: page_get_def page_put_def overwrite_def)
  ultimately show ?thesis using rd_ok [OF s1(2)] s1 assms(3) by metis
qed

text \<open>One request, on a page that is there, whatever \<open>A\<close> knows of it.\<close>

lemma page_agrees:
  assumes "A \<subseteq>\<^sub>m view s" "page s k = Some pg"
  shows "case A k of None \<Rightarrow> True | Some pg' \<Rightarrow> pg = pg'"
proof (cases "A k")
  case (Some pg')
  then have "page s k = Some pg'" using map_le_trans [OF assms(1) view_page] by (metis domI map_le_def)
  then show ?thesis using Some assms(2) by simp
qed simp

lemma refines_plain:
  assumes "ok s" "A \<subseteq>\<^sub>m view s" "list_all (request_ok (psize s) (dom (page s))) rs"
  shows "\<exists>ls s' A'. vm_run rd wr rs s = Inr (answers ls, s') \<and> map fst ls = rs \<and> plain_steps (psize s) A ls A' \<and>
           ok s' \<and> psize s' = psize s \<and> dom (page s') = dom (page s) \<and> A' \<subseteq>\<^sub>m view s'"
  using assms
proof (induction rs arbitrary: s A)
  case (Cons r rs)
  show ?case
  proof (cases r)
    case (Rd a n)
    then obtain pg where pg: "page s (vkey a) = Some pg" using Cons.prems(3) by auto
    obtain s1 where s1: "rd s a n = Inr (ecSuccess, page_get pg a n, s1)" "ok s1" "psize s1 = psize s"
        "dom (page s1) = dom (page s)" "view s \<subseteq>\<^sub>m view s1"
      using rd_ok [OF Cons.prems(1) pg] Cons.prems(3) Rd by auto
    have "A \<subseteq>\<^sub>m view s1" using Cons.prems(2) s1(5) by (rule map_le_trans)
    then obtain ls s' A' where IH: "vm_run rd wr rs s1 = Inr (answers ls, s')" "map fst ls = rs"
        "plain_steps (psize s) A ls A'" "ok s'" "psize s' = psize s" "dom (page s') = dom (page s)" "A' \<subseteq>\<^sub>m view s'"
      using Cons.IH [OF s1(2), of A] Cons.prems(3) s1(3,4) by auto
    have "length (page_get pg a n) = unat n"
      using page_len [OF Cons.prems(1) pg] Cons.prems(3) Rd by (auto simp: page_get_def)
    then have "plain_step (psize s) r (page_get pg a n) A A"
      using page_agrees [OF Cons.prems(2) pg] Rd by (auto split: option.splits)
    then show ?thesis using Rd s1(1) IH
      by (intro exI [of _ "(r, page_get pg a n) # ls"] exI [of _ s'] exI [of _ A']) (auto simp: cassert_def)
  next
    case (Wr a n buf)
    then obtain pg where pg: "page s (vkey a) = Some pg" using Cons.prems(3) by auto
    let ?A = "A(vkey a \<mapsto> page_put pg a n buf)"
    obtain s1 where s1: "wr s a n buf = Inr (ecSuccess, s1)" "ok s1" "psize s1 = psize s"
        "dom (page s1) = dom (page s)" "(view s)(vkey a \<mapsto> page_put pg a n buf) \<subseteq>\<^sub>m view s1"
      using wr_ok [OF Cons.prems(1) pg, of n buf] Cons.prems(3) Wr by auto
    have "?A \<subseteq>\<^sub>m (view s)(vkey a \<mapsto> page_put pg a n buf)" using Cons.prems(2) by (simp add: map_le_def)
    then have le: "?A \<subseteq>\<^sub>m view s1" using s1(5) by (rule map_le_trans)
    have rs: "list_all (request_ok (psize s1) (dom (page s1))) rs" using Cons.prems(3) s1(3,4) by simp
    obtain ls s' A' where IH: "vm_run rd wr rs s1 = Inr (answers ls, s')" "map fst ls = rs"
        "plain_steps (psize s) ?A ls A'" "ok s'" "psize s' = psize s" "dom (page s') = dom (page s)" "A' \<subseteq>\<^sub>m view s'"
      using Cons.IH [OF s1(2) le rs] unfolding s1(3,4) by blast
    have "plain_step (psize s) r [] A ?A"
      using page_agrees [OF Cons.prems(2) pg] page_len [OF Cons.prems(1) pg] Wr by auto
    then show ?thesis using Wr s1(1) IH
      by (intro exI [of _ "(r, []) # ls"] exI [of _ s'] exI [of _ A']) (auto simp: cassert_def)
  qed
qed (auto intro: exI [of _ "[]"])

end

subsection \<open>The MMU is a virtual memory\<close>

lemma page_of_length:
  assumes "mmu_inv m" "page_of m k = Some pg"
  shows "length pg = mm_psize (mmu_mem m)"
proof -
  note D = mmu_invD [OF assms(1)]
  obtain p where p: "m_bk m k = Some p" using assms(2) by (auto simp: page_of_def split: option.splits)
  show ?thesis
  proof (cases "m_abs m k")
    case None
    then show ?thesis
      using assms(2) p dp.page_length [OF D(2) backing_page(4) [OF assms(1) p]] D(6)
      by (simp add: page_of_def)
  next
    case (Some f)
    then show ?thesis
      using assms(2) p mp.page_length [OF D(1) mapped_frame(1) [OF assms(1) Some]]
      by (simp add: page_of_def)
  qed
qed

lemma vmem_page_of: "vmem m k = Some pg \<Longrightarrow> page_of m k = Some pg"
  by (simp add: vmem_def split: if_splits)

lemma dom_page_of: "dom (page_of m) = dom (m_bk m)"
  by (auto simp: page_of_def split: option.splits)

abbreviation vm_page :: "vm_t \<Rightarrow> vkey \<rightharpoonup> byte list" where
  "vm_page vm \<equiv> page_of (vm_mmu vm)"

interpretation vm: virtual_memory mmu_read mmu_write vm_page vm_view vm_psize vm_inv
proof unfold_locales
  fix s :: vm_t and a pg buf k and n :: u32
  show "vm_view s \<subseteq>\<^sub>m vm_page s" using vmem_page_of by (force simp: map_le_def)
  assume inv: "vm_inv s"
  show "length pg = vm_psize s" if "vm_page s k = Some pg"
    using page_of_length [OF _ that] inv by (simp add: vm_inv_def)
  assume pg: "vm_page s (vkey a) = Some pg" and fit: "unat (va_offset a) + unat n \<le> vm_psize s"
  show "\<exists>s'. mmu_read s a n = Inr (ecSuccess, page_get pg a n, s') \<and> vm_inv s' \<and> vm_psize s' = vm_psize s \<and>
      dom (vm_page s') = dom (vm_page s) \<and> vm_view s \<subseteq>\<^sub>m vm_view s'"
    using mmu_read_ok [OF inv pg fit] by (auto simp: page_get_def access_def dom_page_of)
  show "unat n \<le> length buf \<Longrightarrow> \<exists>s'. mmu_write s a n buf = Inr (ecSuccess, s') \<and> vm_inv s' \<and>
      vm_psize s' = vm_psize s \<and> dom (vm_page s') = dom (vm_page s) \<and>
      (vm_view s)(vkey a \<mapsto> page_put pg a n buf) \<subseteq>\<^sub>m vm_view s'"
    using mmu_write_ok [OF inv pg fit, of buf] by (auto simp: page_put_def access_def dom_page_of)
qed

end
