(* ===== verification/Container.thy ===== *)
theory Container
  imports Process Vmem
begin

text \<open>
  The container of the processes, the disk and the MMU agree: every live process owns one block of
  the disk and all pages of its address space, nobody owns anything else. Creating a process takes
  the first free slot and the first free block and leaves the memory of the others alone.
\<close>

subsection \<open>The invariant\<close>

definition pc_list :: "proc_cont_t \<Rightarrow> process_t list" where
  "pc_list c = (case pc_processes c of None \<Rightarrow> [] | Some ps \<Rightarrow> ps)"

abbreviation pc_blk :: "proc_cont_t \<Rightarrow> nat" where
  "pc_blk c \<equiv> unat (pc_prc_blk_size c)"

definition live_slot :: "process_t list \<Rightarrow> nat \<Rightarrow> bool" where
  "live_slot ps i \<longleftrightarrow> i < length ps \<and> \<not> prc_junk (ps ! i)"

text \<open>The disk page behind a virtual page: page \<open>j\<close> of process \<open>i\<close> is page \<open>j\<close> of its block.\<close>

definition proc_pages :: "nat \<Rightarrow> process_t list \<Rightarrow> vkey \<rightharpoonup> int" where
  "proc_pages b ps = (\<lambda>(pid, page). if live_slot ps (unat pid) \<and> unat page < b
     then Some (prc_disk_block_start (ps ! unat pid) + int (unat page)) else None)"

definition block_of :: "nat \<Rightarrow> process_t \<Rightarrow> nat" where
  "block_of b p = nat (prc_disk_block_start p) div b"

definition used_blocks :: "nat \<Rightarrow> process_t list \<Rightarrow> nat set" where
  "used_blocks b ps = {block_of b (ps ! i) | i. live_slot ps i}"

definition slot_ok :: "nat \<Rightarrow> nat \<Rightarrow> process_t \<Rightarrow> bool" where
  "slot_ok b i p \<longleftrightarrow> prc_pid p = word_of_int (int i) \<and> \<not> prc_mail_mutex p \<and>
     wt_lock (prc_thrd p) = rw_free \<and> prc_disk_block_start p = int (block_of b p * b) \<and>
     (\<exists>q. prc_mail p = Some q \<and> queue_inv q)"

definition pc_inv :: "mmu_t \<Rightarrow> proc_cont_t \<Rightarrow> bool" where
  "pc_inv m c \<longleftrightarrow> pc_processes c = Some (pc_list c) \<and>
     length (pc_list c) = unat (pc_max_num_of_proc c) \<and> length (pc_list c) < 2 ^ 31 \<and> \<not> pc_mutex c \<and>
     0 < pc_blk c \<and> pc_blk c < 2 ^ 31 \<and> disk_bsize (mmu_disk m) = pc_blk c \<and>
     (\<forall>i. live_slot (pc_list c) i \<longrightarrow> slot_ok (pc_blk c) i (pc_list c ! i)) \<and>
     m_bk m = proc_pages (pc_blk c) (pc_list c) \<and>
     disk_blocks (mmu_disk m) (used_blocks (pc_blk c) (pc_list c))"

lemma pc_invD:
  assumes "pc_inv m c"
  shows "pc_processes c = Some (pc_list c)" "length (pc_list c) = unat (pc_max_num_of_proc c)"
    "length (pc_list c) < 2 ^ 31" "\<not> pc_mutex c" "0 < pc_blk c" "pc_blk c < 2 ^ 31"
    "disk_bsize (mmu_disk m) = pc_blk c"
    "\<And>i. live_slot (pc_list c) i \<Longrightarrow> slot_ok (pc_blk c) i (pc_list c ! i)"
    "m_bk m = proc_pages (pc_blk c) (pc_list c)"
    "disk_blocks (mmu_disk m) (used_blocks (pc_blk c) (pc_list c))"
  using assms by (simp_all add: pc_inv_def)

definition sys_inv :: "sys_t \<Rightarrow> bool" where
  "sys_inv sys \<longleftrightarrow> vm_inv (sys_vm sys) \<and> pc_inv (vm_mmu (sys_vm sys)) (sys_cont sys)"

declare sys_inv_def [whole]

lemma pc_inv_cong:
  assumes "pc_inv m c" "m_bk m' = m_bk m" "disk_shape (mmu_disk m') = disk_shape (mmu_disk m)"
  shows "pc_inv m' c"
  using assms(1,2) disk_shape_eqD [OF assms(3)] by (simp add: pc_inv_def)

text \<open>A slot of the array.\<close>

lemma pc_list_upd [simp]: "pc_list (c\<lparr>pc_processes := Some ps\<rparr>) = ps"
  by (simp add: pc_list_def)

lemma pc_list_mutex [simp]: "pc_list (c\<lparr>pc_mutex := b\<rparr>) = pc_list c"
  by (simp add: pc_list_def)

lemma slot_word:
  assumes "i < 2 ^ 31"
  shows "unat (word_of_int (int i) :: u32) = i" "sint (word_of_int (int i) :: u32) = int i"
    "uint (word_of_int (int i) :: u32) = int i"
proof -
  show u: "unat (word_of_int (int i) :: u32) = i" using assms by (intro unat_small) simp
  then show "sint (word_of_int (int i) :: u32) = int i" using assms by (simp only: sint_small)
  show "uint (word_of_int (int i) :: u32) = int i" unfolding uint_nat u ..
qed

lemma pc_proc_at:
  assumes "pc_processes c = Some ps" "unat pid < length ps"
  shows "pc_proc c pid = Inr (ps ! unat pid)"
  using assms by (simp add: pc_proc_def arr_get_def uint_nat del: of_nat_unat)

lemma pc_upd_at:
  assumes "pc_processes c = Some ps" "unat pid < length ps"
  shows "pc_upd pid f c = Inr (c\<lparr>pc_processes := Some (ps[unat pid := f (ps ! unat pid)])\<rparr>)"
  using assms by (simp add: pc_upd_def arr_get_def arr_set_def uint_nat del: of_nat_unat)

subsection \<open>Finding a slot\<close>

lemma find_slot_ok:
  assumes "pc_processes c = Some ps" "length ps < 2 ^ 31" "j + n = length ps" "j \<le> i" "i \<le> length ps"
    and "\<And>k. j \<le> k \<Longrightarrow> k < i \<Longrightarrow> \<not> prc_junk (ps ! k)" "i < length ps \<Longrightarrow> prc_junk (ps ! i)"
  shows "find_slot n (word_of_int (int j)) c = Inr (word_of_int (int i))"
  using assms(3,4,6)
proof (induction n arbitrary: j)
  case 0
  then show ?case using assms(5) by simp
next
  case (Suc n)
  have j: "j < 2 ^ 31" "unat (word_of_int (int j) :: u32) = j" using Suc.prems(1) assms(2) slot_word(1) [of j] by simp_all
  have get: "pc_proc c (word_of_int (int j)) = Inr (ps ! j)"
    using pc_proc_at [OF assms(1), of "word_of_int (int j)"] j(2) Suc.prems(1) by simp
  have next_w: "(word_of_int (int j) :: u32) + 1 = word_of_int (int (Suc j))" by simp
  show ?case
  proof (cases "j = i")
    case True
    then show ?thesis using get assms(7) Suc.prems(1) by simp
  next
    case False
    then have "find_slot n (word_of_int (int (Suc j))) c = Inr (word_of_int (int i))"
      using Suc.prems by (intro Suc.IH) auto
    then show ?thesis using get Suc.prems(2) Suc.prems(3) [of j] False by (simp only: find_slot.simps next_w rbind_Inr) simp
  qed
qed

lemma first_slot:
  assumes "pc_inv m c" "i \<le> length (pc_list c)" "\<And>k. k < i \<Longrightarrow> live_slot (pc_list c) k" "\<not> live_slot (pc_list c) i"
  shows "find_slot (unat (pc_max_num_of_proc c)) 0 (c\<lparr>pc_mutex := x\<rparr>) = Inr (word_of_int (int i))"
    "find_slot (unat (pc_max_num_of_proc c)) 0 c = Inr (word_of_int (int i))"
proof -
  have "find_slot (length (pc_list c)) (word_of_int (int 0)) c' = Inr (word_of_int (int i))"
    if "pc_processes c' = Some (pc_list c)" for c'
    by (rule find_slot_ok [OF that]) (use assms pc_invD(3) [OF assms(1)] in \<open>auto simp: live_slot_def\<close>)
  then show "find_slot (unat (pc_max_num_of_proc c)) 0 (c\<lparr>pc_mutex := x\<rparr>) = Inr (word_of_int (int i))"
    "find_slot (unat (pc_max_num_of_proc c)) 0 c = Inr (word_of_int (int i))"
    using pc_invD(1,2) [OF assms(1)] by simp_all
qed

text \<open>No slot is left: the container is as before.\<close>

lemma init_process_no_slot:
  assumes inv: "pc_inv m c" and full: "\<And>i. i < length (pc_list c) \<Longrightarrow> live_slot (pc_list c) i"
  shows "init_process off oom m c = Inr (- 1, m, c)"
proof -
  have "find_slot (unat (pc_max_num_of_proc c)) 0 c = Inr (word_of_int (int (length (pc_list c))))"
    by (rule first_slot(2) [OF inv]) (use full in \<open>auto simp: live_slot_def\<close>)
  moreover have "word_of_int (int (length (pc_list c))) = pc_max_num_of_proc c"
    unfolding pc_invD(2) [OF inv] by simp
  moreover have "c\<lparr>pc_mutex := False\<rparr> = c" using pc_invD(4) [OF inv] by (cases c) simp
  ultimately show ?thesis using pc_invD(4) [OF inv] by (simp add: init_process_def)
qed

subsection \<open>The new process\<close>

text \<open>The addresses of process \<open>i\<close>.\<close>

lemma own_keys:
  assumes "i < 2 ^ 31" "b < 2 ^ 31" "va_pid a = word_of_int (int i)" "va_page a = 0"
  shows "page_keys a b = {(pid, page). unat pid = i \<and> unat page < b}"
    "unat page < b \<Longrightarrow> (word_of_int (int i), page) = page_key a (unat page)"
proof -
  show eq: "(word_of_int (int i), page) = page_key a (unat page)" for page
    using assms by (simp add: page_key_def)
  show "page_keys a b = {(pid, page). unat pid = i \<and> unat page < b}"
  proof (intro set_eqI iffI)
    fix k assume "k \<in> page_keys a b"
    then obtain j where "j < b" "k = (word_of_int (int i), word_of_int (int j))"
      using assms(3,4) by (auto simp: page_keys_def page_key_def)
    then show "k \<in> {(pid, page). unat pid = i \<and> unat page < b}"
      using assms(1,2) slot_word(1) [of i] slot_word(1) [of j] by simp
  next
    fix k :: vkey assume "k \<in> {(pid, page). unat pid = i \<and> unat page < b}"
    then obtain page where "k = (word_of_int (int i), page)" "unat page < b" by (cases k) auto
    then show "k \<in> page_keys a b" unfolding page_keys_def eq by simp
  qed
qed

lemma live_slot_upd:
  "i < length ps \<Longrightarrow> live_slot (ps[i := p]) j = (if j = i then \<not> prc_junk p else live_slot ps j)"
  by (auto simp: live_slot_def nth_list_update)

lemma proc_pages_new:
  assumes "i < length ps" "length ps < 2 ^ 31" "b < 2 ^ 31" "\<not> prc_junk p" "\<not> live_slot ps i"
    and "va_pid a = word_of_int (int i)" "va_page a = 0"
  shows "bk_range (proc_pages b ps) a b (prc_disk_block_start p) = proc_pages b (ps[i := p])"
proof
  fix k :: vkey
  have i: "i < 2 ^ 31" using assms(1,2) by simp
  note own = own_keys [OF i assms(3,6,7)]
  obtain pid page where k: "k = (pid, page)" by (cases k)
  show "bk_range (proc_pages b ps) a b (prc_disk_block_start p) k = proc_pages b (ps[i := p]) k"
  proof (cases "unat pid = i \<and> unat page < b")
    case True
    then have "k = page_key a (unat page)" using own(2) [of page] k by auto
    then have "bk_range (proc_pages b ps) a b (prc_disk_block_start p) k = Some (prc_disk_block_start p + int (unat page))"
      using bk_range_at [of b "unat page"] True assms(3) by simp
    then show ?thesis using True k assms(1,4) by (simp add: proc_pages_def live_slot_upd)
  next
    case False
    then have "k \<notin> page_keys a b" using own(1) k by auto
    then show ?thesis
      using False k assms(1,5) by (auto simp: bk_range_other proc_pages_def live_slot_upd)
  qed
qed

lemma used_blocks_new:
  assumes "i < length ps" "\<not> prc_junk p" "\<not> live_slot ps i"
  shows "used_blocks b (ps[i := p]) = insert (block_of b p) (used_blocks b ps)"
  using assms unfolding used_blocks_def by (auto simp: live_slot_upd nth_list_update split: if_splits)

text \<open>The MMU with the bitmap of the disk changed: what is in use stays allocated.\<close>

lemma mmu_disk_bitmap:
  assumes inv: "mmu_inv m" and d: "disk_inv d'" "same_disk (mmu_disk m) d'"
    and live: "\<forall>k p. m_bk m k = Some p \<longrightarrow> disk_live d' (nat p)"
  shows "mmu_inv (m\<lparr>mmu_disk := d'\<rparr>)" "m_bk (m\<lparr>mmu_disk := d'\<rparr>) = m_bk m"
    "vmem (m\<lparr>mmu_disk := d'\<rparr>) = vmem m" "page_of (m\<lparr>mmu_disk := d'\<rparr>) = page_of m"
proof -
  obtain bm where bm: "d' = (mmu_disk m)\<lparr>d_alloc_bitmap := bm\<rparr>" using d(2) by (auto simp: same_disk_def)
  have fields: "d_page_size d' = d_page_size (mmu_disk m)" "disk_page d' = disk_page (mmu_disk m)"
    by (simp_all add: bm disk_page_def fun_eq_iff)
  show bk: "m_bk (m\<lparr>mmu_disk := d'\<rparr>) = m_bk m" by (simp add: m_bk_def)
  have "backing_ok d' (m_bk m)"
    using mmu_invD(8) [OF inv] live unfolding backing_ok_def by blast
  then show "mmu_inv (m\<lparr>mmu_disk := d'\<rparr>)"
    using inv d(1) fields(1) bk by (simp add: mmu_inv_def)
  have st: "stable (m\<lparr>mmu_disk := d'\<rparr>) = stable m"
    by (simp add: stable_def bk fields(2) fun_eq_iff cong: option.case_cong)
  show pg: "page_of (m\<lparr>mmu_disk := d'\<rparr>) = page_of m"
    by (simp add: page_of_def bk fields(2) fun_eq_iff cong: option.case_cong)
  show "vmem (m\<lparr>mmu_disk := d'\<rparr>) = vmem m"
    by (simp add: vmem_def st pg fun_eq_iff)
qed

lemma page_in_block:
  assumes "0 < b" "j < b"
  shows "nat (int (k * b) + int j) div b = k"
proof -
  have "nat (int (k * b) + int j) = k * b + j" by (simp only: flip: of_nat_add)
  then show ?thesis using assms by simp
qed

text \<open>A disk page in use lies in the block of its process.\<close>

lemma proc_pages_block:
  assumes "pc_inv m c" "m_bk m k = Some p"
  shows "\<exists>i. live_slot (pc_list c) i \<and> unat (fst k) = i \<and> nat p div pc_blk c = block_of (pc_blk c) (pc_list c ! i)"
proof -
  note C = pc_invD [OF assms(1)]
  obtain pid page where k: "k = (pid, page)" by (cases k)
  then have live: "live_slot (pc_list c) (unat pid)" "unat page < pc_blk c"
      and p: "p = prc_disk_block_start (pc_list c ! unat pid) + int (unat page)"
    using assms(2) C(9) by (auto simp: proc_pages_def split: if_splits)
  let ?k = "block_of (pc_blk c) (pc_list c ! unat pid)"
  have "prc_disk_block_start (pc_list c ! unat pid) = int (?k * pc_blk c)"
    using C(8) [OF live(1)] by (simp add: slot_ok_def)
  then have "p = int (?k * pc_blk c) + int (unat page)" using p by (simp only:)
  then have "nat p div pc_blk c = ?k"
    using page_in_block [OF C(5) live(2)] by (simp only:)
  then show ?thesis using live(1) k by auto
qed

lemma block_of_start: "0 < b \<Longrightarrow> prc_disk_block_start p = int (k * b) \<Longrightarrow> block_of b p = k"
  unfolding block_of_def using page_in_block [of b 0 k] by simp

lemma worker_thread_create_zero:
  "worker_thread_create (prc_thrd zero_process) () =
     Inr (ecSuccess, (prc_thrd zero_process)\<lparr>wt_func := Some (), wt_line_started := - 1\<rparr>)"
  by (simp add: worker_thread_create_def rwlock_init_def zero_process_def)

text \<open>The slot that a successful \<^verbatim>\<open>init_process\<close> leaves behind.\<close>

definition new_slot :: "nat \<Rightarrow> int \<Rightarrow> post_t queue_t \<Rightarrow> process_t" where
  "new_slot i page mail = zero_process\<lparr>prc_disk_block_start := page, prc_mail := Some mail,
     prc_pid := word_of_int (int i),
     prc_thrd := (prc_thrd zero_process)\<lparr>wt_func := Some (), wt_line_started := - 1\<rparr>\<rparr>"

lemma new_slot_ok:
  assumes "queue_inv mail" "0 < b"
  shows "slot_ok b i (new_slot i (int (k * b)) mail)" "\<not> prc_junk (new_slot i page mail)"
    "prc_disk_block_start (new_slot i page mail) = page" "block_of b (new_slot i (int (k * b)) mail) = k"
proof -
  show start: "prc_disk_block_start (new_slot i page mail) = page" for page by (simp add: new_slot_def)
  show blk: "block_of b (new_slot i (int (k * b)) mail) = k" by (rule block_of_start [OF assms(2) start])
  show "\<not> prc_junk (new_slot i page mail)" by (simp add: new_slot_def zero_process_def)
  show "slot_ok b i (new_slot i (int (k * b)) mail)"
    unfolding slot_ok_def blk start using assms by (simp add: new_slot_def zero_process_def)
qed

end
