(* ===== verification/Process_Create.thy ===== *)
theory Process_Create
  imports Container
begin

text \<open>
  Creating and starting a process (\<^verbatim>\<open>init_process\<close>, \<^verbatim>\<open>process_start\<close> of \<^verbatim>\<open>vmsim/pcb.c\<close>): with
  a free slot and a free block the process gets both and its pages; without them the call fails.
\<close>

lemma alloc_pages_ok:
  assumes m: "mmu_inv m" "mmu_lock m = rw_free" and c: "pc_inv m c"
    and i: "i < length (pc_list c)" "\<not> live_slot (pc_list c) i"
    and d: "disk_inv d'" "same_disk (mmu_disk m) d'"
      "disk_blocks d' (insert k (used_blocks (pc_blk c) (pc_list c)))"
    and k: "k < disk_nblocks (mmu_disk m)" "k \<notin> used_blocks (pc_blk c) (pc_list c)"
    and a: "va_pid a = word_of_int (int i)" "va_page a = 0"
  shows "\<exists>m'. alloc_loop (pc_blk c) a (int (k * pc_blk c)) (m\<lparr>mmu_disk := d'\<rparr>) = Inr (ecSuccess, m') \<and>
           mmu_inv m' \<and> mmu_lock m' = rw_free \<and>
           m_bk m' = bk_range (m_bk m) a (pc_blk c) (int (k * pc_blk c)) \<and>
           mmu_mem m' = mmu_mem m \<and> mmu_disk m' = d' \<and> vmem m \<subseteq>\<^sub>m vmem m'"
proof -
  let ?b = "pc_blk c" let ?ps = "pc_list c" let ?K = "used_blocks ?b ?ps"
  let ?m1 = "m\<lparr>mmu_disk := d'\<rparr>"
  note C = pc_invD [OF c]
  obtain bm where "d' = (mmu_disk m)\<lparr>d_alloc_bitmap := bm\<rparr>" using d(2) by (auto simp: same_disk_def)
  then have same: "disk_bsize d' = ?b" "disk_pages d' = disk_pages (mmu_disk m)" using C(7) by simp_all
  have live: "disk_live d' p \<longleftrightarrow> p < disk_pages d' \<and> p div ?b \<in> insert k ?K" for p
    using d(3) same(1) by (auto simp: disk_blocks_def disk_live_def)
  have used: "\<forall>key p. m_bk m key = Some p \<longrightarrow> disk_live d' (nat p)"
  proof (intro allI impI)
    fix key p assume that: "m_bk m key = Some p"
    have "nat p div ?b \<in> ?K" using proc_pages_block [OF c that] by (auto simp: used_blocks_def)
    then show "disk_live d' (nat p)" using live backing_page(4) [OF m(1) that] same(2) by simp
  qed
  note M = mmu_disk_bitmap [OF m(1) d(1,2) used]
  have inv1: "mmu_inv ?m1" by (rule M(1))
  have i31: "i < 2 ^ 31" using i(1) C(3) by simp
  note keys = own_keys(1) [OF i31 C(6) a]
  have fresh: "page_keys a ?b \<inter> dom (m_bk ?m1) = {}"
    unfolding M(2) keys unfolding C(9) proc_pages_def using i(2) by (auto split: if_splits)
  have fit: "k * ?b + ?b \<le> disk_pages d'"
    using block_fits [OF mmu_invD(2) [OF m(1)] k(1)] C(7) same(2) by simp
  have pages: "0 \<le> int (k * ?b) + int j \<and> disk_live (mmu_disk ?m1) (nat (int (k * ?b) + int j)) \<and>
      int (k * ?b) + int j \<notin> ran (m_bk ?m1)" if j: "j < ?b" for j
  proof -
    note div = page_in_block [OF C(5) j, of k]
    have "nat (int (k * ?b) + int j) < disk_pages d'" using fit j by linarith
    then have "disk_live d' (nat (int (k * ?b) + int j))" unfolding live div by blast
    moreover have "int (k * ?b) + int j \<notin> ran (m_bk m)"
    proof
      assume "int (k * ?b) + int j \<in> ran (m_bk m)"
      then obtain key where "m_bk m key = Some (int (k * ?b) + int j)" unfolding ran_def by blast
      from proc_pages_block [OF c this] show False using k(2) unfolding div used_blocks_def by auto
    qed
    ultimately show ?thesis unfolding M(2) by simp
  qed
  have n: "?b \<le> 2 ^ 32" using C(6) by simp
  have lk: "mmu_lock ?m1 = rw_free" using m(2) by simp
  show ?thesis using alloc_loop_ok [OF inv1 lk n fresh pages] unfolding M(2,3) by auto
qed

lemma pc_inv_new:
  assumes c: "pc_inv m c" and i: "i < length (pc_list c)" "\<not> live_slot (pc_list c) i" and mail: "queue_inv mail"
    and a: "va_pid a = word_of_int (int i)" "va_page a = 0"
    and m': "m_bk m' = bk_range (m_bk m) a (pc_blk c) (int (k * pc_blk c))"
      "d_process_block_size (mmu_disk m') = d_process_block_size (mmu_disk m)"
      "disk_blocks (mmu_disk m') (insert k (used_blocks (pc_blk c) (pc_list c)))"
  shows "pc_inv m' (c\<lparr>pc_processes := Some ((pc_list c)[i := new_slot i (int (k * pc_blk c)) mail])\<rparr>)"
proof -
  let ?b = "pc_blk c" and ?ps = "pc_list c" and ?p = "new_slot i (int (k * pc_blk c)) mail"
  note C = pc_invD [OF c] and N = new_slot_ok [OF mail C(5)]
  have "slot_ok ?b j (?ps[i := ?p] ! j)" if "live_slot (?ps[i := ?p]) j" for j
    using that C(8) [of j] N(1) i(1) by (cases "j = i") (simp_all add: live_slot_upd)
  moreover have "m_bk m' = proc_pages ?b (?ps[i := ?p])"
    using proc_pages_new [where p = ?p, OF i(1) C(3,6) N(2) i(2) a] unfolding m'(1) C(9) N(3) .
  moreover have "used_blocks ?b (?ps[i := ?p]) = insert k (used_blocks ?b ?ps)"
    using used_blocks_new [OF i(1) N(2) i(2)] N(4) by simp
  ultimately show ?thesis using C m' by (simp add: pc_inv_def)
qed

lemma init_process_ok:
  assumes m: "mmu_inv m" "mmu_lock m = rw_free" and c: "pc_inv m c" and oom: "\<And>n. \<not> oom n"
    and i: "i < length (pc_list c)" "\<not> live_slot (pc_list c) i" "\<And>j. j < i \<Longrightarrow> live_slot (pc_list c) j"
    and k: "k < disk_nblocks (mmu_disk m)" "k \<notin> used_blocks (pc_blk c) (pc_list c)"
      "\<And>j. j < k \<Longrightarrow> j \<in> used_blocks (pc_blk c) (pc_list c)"
  shows "\<exists>m' mail c'. init_process off oom m c = Inr (int i, m', c') \<and>
           c' = c\<lparr>pc_processes := Some ((pc_list c)[i := new_slot i (int (k * pc_blk c)) mail])\<rparr> \<and>
           queue_inv mail \<and> queue_list mail = [] \<and> mmu_inv m' \<and> mmu_lock m' = rw_free \<and> pc_inv m' c' \<and>
           mmu_mem m' = mmu_mem m \<and> d_npages (mmu_disk m') = d_npages (mmu_disk m) \<and> vmem m \<subseteq>\<^sub>m vmem m'"
proof -
  define w :: u32 where "w = word_of_int (int i)"
  let ?b = "pc_blk c" and ?ps = "pc_list c"
  define p where "p = int (k * ?b)"
  note C = pc_invD [OF c]
  obtain mail :: "post_t queue_t" where mail: "queue_init oom = Inr mail" "queue_inv mail" "queue_list mail = []"
    using queue_init_ok [of oom] oom by blast
  obtain d' where d': "disk_alloc_process_block (mmu_disk m) = Inr (ecSuccess, p, d')" "disk_inv d'"
      "same_disk (mmu_disk m) d'" "disk_blocks d' (insert k (used_blocks ?b ?ps))"
    using disk_alloc_found [OF mmu_invD(2) [OF m(1)] C(10) k] unfolding C(7) p_def by auto
  let ?a = "\<lparr>va_pid = w, va_page = 0, va_offset = off\<rparr>"
  obtain m' where m': "alloc_loop ?b ?a p (m\<lparr>mmu_disk := d'\<rparr>) = Inr (ecSuccess, m')" "mmu_inv m'"
      "mmu_lock m' = rw_free" "m_bk m' = bk_range (m_bk m) ?a ?b p" "mmu_mem m' = mmu_mem m"
      "mmu_disk m' = d'" "vmem m \<subseteq>\<^sub>m vmem m'"
    using alloc_pages_ok [OF m c i(1,2) d'(2-4) k(1,2), of ?a] unfolding p_def w_def by auto
  let ?c' = "c\<lparr>pc_processes := Some (?ps[i := new_slot i p mail])\<rparr>"
  obtain bm where bm: "d' = (mmu_disk m)\<lparr>d_alloc_bitmap := bm\<rparr>" using d'(3) by (auto simp: same_disk_def)
  have inv': "pc_inv m' ?c'"
    unfolding p_def
    by (rule pc_inv_new [OF c i(1,2) mail(2) _ _ m'(4) [unfolded p_def]])
      (use d'(4) in \<open>simp_all add: m'(6) bm w_def\<close>)
  have w: "unat w = i" "sint w = int i" using slot_word i(1) C(3) by (simp_all add: w_def)
  have blk: "nat (sint (pc_prc_blk_size c)) = ?b" using sint_small C(6) by simp
  have lt: "\<not> pc_max_num_of_proc c \<le> w" using i(1) unfolding word_le_nat_alt w(1) C(2) by simp
  have find: "find_slot (unat (pc_max_num_of_proc c)) 0 c = Inr w"
    unfolding w_def by (rule first_slot(2) [OF c]) (use i in auto)
  have mtx: "c\<lparr>pc_processes := Some x, pc_mutex := False\<rparr> = c\<lparr>pc_processes := Some x\<rparr>" for x
    using C(4) by (cases c) simp
  let ?t = "(prc_thrd zero_process)\<lparr>wt_func := Some (), wt_line_started := - 1\<rparr>"
  have slot: "zero_process\<lparr>prc_disk_block_start := p, prc_junk := False, prc_mail := Some mail, prc_pid := w,
      prc_thrd := ?t\<rparr> = new_slot i p mail"
    by (simp add: new_slot_def zero_process_def w_def)
  have i': "unat w < length ?ps" using w(1) i(1) by simp
  have "init_process off oom m c = Inr (int i, m', ?c')"
    using C(4) find lt d'(1) m'(1) mail(1) w i(1)
    by (simp add: init_process_def pc_upd_at [OF C(1) i'] mmu_alloc_multiple_def blk pc_proc_at pc_upd_at
        worker_thread_create_zero slot mtx)
  moreover have "d_npages (mmu_disk m') = d_npages (mmu_disk m)" by (simp add: m'(6) bm)
  ultimately show ?thesis unfolding p_def [symmetric] using m' inv' mail by blast
qed

text \<open>
  Without a free block, \<^verbatim>\<open>init_process\<close> frees the slot that it has chosen: a pointer that \<^verbatim>\<open>calloc\<close> has not
  returned, unless the slot is the first one, with which all slots go. Or the search for a block has already left the bitmap.
\<close>

lemma init_process_no_block:
  assumes m: "disk_inv (mmu_disk m)" and c: "pc_inv m c"
    and i: "i < length (pc_list c)" "\<not> live_slot (pc_list c) i" "\<And>j. j < i \<Longrightarrow> live_slot (pc_list c) j"
    and full: "used_blocks (pc_blk c) (pc_list c) = {..<disk_nblocks (mmu_disk m)}"
  shows "init_process off oom m c =
    (if disk_pages (mmu_disk m) mod disk_bsize (mmu_disk m) = 0 \<and> d_npages (mmu_disk m) mod 8 = 0 then Inl OutOfBounds
     else if i = 0 then Inr (- 2, m, c\<lparr>pc_processes := None\<rparr>) else Inl BadFree)"
proof -
  note C = pc_invD [OF c]
  define w :: u32 where "w = word_of_int (int i)"
  have w: "unat w = i" using slot_word(1) i(1) C(3) by (simp add: w_def)
  have lt: "\<not> pc_max_num_of_proc c \<le> w" using i(1) unfolding word_le_nat_alt w C(2) by simp
  have find: "find_slot (unat (pc_max_num_of_proc c)) 0 c = Inr w"
    unfolding w_def by (rule first_slot(2) [OF c]) (use i in auto)
  have z: "w = 0 \<longleftrightarrow> i = 0" using w by (metis unat_0 unat_eq_zero)
  have i': "unat w < length (pc_list c)" using w i(1) by simp
  have blocks: "disk_blocks (mmu_disk m) {..<disk_nblocks (mmu_disk m)}" using C(10) unfolding full .
  have mtx: "c\<lparr>pc_processes := None, pc_mutex := False\<rparr> = c\<lparr>pc_processes := None\<rparr>" using C(4) by (cases c) simp
  show ?thesis
  proof (cases "disk_pages (mmu_disk m) mod disk_bsize (mmu_disk m) = 0 \<and> d_npages (mmu_disk m) mod 8 = 0")
    case True
    then show ?thesis
      using disk_alloc_overrun [OF m blocks] C(4) find lt by (simp add: init_process_def pc_upd_at [OF C(1) i'])
  next
    case False
    then obtain p where "disk_alloc_process_block (mmu_disk m) = Inr (ecFail, p, mmu_disk m)"
      using disk_alloc_leftover [OF m blocks] disk_alloc_full [OF m blocks] by blast
    then show ?thesis
      using False C(4) find lt z mtx by (auto simp: init_process_def free_slot_def pc_upd_at [OF C(1) i'])
  qed
qed

end
