(* ===== verification/Startup.thy ===== *)
theory Startup
  imports App Process_Create
begin

text \<open>
  \<^verbatim>\<open>load_app_data\<close> builds a simulator that satisfies every invariant of the development, and
  \<^verbatim>\<open>create_process\<close> keeps them.
\<close>

definition env_ok :: "env_t \<Rightarrow> bool" where
  "env_ok env \<longleftrightarrow> en_disk env \<noteq> None \<and> en_bitmap env \<and> en_mm env \<noteq> None \<and> en_entries env \<and> en_hat env \<and>
     en_oom env = (\<lambda>_. False) \<and> en_rwlock env = 0 \<and> en_prm_thread env = 0 \<and> en_aging_thread env = 0"

text \<open>Sizes that are positive and small enough for the arithmetic on \<^verbatim>\<open>int\<close>.\<close>

definition config_ok :: "config_t \<Rightarrow> bool" where
  "config_ok cf \<longleftrightarrow> 0 < unat (cf_page_size cf) \<and> 0 < unat (cf_n_page_mm cf) \<and> 0 < unat (cf_n_page_disk cf) \<and>
     0 < unat (cf_n_proc_pages cf) \<and> unat (cf_nproc cf) < 2 ^ 31 \<and> unat (cf_n_proc_pages cf) < 2 ^ 31 \<and>
     unat (cf_n_page_mm cf) * unat (cf_page_size cf) < 2 ^ 31 \<and>
     unat (cf_n_page_disk cf) * unat (cf_page_size cf) < 2 ^ 31"

lemma config_sizes:
  assumes "config_ok cf"
  shows "sint (cf_page_size cf) = int (unat (cf_page_size cf))"
    "sint (cf_n_page_mm cf) = int (unat (cf_n_page_mm cf))"
    "sint (cf_n_page_disk cf) = int (unat (cf_n_page_disk cf))"
    "sint (cf_n_proc_pages cf) = int (unat (cf_n_proc_pages cf))"
    "sint (cf_nproc cf) = int (unat (cf_nproc cf))"
proof -
  have le: "x * 1 \<le> x * y" "y * 1 \<le> x * y" if "0 < x" "0 < y" for x y :: nat
    using that by simp_all
  have "unat (cf_page_size cf) < 2 ^ 31" "unat (cf_n_page_mm cf) < 2 ^ 31" "unat (cf_n_page_disk cf) < 2 ^ 31"
    using assms le [of "unat (cf_n_page_mm cf)" "unat (cf_page_size cf)"]
      le [of "unat (cf_n_page_disk cf)" "unat (cf_page_size cf)"]
    unfolding config_ok_def by linarith+
  then show "sint (cf_page_size cf) = int (unat (cf_page_size cf))"
    "sint (cf_n_page_mm cf) = int (unat (cf_n_page_mm cf))"
    "sint (cf_n_page_disk cf) = int (unat (cf_n_page_disk cf))"
    "sint (cf_n_proc_pages cf) = int (unat (cf_n_proc_pages cf))"
    "sint (cf_nproc cf) = int (unat (cf_nproc cf))"
    using assms sint_small unfolding config_ok_def by blast+
qed

lemma init_proc_cont_inv:
  assumes "n < 2 ^ 31" "0 < b" "b < 2 ^ 31" "disk_inv (mmu_disk m)" "disk_bsize (mmu_disk m) = b"
    and "m_bk m = Map.empty" "\<And>i. \<not> disk_live (mmu_disk m) i"
  shows "pc_inv m (init_proc_cont (int n) (int b))" "pc_blk (init_proc_cont (int n) (int b)) = b"
    "length (pc_list (init_proc_cont (int n) (int b))) = n"
    "\<not> live_slot (pc_list (init_proc_cont (int n) (int b))) i"
proof -
  let ?c = "init_proc_cont (int n) (int b)"
  have ps: "pc_processes ?c = Some (replicate n (zero_process\<lparr>prc_junk := True\<rparr>))"
    by (simp add: init_proc_cont_def)
  then have l: "pc_list ?c = replicate n (zero_process\<lparr>prc_junk := True\<rparr>)" by (simp add: pc_list_def)
  have dead: "\<not> live_slot (pc_list ?c) i" for i by (simp add: l live_slot_def)
  then show "\<not> live_slot (pc_list ?c) i" .
  show blk: "pc_blk ?c = b" using slot_word(1) [OF assms(3)] by (simp add: init_proc_cont_def)
  show "length (pc_list ?c) = n" by (simp add: l)
  have nn: "unat (pc_max_num_of_proc ?c) = n" using slot_word(1) [OF assms(1)] by (simp add: init_proc_cont_def)
  have used: "used_blocks b (pc_list ?c) = {}" using dead by (simp add: used_blocks_def)
  have pp: "proc_pages b (pc_list ?c) = Map.empty" using dead by (simp add: proc_pages_def fun_eq_iff)
  show "pc_inv m ?c"
    unfolding pc_inv_def blk nn used pp
    using assms dead ps l by (simp add: disk_blocks_def init_proc_cont_def)
qed

lemma load_config_ok:
  assumes cf: "config_ok cf" and env: "env_ok env"
  shows "\<exists>app'. load_config env cf app = Inr (True, app') \<and> app_initialized app' \<and> sys_out (app_sys app') = sys_out (app_sys app) \<and>
           sys_inv (app_sys app') \<and> vm_bk (sys_vm (app_sys app')) = Map.empty \<and>
           vm_psize (sys_vm (app_sys app')) = unat (cf_page_size cf) \<and>
           mm_frames (mmu_mem (vm_mmu (sys_vm (app_sys app')))) = unat (cf_n_page_mm cf) \<and>
           disk_pages (mmu_disk (vm_mmu (sys_vm (app_sys app')))) = unat (cf_n_page_disk cf) \<and>
           pc_blk (sys_cont (app_sys app')) = unat (cf_n_proc_pages cf) \<and>
           length (pc_list (sys_cont (app_sys app'))) = unat (cf_nproc cf) \<and>
           (\<forall>i. \<not> live_slot (pc_list (sys_cont (app_sys app'))) i)"
proof -
  let ?vm = "sys_vm (app_sys app)"
  let ?ps = "unat (cf_page_size cf)" and ?nm = "unat (cf_n_page_mm cf)" and ?nd = "unat (cf_n_page_disk cf)"
  let ?nb = "unat (cf_n_proc_pages cf)" and ?np = "unat (cf_nproc cf)"
  note S = config_sizes [OF cf]
  have P: "0 < ?ps" "0 < ?nm" "0 < ?nd" "0 < ?nb" "?np < 2 ^ 31" "?nb < 2 ^ 31" "?nm * ?ps < 2 ^ 31" "?nd * ?ps < 2 ^ 31"
    using cf by (simp_all add: config_ok_def)
  obtain ad am where E: "en_disk env = Some ad" "en_mm env = Some am" "en_bitmap env" "en_entries env" "en_hat env"
      "en_oom env = (\<lambda>_. False)" "en_rwlock env = 0" "en_prm_thread env = 0" "en_aging_thread env = 0"
    using env by (auto simp: env_ok_def)
  have prod: "int x * int y < 2 ^ 31" if "x * y < 2 ^ 31" for x y
    using that by (metis of_nat_less_iff of_nat_mult of_nat_numeral of_nat_power)
  obtain disk where disk: "disk_init (Some ad) True (mmu_disk (vm_mmu ?vm)) (int ?nd) (int ?ps) (int ?nb) = (ecSuccess, disk)"
      "disk_inv disk" "\<And>i. \<not> disk_live disk i"
    using disk_init_inv [of "int ?nd" "int ?ps" "int ?nb" ad "mmu_disk (vm_mmu ?vm)"] P prod [OF P(8)]
    by (metis of_nat_0_less_iff prod.collapse)
  have dsz: "d_npages disk = int ?nd" "d_page_size disk = int ?ps" "d_process_block_size disk = int ?nb"
    using disk(1) by (auto simp: disk_init_def)
  obtain mm where mm: "mm_init (Some am) (mmu_mem (vm_mmu ?vm)) (int ?nm) (int ?ps) = (ecSuccess, mm)" "mm_inv mm"
    using mm_init_inv [of "int ?nm" "int ?ps" am "mmu_mem (vm_mmu ?vm)"] P prod [OF P(7)]
    by (metis of_nat_0_less_iff prod.collapse)
  have msz: "mm_npages mm = int ?nm" "mm_page_size mm = int ?ps" using mm(1) by (auto simp: mm_init_def Let_def)
  have ps: "mm_page_size mm = d_page_size disk" by (simp only: msz dsz)
  obtain m where m: "mmu_init True True (\<lambda>_. False) 0 (vm_mmu ?vm) mm disk (sint (cf_shift_clock cf)) = Inr (ecSuccess, m)"
      "mmu_inv m" "mmu_lock m = rw_free" "m_bk m = Map.empty" "mmu_mem m = mm" "mmu_disk m = disk"
    using mmu_init_ok [OF mm(2) disk(2) ps, of "\<lambda>_. False" "vm_mmu ?vm" "sint (cf_shift_clock cf)"] by auto
  let ?c = "init_proc_cont (int ?np) (int ?nb)"
  have cont: "pc_inv m ?c" "pc_blk ?c = ?nb" "length (pc_list ?c) = ?np" "\<And>i. \<not> live_slot (pc_list ?c) i"
    using init_proc_cont_inv [OF P(5,4,6), of m] disk(2,3) m(4,6) dsz(3) by simp_all
  obtain q :: "nat queue_t" where q: "queue_init (\<lambda>_. False) = Inr q" "queue_inv q" "queue_list q = []"
    using queue_init_ok [of "\<lambda>_. False"] by auto
  let ?prm0 = "(vm_prm ?vm)\<lparr>prm_mutex := False, prm_queue_mutex := False, prm_queue := q, prm_running := False,
      prm_stop := False, prm_oom := \<lambda>_. False\<rparr>"
  have prm: "prm_init (\<lambda>_. False) 0 (vm_prm ?vm) = Inr (ecSuccess, ?prm0\<lparr>prm_running := True\<rparr>)"
    using q(1) by (simp add: prm_init_def posix_errcode_def Let_def)
  obtain ag where ag: "aging_daemon_start 0 (vm_aging ?vm) = (ecSuccess, ag)" "ag_idle ag"
    by (simp add: aging_daemon_start_def posix_errcode_def ag_idle_def Let_def)
  let ?app = "\<lparr>app_initialized = True, app_page_size = cf_page_size cf, app_num_of_proc_page = cf_n_proc_pages cf,
      app_shift_clock = cf_shift_clock cf,
      app_sys = (app_sys app)\<lparr>sys_vm := \<lparr>vm_mmu = m, vm_prm = ?prm0\<lparr>prm_running := True\<rparr>, vm_aging = ag\<rparr>, sys_cont := ?c\<rparr>\<rparr>"
  have run: "load_config env cf app = Inr (True, ?app)"
    using disk(1) mm(1) m(1) prm ag(1) by (simp add: load_config_def S E)
  have "prm_idle (?prm0\<lparr>prm_running := True\<rparr>)" using q by (simp add: prm_idle_def)
  then have "sys_inv (app_sys ?app)" using m(2,3) cont(1) ag(2) by (simp add: whole)
  then show ?thesis
    using run m(4-6) cont msz dsz by (intro exI [of _ ?app]) simp
qed

text \<open>Creating a process in a running simulator.\<close>

lemma create_process_ok:
  assumes inv: "sys_inv sys" and oom: "\<And>n. \<not> oom n"
    and i: "i < length (pc_list (sys_cont sys))" "\<not> live_slot (pc_list (sys_cont sys)) i"
      "\<And>j. j < i \<Longrightarrow> live_slot (pc_list (sys_cont sys)) j"
    and k: "k < disk_nblocks (mmu_disk (vm_mmu (sys_vm sys)))"
      "k \<notin> used_blocks (pc_blk (sys_cont sys)) (pc_list (sys_cont sys))"
      "\<And>j. j < k \<Longrightarrow> j \<in> used_blocks (pc_blk (sys_cont sys)) (pc_list (sys_cont sys))"
  shows "\<exists>sys' mail. create_process off oom sys = Inr (int i, sys') \<and> sys_inv sys' \<and>
           pc_list (sys_cont sys') =
             (pc_list (sys_cont sys))[i := new_slot i (int (k * pc_blk (sys_cont sys))) mail] \<and>
           queue_inv mail \<and> queue_list mail = [] \<and> pc_blk (sys_cont sys') = pc_blk (sys_cont sys) \<and>
           mmu_mem (vm_mmu (sys_vm sys')) = mmu_mem (vm_mmu (sys_vm sys)) \<and>
           d_npages (mmu_disk (vm_mmu (sys_vm sys'))) = d_npages (mmu_disk (vm_mmu (sys_vm sys))) \<and>
           sys_job sys' = sys_job sys \<and>
           sys_out sys' = sys_out sys @ [(None, ascii ''Process with id '' @ fmt_u (word_of_int (int i)) @ ascii '' was created'' @ [10])] \<and>
           vm_view (sys_vm sys) \<subseteq>\<^sub>m vm_view (sys_vm sys')"
proof -
  let ?c = "sys_cont sys" let ?m = "vm_mmu (sys_vm sys)"
  have I: "mmu_inv ?m" "mmu_lock ?m = rw_free" "pc_inv ?m ?c" "vm_inv (sys_vm sys)"
    using inv by (simp_all add: whole)
  obtain m' mail where m': "init_process off oom ?m ?c = Inr (int i, m',
        ?c\<lparr>pc_processes := Some ((pc_list ?c)[i := new_slot i (int (k * pc_blk ?c)) mail])\<rparr>)"
      "queue_inv mail" "queue_list mail = []" "mmu_inv m'" "mmu_lock m' = rw_free"
      "pc_inv m' (?c\<lparr>pc_processes := Some ((pc_list ?c)[i := new_slot i (int (k * pc_blk ?c)) mail])\<rparr>)"
      "mmu_mem m' = mmu_mem ?m" "d_npages (mmu_disk m') = d_npages (mmu_disk ?m)" "vmem ?m \<subseteq>\<^sub>m vmem m'"
    using init_process_ok [OF I(1-3), of oom i k off] oom i k by blast
  let ?t = "ascii ''Process with id '' @ fmt_u (word_of_int (int i)) @ ascii '' was created'' @ [10]"
  let ?sys' = "say ?t (sys\<lparr>sys_vm := (sys_vm sys)\<lparr>vm_mmu := m'\<rparr>,
      sys_cont := ?c\<lparr>pc_processes := Some ((pc_list ?c)[i := new_slot i (int (k * pc_blk ?c)) mail])\<rparr>\<rparr>)"
  have "create_process off oom sys = Inr (int i, ?sys')" using m'(1) by (simp add: create_process_def)
  moreover have "sys_inv ?sys'" using m'(4-6) I(4) by (simp add: whole say_def)
  ultimately show ?thesis using m' by (intro exI [of _ ?sys'] exI [of _ mail]) (simp add: say_def)
qed

text \<open>A virtual page of a live process is backed.\<close>

lemma own_page_backed:
  assumes "sys_inv sys" "live_slot (pc_list (sys_cont sys)) (unat (va_pid a))"
    and "unat (va_page a) < pc_blk (sys_cont sys)"
  shows "\<exists>pg. page_of (vm_mmu (sys_vm sys)) (vkey a) = Some pg"
  using assms pc_invD(9) [of "vm_mmu (sys_vm sys)" "sys_cont sys"]
  by (simp add: sys_inv_def page_of_def proc_pages_def vkey_def)

lemma create_process_backs:
  assumes inv: "sys_inv sys" and oom: "\<And>n. \<not> oom n"
    and i: "i < length (pc_list (sys_cont sys))" "\<not> live_slot (pc_list (sys_cont sys)) i"
      "\<And>j. j < i \<Longrightarrow> live_slot (pc_list (sys_cont sys)) j"
    and k: "k < disk_nblocks (mmu_disk (vm_mmu (sys_vm sys)))"
      "k \<notin> used_blocks (pc_blk (sys_cont sys)) (pc_list (sys_cont sys))"
      "\<And>j. j < k \<Longrightarrow> j \<in> used_blocks (pc_blk (sys_cont sys)) (pc_list (sys_cont sys))"
  shows "\<exists>sys' mail. create_process off oom sys = Inr (int i, sys') \<and> sys_inv sys' \<and>
           pc_list (sys_cont sys') =
             (pc_list (sys_cont sys))[i := new_slot i (int (k * pc_blk (sys_cont sys))) mail] \<and>
           queue_list mail = [] \<and> vm_view (sys_vm sys) \<subseteq>\<^sub>m vm_view (sys_vm sys') \<and>
           (\<forall>page. unat page < pc_blk (sys_cont sys) \<longrightarrow>
              page_of (vm_mmu (sys_vm sys')) (word_of_int (int i), page) \<noteq> None)"
proof -
  let ?c = "sys_cont sys"
  obtain sys' mail where s: "create_process off oom sys = Inr (int i, sys')" "sys_inv sys'"
      "pc_list (sys_cont sys') = (pc_list ?c)[i := new_slot i (int (k * pc_blk ?c)) mail]"
      "queue_inv mail" "queue_list mail = []" "pc_blk (sys_cont sys') = pc_blk ?c"
      "vm_view (sys_vm sys) \<subseteq>\<^sub>m vm_view (sys_vm sys')"
    using create_process_ok [OF inv, of oom i k off] oom i k by blast
  have C: "0 < pc_blk ?c" "length (pc_list ?c) < 2 ^ 31" using inv pc_invD by (auto simp: sys_inv_def)
  have w: "unat (word_of_int (int i) :: u32) = i" using slot_word(1) [of i] i(1) C(2) by simp
  have live: "live_slot (pc_list (sys_cont sys')) i"
    unfolding s(3) using live_slot_upd [OF i(1)] new_slot_ok(2) [OF s(4) C(1)] by simp
  have "page_of (vm_mmu (sys_vm sys')) (word_of_int (int i), page) \<noteq> None" if "unat page < pc_blk ?c" for page
    using own_page_backed [OF s(2), of "\<lparr>va_pid = word_of_int (int i), va_page = page, va_offset = 0\<rparr>"] live w that s(6)
    by (simp add: vkey_def)
  then show ?thesis using s by blast
qed

end
