(* ===== verification/Demo.thy ===== *)
theory Demo
  imports Startup
begin

text \<open>
  A small simulator to apply the operations to: two processes of three pages of four bytes, two
  frames and a disk of seven pages, so that one process does not fit into the memory and the second
  one leaves no block free. \<open>demo_loaded\<close> is what \<^verbatim>\<open>load_app_data\<close> builds from it, \<open>demo_one\<close> and
  \<open>demo_two\<close> have one and two processes, and in \<open>demo_vm\<close> a page of the first has been written.
\<close>

definition blank_queue :: "'a queue_t" where
  "blank_queue = \<lparr>q_head = None, q_tail = None, q_size = 0,
     q_heap = \<lparr>nh_cells = Map.empty, nh_brk = 0, nh_oom = (\<lambda>_. False)\<rparr>\<rparr>"

definition blank_ipt :: ipt_t where
  "blank_ipt = \<lparr>ipt_entries = [], ipt_hat = [], ipt_size = 0, ipt_free_pages = blank_queue,
     ipt_ref_count = 0, ipt_refcnt_lock = rw_free\<rparr>"

definition blank_mm :: mm_t where
  "blank_mm = \<lparr>mm_data = None, mm_bytes = [], mm_npages = 0, mm_page_size = 0, mm_lock = rw_free,
     mm_orig_addr = None\<rparr>"

definition blank_disk :: disk_t where
  "blank_disk = \<lparr>d_data = None, d_bytes = [], d_npages = 0, d_page_size = 0, d_process_block_size = 0,
     d_alloc_bitmap = \<lparr>bm_data = [], bm_size = 0\<rparr>, d_lock = rw_free, d_orig_addr = None\<rparr>"

definition blank_mmu :: mmu_t where
  "blank_mmu = \<lparr>mmu_mem = blank_mm, mmu_disk = blank_disk, mmu_mem_ipt = blank_ipt,
     mmu_disk_map = snd (map_init 12 4 disk_map_comparator), mmu_aging_freq = 0,
     mmu_stats = \<lparr>st_nrefs = 0, st_hits = 0\<rparr>, mmu_stats_lock = rw_free, mmu_lock = rw_free\<rparr>"

definition blank_prm :: prm_t where
  "blank_prm = \<lparr>prm_queue = blank_queue, prm_cmds = Map.empty, prm_brk = 0, prm_oom = (\<lambda>_. False),
     prm_mutex = False, prm_queue_mutex = False, prm_running = False, prm_stop = False,
     prm_oldest = \<lparr>oldest_page_idx = 0, oldest_page_vaddr = zero_virt_addr, oldest_page_age = 0,
                   swap_target = zero_virt_addr, cur_idx = 0\<rparr>\<rparr>"

definition blank_app :: app_data_t where
  "blank_app = \<lparr>app_initialized = False, app_page_size = 0, app_num_of_proc_page = 0, app_shift_clock = 0,
     app_sys = \<lparr>sys_vm = \<lparr>vm_mmu = blank_mmu, vm_prm = blank_prm,
         vm_aging = \<lparr>ag_running = False, ag_stop = False, ag_should_update = False, ag_done_updating = False,
                     ag_mutex = False\<rparr>\<rparr>,
       sys_cont = init_proc_cont 0 0, sys_job = init_job_done, sys_out = []\<rparr>\<rparr>"

definition demo_env :: env_t where
  "demo_env = \<lparr>en_disk = Some 1, en_bitmap = True, en_mm = Some 2, en_entries = True, en_hat = True,
     en_oom = (\<lambda>_. False), en_rwlock = 0, en_prm_thread = 0, en_aging_thread = 0\<rparr>"

definition demo_config :: config_t where
  "demo_config = \<lparr>cf_nproc = 2, cf_page_size = 4, cf_n_page_mm = 2, cf_n_page_disk = 7,
     cf_n_proc_pages = 3, cf_shift_clock = 3\<rparr>"

text \<open>The state behind a result.\<close>

definition state_of :: "('x \<times> 's) res \<Rightarrow> 's \<Rightarrow> 's" where
  "state_of r s = (case r of Inl _ \<Rightarrow> s | Inr (_, s') \<Rightarrow> s')"

lemma state_of_Inr [simp]: "state_of (Inr (x, s')) s = s'"
  by (simp add: state_of_def)

definition demo_loaded :: sys_t where
  "demo_loaded = app_sys (state_of (load_config demo_env demo_config blank_app) blank_app)"

definition demo_one :: sys_t where
  "demo_one = state_of (create_process 0 (\<lambda>_. False) demo_loaded) demo_loaded"

definition demo_two :: sys_t where
  "demo_two = state_of (create_process 0 (\<lambda>_. False) demo_one) demo_one"

definition demo_addr :: virt_addr_t where
  "demo_addr = \<lparr>va_pid = 0, va_page = 1, va_offset = 1\<rparr>"

definition demo_vm :: vm_t where
  "demo_vm = state_of (mmu_write (sys_vm demo_two) demo_addr 2 [7, 9]) (sys_vm demo_two)"

lemma demo_env_ok: "env_ok demo_env"
  by (simp add: env_ok_def demo_env_def)

lemma demo_config_ok: "config_ok demo_config"
  by (simp add: config_ok_def demo_config_def)

lemma demo_loaded_facts:
  "sys_inv demo_loaded" "vm_bk (sys_vm demo_loaded) = Map.empty" "vm_psize (sys_vm demo_loaded) = 4"
  "mm_frames (mmu_mem (vm_mmu (sys_vm demo_loaded))) = 2"
  "disk_pages (mmu_disk (vm_mmu (sys_vm demo_loaded))) = 7" "pc_blk (sys_cont demo_loaded) = 3"
  "length (pc_list (sys_cont demo_loaded)) = 2" "\<not> live_slot (pc_list (sys_cont demo_loaded)) i"
proof -
  obtain app' where app': "load_config demo_env demo_config blank_app = Inr (True, app')"
      "sys_inv (app_sys app') \<and> vm_bk (sys_vm (app_sys app')) = Map.empty \<and>
       vm_psize (sys_vm (app_sys app')) = 4 \<and> mm_frames (mmu_mem (vm_mmu (sys_vm (app_sys app')))) = 2 \<and>
       disk_pages (mmu_disk (vm_mmu (sys_vm (app_sys app')))) = 7 \<and> pc_blk (sys_cont (app_sys app')) = 3 \<and>
       length (pc_list (sys_cont (app_sys app'))) = 2 \<and> (\<forall>i. \<not> live_slot (pc_list (sys_cont (app_sys app'))) i)"
    using load_config_ok [OF demo_config_ok demo_env_ok, of blank_app]
    by (auto simp: demo_config_def)
  then have "demo_loaded = app_sys app'" by (simp add: demo_loaded_def)
  with app'(2) show "sys_inv demo_loaded" "vm_bk (sys_vm demo_loaded) = Map.empty"
    "vm_psize (sys_vm demo_loaded) = 4"
    "mm_frames (mmu_mem (vm_mmu (sys_vm demo_loaded))) = 2"
    "disk_pages (mmu_disk (vm_mmu (sys_vm demo_loaded))) = 7" "pc_blk (sys_cont demo_loaded) = 3"
    "length (pc_list (sys_cont demo_loaded)) = 2" "\<not> live_slot (pc_list (sys_cont demo_loaded)) i" by simp_all
qed

text \<open>The first process gets slot 0 and block 0, the second slot 1 and block 1.\<close>

lemma demo_one_facts:
  "create_process 0 (\<lambda>_. False) demo_loaded = Inr (0, demo_one)" "sys_inv demo_one"
  "vm_psize (sys_vm demo_one) = 4" "disk_pages (mmu_disk (vm_mmu (sys_vm demo_one))) = 7"
  "pc_blk (sys_cont demo_one) = 3" "length (pc_list (sys_cont demo_one)) = 2"
  "live_slot (pc_list (sys_cont demo_one)) i \<longleftrightarrow> i = 0" "used_blocks 3 (pc_list (sys_cont demo_one)) = {0}"
proof -
  note L = demo_loaded_facts
  have used: "used_blocks 3 (pc_list (sys_cont demo_loaded)) = {}" using L(8) by (simp add: used_blocks_def)
  have blk: "disk_nblocks (mmu_disk (vm_mmu (sys_vm demo_loaded))) = 2"
    using L(1,5,6) pc_invD(7) by (fastforce simp: sys_inv_def disk_nblocks_def)
  obtain s mail where s: "create_process 0 (\<lambda>_. False) demo_loaded = Inr (int 0, s)" "sys_inv s"
      "pc_list (sys_cont s) = (pc_list (sys_cont demo_loaded))[0 := new_slot 0 (int (0 * pc_blk (sys_cont demo_loaded))) mail]"
      "queue_inv mail" "pc_blk (sys_cont s) = pc_blk (sys_cont demo_loaded)"
      "mmu_mem (vm_mmu (sys_vm s)) = mmu_mem (vm_mmu (sys_vm demo_loaded))"
      "d_npages (mmu_disk (vm_mmu (sys_vm s))) = d_npages (mmu_disk (vm_mmu (sys_vm demo_loaded)))"
    using create_process_ok [OF L(1), of "\<lambda>_. False" 0 0 0] L(6-8) used blk by (simp only:) force
  have one: "s = demo_one" using s(1) by (simp add: demo_one_def)
  have slot: "pc_list (sys_cont s) = (pc_list (sys_cont demo_loaded))[0 := new_slot 0 0 mail]" using s(3) by simp
  note N = new_slot_ok [OF s(4), of 3]
  have "used_blocks 3 (pc_list (sys_cont s)) = {0}"
    unfolding slot using used_blocks_new [of 0 "pc_list (sys_cont demo_loaded)" "new_slot 0 0 mail" 3] N(2) N(4) [of 0 0] L(7,8) used
    by simp
  then show "create_process 0 (\<lambda>_. False) demo_loaded = Inr (0, demo_one)" "sys_inv demo_one"
    "vm_psize (sys_vm demo_one) = 4" "disk_pages (mmu_disk (vm_mmu (sys_vm demo_one))) = 7"
    "pc_blk (sys_cont demo_one) = 3" "length (pc_list (sys_cont demo_one)) = 2"
    "live_slot (pc_list (sys_cont demo_one)) i \<longleftrightarrow> i = 0" "used_blocks 3 (pc_list (sys_cont demo_one)) = {0}"
    using s(1,2,5-7) slot N(2) L by (simp_all add: one live_slot_upd)
qed

lemma demo_two_facts:
  "create_process 0 (\<lambda>_. False) demo_one = Inr (1, demo_two)" "sys_inv demo_two"
  "vm_psize (sys_vm demo_two) = 4" "disk_pages (mmu_disk (vm_mmu (sys_vm demo_two))) = 7"
  "pc_blk (sys_cont demo_two) = 3" "length (pc_list (sys_cont demo_two)) = 2"
  "live_slot (pc_list (sys_cont demo_two)) i \<longleftrightarrow> i < 2" "used_blocks 3 (pc_list (sys_cont demo_two)) = {0, 1}"
proof -
  note L = demo_one_facts
  have blk: "disk_nblocks (mmu_disk (vm_mmu (sys_vm demo_one))) = 2"
    using L(2,4,5) pc_invD(7) by (fastforce simp: sys_inv_def disk_nblocks_def)
  obtain s mail where s: "create_process 0 (\<lambda>_. False) demo_one = Inr (int 1, s)" "sys_inv s"
      "pc_list (sys_cont s) = (pc_list (sys_cont demo_one))[1 := new_slot 1 (int (1 * pc_blk (sys_cont demo_one))) mail]"
      "queue_inv mail" "pc_blk (sys_cont s) = pc_blk (sys_cont demo_one)"
      "mmu_mem (vm_mmu (sys_vm s)) = mmu_mem (vm_mmu (sys_vm demo_one))"
      "d_npages (mmu_disk (vm_mmu (sys_vm s))) = d_npages (mmu_disk (vm_mmu (sys_vm demo_one)))"
    using create_process_ok [OF L(2), of "\<lambda>_. False" 1 1 0] L(5-8) blk by (simp only:) force
  have two: "s = demo_two" using s(1) by (simp add: demo_two_def)
  have slot: "pc_list (sys_cont s) = (pc_list (sys_cont demo_one))[1 := new_slot 1 (int (1 * 3)) mail]"
    using s(3) unfolding L(5) .
  note N = new_slot_ok [OF s(4), of 3]
  have "used_blocks 3 (pc_list (sys_cont s)) = insert 1 {0}"
    unfolding slot using used_blocks_new [of 1 "pc_list (sys_cont demo_one)" "new_slot 1 (int (1 * 3)) mail" 3] N(2) N(4) [of 1 1] L(6-8)
    by simp
  then show "create_process 0 (\<lambda>_. False) demo_one = Inr (1, demo_two)" "sys_inv demo_two"
    "vm_psize (sys_vm demo_two) = 4" "disk_pages (mmu_disk (vm_mmu (sys_vm demo_two))) = 7"
    "pc_blk (sys_cont demo_two) = 3" "length (pc_list (sys_cont demo_two)) = 2"
    "live_slot (pc_list (sys_cont demo_two)) i \<longleftrightarrow> i < 2" "used_blocks 3 (pc_list (sys_cont demo_two)) = {0, 1}"
    using s(1,2,5-7) slot N(2) L by (auto simp: two live_slot_upd)
qed

lemma demo_page:
  assumes "unat (va_pid a) < 2" "unat (va_page a) < 3"
  shows "\<exists>pg. page_of (vm_mmu (sys_vm demo_two)) (vkey a) = Some pg"
  by (rule own_page_backed [OF demo_two_facts(2)]) (use assms demo_two_facts in auto)

text \<open>The contents of the page that \<open>demo_vm\<close> has written.\<close>

lemma demo_vm_facts:
  "vm_inv demo_vm" "vm_psize demo_vm = 4" "\<exists>pg. vm_view demo_vm (vkey demo_addr) = Some pg \<and> length pg = 4"
proof -
  have inv: "vm_inv (sys_vm demo_two)" using demo_two_facts(2) by (simp add: sys_inv_def)
  obtain pg where pg: "page_of (vm_mmu (sys_vm demo_two)) (vkey demo_addr) = Some pg"
    using demo_page [of demo_addr] by (auto simp: demo_addr_def)
  have fit: "unat (va_offset demo_addr) + unat (2 :: u32) \<le> vm_psize (sys_vm demo_two)"
    by (simp add: demo_addr_def demo_two_facts(3))
  obtain vm' where vm': "mmu_write (sys_vm demo_two) demo_addr 2 [7, 9] = Inr (ecSuccess, vm')"
      "access (sys_vm demo_two) (vkey demo_addr) vm'"
      "(vm_view (sys_vm demo_two))(vkey demo_addr \<mapsto> overwrite pg (unat (va_offset demo_addr)) (take (unat (2 :: u32)) [7, 9]))
         \<subseteq>\<^sub>m vm_view vm'"
    using mmu_write_ok [OF inv pg fit, of "[7, 9]"] by auto
  have vm: "demo_vm = vm'" using vm'(1) by (simp add: demo_vm_def)
  show one: "vm_inv demo_vm" "vm_psize demo_vm = 4"
    using vm'(2) demo_two_facts(3) by (simp_all add: access_def vm)
  obtain pg' where pg': "vm_view demo_vm (vkey demo_addr) = Some pg'"
    using map_le_updD [OF vm'(3)] unfolding vm by blast
  then have "length pg' = 4" using vm.page_len [OF one(1) vmem_page_of] one(2) by simp
  then show "\<exists>pg. vm_view demo_vm (vkey demo_addr) = Some pg \<and> length pg = 4" using pg' by blast
qed

lemma demo_vm_backed:
  assumes "unat (va_pid a) < 2" "unat (va_page a) < 3"
  shows "\<exists>pg. page_of (vm_mmu demo_vm) (vkey a) = Some pg"
proof -
  have "vm_bk demo_vm = vm_bk (sys_vm demo_two)"
  proof -
    have inv: "vm_inv (sys_vm demo_two)" using demo_two_facts(2) by (simp add: sys_inv_def)
    obtain pg where pg: "page_of (vm_mmu (sys_vm demo_two)) (vkey demo_addr) = Some pg"
      using demo_page [of demo_addr] by (auto simp: demo_addr_def)
    have fit: "unat (va_offset demo_addr) + unat (2 :: u32) \<le> vm_psize (sys_vm demo_two)"
      by (simp add: demo_addr_def demo_two_facts(3))
    show ?thesis using mmu_write_ok [OF inv pg fit, of "[7, 9]"] by (auto simp: demo_vm_def access_def)
  qed
  then show ?thesis using demo_page [OF assms] by (auto simp: page_of_def split: option.splits)
qed

end
