(* ===== verification/Ipt_Reach.thy ===== *)
theory Ipt_Reach
  imports Prm_Proofs Aging
begin

text \<open>
  The tables that the operations of \<^verbatim>\<open>vmsim/ipt.c\<close> make out of a new one, called as the MMU, the page
  replacement manager and the ageing daemon call them. In all of them every frame is in its place.
\<close>

text \<open>A page is only added when it is not there (the assertion of \<^verbatim>\<open>mmu_map_page\<close>).\<close>

inductive ipt_reachable :: "nat \<Rightarrow> ipt_t \<Rightarrow> bool" for n where
  init: "ipt_init True True oom 0 fresh (int n) = Inr (ecSuccess, t) \<Longrightarrow> (\<And>i. \<not> oom i) \<Longrightarrow> ipt_reachable n t"
| add: "ipt_reachable n t \<Longrightarrow> ipt_has_translation t a = Inr False \<Longrightarrow> ipt_add t a = Inr (ec, t') \<Longrightarrow> ipt_reachable n t'"
| remove: "ipt_reachable n t \<Longrightarrow> ipt_remove t a = Inr (ec, t') \<Longrightarrow> ipt_reachable n t'"
| reference: "ipt_reachable n t \<Longrightarrow> ipt_reference t a r = Inr (ec, t') \<Longrightarrow> ipt_reachable n t'"
| search: "ipt_reachable n t \<Longrightarrow> ipt_for_each_entry t get_oldest_page s = Inr (ec, t', s') \<Longrightarrow> ipt_reachable n t'"
| age: "ipt_reachable n t \<Longrightarrow> ipt_for_each_entry t (\<lambda>a pd (_ :: unit). (age_page a pd, ())) () = Inr (ec, t', u) \<Longrightarrow>
    ipt_reachable n t'"
| refs: "ipt_reachable n t \<Longrightarrow> ipt_ref_count_of t = Inr (ec, c, t') \<Longrightarrow> ipt_reachable n t'"
| zero: "ipt_reachable n t \<Longrightarrow> ipt_zero_ref_count t = Inr (ec, t') \<Longrightarrow> ipt_reachable n t'"

lemma ipt_reachable_inv:
  assumes "ipt_reachable n t" "0 < n" "n < 2 ^ 31"
  shows "ipt_inv t \<and> ipt_n t = n"
  using assms
proof (induction rule: ipt_reachable.induct)
  case (init oom fresh t)
  then show ?case using ipt_init_ok [of n oom fresh] by auto
next
  case (add t a ec t')
  then have inv: "ipt_inv t" "ipt_n t = n" and absent: "ipt_abs t (vkey a) = None" by (auto simp: ipt_has_translation_inv)
  show ?case
  proof (cases "ipt_spare t")
    case Nil
    then show ?thesis using ipt_add_full [OF inv(1)] add.hyps(3) inv by simp
  next
    case (Cons f F)
    then show ?thesis using ft.add_ok [OF inv(1) absent] add.hyps(3) inv by auto
  qed
next
  case (remove t a ec t')
  then have inv: "ipt_inv t" "ipt_n t = n" by simp_all
  then show ?case
    using ft.remove_ok [OF inv(1), of a] ft.remove_absent [OF inv(1), of a] remove.hyps(2)
    by (cases "ipt_abs t (vkey a)") auto
next
  case (reference t a r ec t')
  then have inv: "ipt_inv t" "ipt_n t = n" by simp_all
  then show ?case
    using ipt_reference_ok [OF inv(1), of a _ r] ipt_reference_absent [OF inv(1), of a r] reference.hyps(2)
    by (cases "ipt_abs t (vkey a)") (auto simp: same_map_def)
next
  case (search t s ec t' s')
  then show ?case using ipt_for_each_entry_ok [of t get_oldest_page s] by (auto simp: same_map_def)
next
  case (age t ec t' u)
  then show ?case using ipt_for_each_entry_ok [of t "\<lambda>a pd (_ :: unit). (age_page a pd, ())" "()"] by (auto simp: same_map_def)
next
  case (refs t ec c t')
  then show ?case by (simp add: ipt_ref_count_of_inv)
next
  case (zero t ec t')
  then show ?case using ref_count_same(1) [of t] by (auto simp: ipt_zero_ref_count_inv same_map_def)
qed

text \<open>No operation on such a table faults.\<close>

lemma ipt_reachable_runs:
  assumes "ipt_reachable n t" "0 < n" "n < 2 ^ 31"
  shows "\<exists>ec t'. ipt_remove t a = Inr (ec, t')"
    "ipt_has_translation t a = Inr False \<Longrightarrow> \<exists>t'. ipt_add t a = Inr (if ipt_spare t = [] then ecFail else ecSuccess, t')"
proof -
  have inv: "ipt_inv t" using ipt_reachable_inv [OF assms] by blast
  show "\<exists>ec t'. ipt_remove t a = Inr (ec, t')"
    using ft.remove_ok [OF inv, of a] ft.remove_absent [OF inv, of a] by (cases "ipt_abs t (vkey a)") auto
  assume "ipt_has_translation t a = Inr False"
  then have "ipt_abs t (vkey a) = None" by (simp add: ipt_has_translation_inv [OF inv])
  then show "\<exists>t'. ipt_add t a = Inr (if ipt_spare t = [] then ecFail else ecSuccess, t')"
    using ft.add_ok [OF inv, of a] ipt_add_full [OF inv] by (cases "ipt_spare t") auto
qed

end
