(* ===== verification/Demo_Mmu.thy ===== *)
theory Demo_Mmu
  imports Demo Ipt_Reach
begin

text \<open>
  The parts of the demo on their own: a page table with two entries, a disk with one block in use,
  and an MMU of two frames with three pages allocated, of which the last one is on the disk only.
\<close>

definition demo_ipt :: ipt_t where
  "demo_ipt = (case ipt_init True True (\<lambda>_. False) 0 blank_ipt 2 of Inl _ \<Rightarrow> blank_ipt | Inr (_, t) \<Rightarrow> t)"

definition page_addr :: "u32 \<Rightarrow> virt_addr_t" where
  "page_addr page = \<lparr>va_pid = 0, va_page = page, va_offset = 0\<rparr>"

definition demo_ipt_two :: ipt_t where
  "demo_ipt_two = state_of (ipt_add (state_of (ipt_add demo_ipt (page_addr 0)) demo_ipt) (page_addr 1)) demo_ipt"

lemma vkey_page_addr [simp]: "vkey (page_addr p) = (0, p)"
  by (simp add: page_addr_def vkey_def)

lemma demo_ipt_facts:
  "ipt_inv demo_ipt" "ipt_n demo_ipt = 2" "ipt_abs demo_ipt = Map.empty" "ipt_spare demo_ipt = [0, 1]"
proof -
  obtain t where t: "ipt_init True True (\<lambda>_. False) 0 blank_ipt 2 = Inr (ecSuccess, t)" "ipt_inv t" "ipt_n t = 2"
      "ipt_abs t = Map.empty" "ipt_spare t = [0..<2]"
    using ipt_init_ok [of 2 "\<lambda>_. False" blank_ipt] by auto
  then have "demo_ipt = t" by (simp add: demo_ipt_def)
  with t(2-5) show "ipt_inv demo_ipt" "ipt_n demo_ipt = 2" "ipt_abs demo_ipt = Map.empty" "ipt_spare demo_ipt = [0, 1]"
    by (simp_all add: numeral_2_eq_2)
qed

lemma demo_ipt_two_facts:
  "ipt_inv demo_ipt_two" "ipt_abs demo_ipt_two = [(0, 0) \<mapsto> 0, (0, 1) \<mapsto> 1]" "ipt_spare demo_ipt_two = []"
  "ipt_n demo_ipt_two = 2"
proof -
  note I = demo_ipt_facts
  obtain t where t: "ipt_add demo_ipt (page_addr 0) = Inr (ecSuccess, t)" "ipt_inv t"
      "ipt_abs t = [(0, 0) \<mapsto> 0]" "ipt_spare t = [1]" "ipt_n t = 2"
    using ipt_add_ok [OF I(1) _ I(4), of "page_addr 0"] I(2,3) by (auto simp: same_shape_def)
  obtain u where u: "ipt_add t (page_addr 1) = Inr (ecSuccess, u)" "ipt_inv u"
      "ipt_abs u = [(0, 0) \<mapsto> 0, (0, 1) \<mapsto> 1]" "ipt_spare u = []" "ipt_n u = 2"
    using ipt_add_ok [OF t(2) _ t(4), of "page_addr 1"] t(3,5) by (auto simp: same_shape_def)
  have "demo_ipt_two = u" using t(1) u(1) by (simp add: demo_ipt_two_def)
  with u(2-5) show "ipt_inv demo_ipt_two" "ipt_abs demo_ipt_two = [(0, 0) \<mapsto> 0, (0, 1) \<mapsto> 1]"
    "ipt_spare demo_ipt_two = []" "ipt_n demo_ipt_two = 2" by simp_all
qed

lemma demo_ipt_two_reachable: "ipt_reachable 2 demo_ipt_two"
proof -
  note I = demo_ipt_facts
  obtain t where t: "ipt_init True True (\<lambda>_. False) 0 blank_ipt (int 2) = Inr (ecSuccess, t)"
    using ipt_init_ok [of 2 "\<lambda>_. False" blank_ipt] by auto
  then have "ipt_reachable 2 demo_ipt" using ipt_reachable.init [OF t] by (simp add: demo_ipt_def)
  moreover obtain t1 where t1: "ipt_add demo_ipt (page_addr 0) = Inr (ecSuccess, t1)" "ipt_inv t1" "ipt_abs t1 = [(0, 0) \<mapsto> 0]"
      "ipt_spare t1 = [1]"
    using ipt_add_ok [OF I(1) _ I(4), of "page_addr 0"] I(3) by auto
  moreover obtain t2 where t2: "ipt_add t1 (page_addr 1) = Inr (ecSuccess, t2)"
    using ipt_add_ok [OF t1(2) _ t1(4), of "page_addr 1"] t1(3) by auto
  ultimately have "ipt_reachable 2 t2"
    using ipt_reachable.add [of 2 demo_ipt "page_addr 0" ecSuccess t1] ipt_reachable.add [of 2 t1 "page_addr 1" ecSuccess t2] I(1,3)
    by (simp add: ipt_has_translation_inv)
  moreover have "demo_ipt_two = t2" using t1(1) t2 by (simp add: demo_ipt_two_def)
  ultimately show ?thesis by simp
qed

definition demo_mm :: mm_t where
  "demo_mm = snd (mm_init (Some 2) blank_mm 2 4)"

definition demo_fresh_disk :: disk_t where
  "demo_fresh_disk = snd (disk_init (Some 1) True blank_disk 7 4 3)"

definition demo_disk :: disk_t where
  "demo_disk = (case disk_alloc_process_block demo_fresh_disk of Inl _ \<Rightarrow> demo_fresh_disk | Inr (_, _, d) \<Rightarrow> d)"

lemma demo_fresh_disk_facts:
  "disk_inv demo_fresh_disk" "disk_blocks demo_fresh_disk {}" "disk_nblocks demo_fresh_disk = 2"
  "disk_bsize demo_fresh_disk = 3" "disk_pages demo_fresh_disk = 7" "disk_psize demo_fresh_disk = 4"
  "\<not> disk_live demo_fresh_disk i"
proof -
  have D: "disk_inv demo_fresh_disk" "\<And>i. \<not> disk_live demo_fresh_disk i"
    using disk_init_inv [of 7 4 3 1 blank_disk] by (simp_all add: demo_fresh_disk_def)
  then show "disk_inv demo_fresh_disk" "disk_blocks demo_fresh_disk {}" "disk_nblocks demo_fresh_disk = 2"
    "disk_bsize demo_fresh_disk = 3" "disk_pages demo_fresh_disk = 7" "disk_psize demo_fresh_disk = 4"
    "\<not> disk_live demo_fresh_disk i"
    by (simp_all add: disk_blocks_def disk_nblocks_def) (simp_all add: demo_fresh_disk_def disk_init_def)
qed

lemma demo_disk_facts:
  "disk_alloc_process_block demo_fresh_disk = Inr (ecSuccess, 0, demo_disk)" "disk_inv demo_disk"
  "disk_blocks demo_disk {0}" "disk_nblocks demo_disk = 2" "disk_bsize demo_disk = 3" "disk_pages demo_disk = 7"
  "disk_psize demo_disk = 4" "disk_live demo_disk i \<longleftrightarrow> i < 3"
proof -
  note F = demo_fresh_disk_facts
  obtain d where d: "disk_alloc_process_block demo_fresh_disk = Inr (ecSuccess, 0, d)" "disk_inv d"
      "same_disk demo_fresh_disk d" "disk_blocks d {0}"
    using disk_alloc_found [OF F(1,2), of 0] F(3) by auto
  have eq: "demo_disk = d" using d(1) by (simp add: demo_disk_def)
  obtain bm where bm: "d = demo_fresh_disk\<lparr>d_alloc_bitmap := bm\<rparr>" using d(3) by (auto simp: same_disk_def)
  have sz: "disk_bsize d = 3" "disk_pages d = 7" "disk_psize d = 4" using F(4-6) by (simp_all add: bm)
  have "disk_live d i \<longleftrightarrow> i < 7 \<and> i div 3 = 0"
    using d(4) sz by (auto simp: disk_blocks_def disk_live_def)
  also have "\<dots> \<longleftrightarrow> i < 3" by auto
  finally show "disk_live demo_disk i \<longleftrightarrow> i < 3" unfolding eq .
  show "disk_alloc_process_block demo_fresh_disk = Inr (ecSuccess, 0, demo_disk)" "disk_inv demo_disk"
    "disk_blocks demo_disk {0}" "disk_nblocks demo_disk = 2" "disk_bsize demo_disk = 3" "disk_pages demo_disk = 7"
    "disk_psize demo_disk = 4"
    using d sz by (simp_all add: eq disk_nblocks_def)
qed

definition demo_mmu_new :: mmu_t where
  "demo_mmu_new = state_of (mmu_init True True (\<lambda>_. False) 0 blank_mmu demo_mm demo_disk 3) blank_mmu"

definition demo_mmu_one :: mmu_t where
  "demo_mmu_one = state_of (mmu_alloc_page demo_mmu_new (page_addr 0) 0) demo_mmu_new"

definition demo_mmu_two :: mmu_t where
  "demo_mmu_two = state_of (mmu_alloc_page demo_mmu_one (page_addr 1) 1) demo_mmu_one"

definition demo_mmu :: mmu_t where
  "demo_mmu = state_of (mmu_alloc_page demo_mmu_two (page_addr 2) 2) demo_mmu_two"

lemma demo_mm_facts: "mm_inv demo_mm" "mm_frames demo_mm = 2" "mm_psize demo_mm = 4"
  using mm_init_inv [of 2 4 2 blank_mm] by (simp_all add: demo_mm_def mm_init_def)

lemma demo_mmu_new_facts:
  "mmu_inv demo_mmu_new" "mmu_lock demo_mmu_new = rw_free" "m_bk demo_mmu_new = Map.empty"
  "m_abs demo_mmu_new = Map.empty" "m_spare demo_mmu_new = [0, 1]" "mmu_mem demo_mmu_new = demo_mm"
  "mmu_disk demo_mmu_new = demo_disk" "mmu_stats demo_mmu_new = \<lparr>st_nrefs = 0, st_hits = 0\<rparr>"
proof -
  have "0 < d_page_size demo_disk" "0 < mm_page_size demo_mm"
    using demo_disk_facts(2) demo_mm_facts(1) by (simp_all add: disk_inv_def mm_inv_def)
  then have "mm_page_size demo_mm = d_page_size demo_disk"
    using demo_disk_facts(7) demo_mm_facts(3) by linarith
  then obtain m where m: "mmu_init True True (\<lambda>_. False) 0 blank_mmu demo_mm demo_disk 3 = Inr (ecSuccess, m)"
      "mmu_inv m" "mmu_lock m = rw_free" "m_bk m = Map.empty" "m_abs m = Map.empty"
      "m_spare m = [0..<mm_frames demo_mm]" "mmu_mem m = demo_mm" "mmu_disk m = demo_disk"
      "mmu_stats m = \<lparr>st_nrefs = 0, st_hits = 0\<rparr>"
    using mmu_init_ok [OF demo_mm_facts(1) demo_disk_facts(2), of "\<lambda>_. False" blank_mmu 3] by auto
  have "demo_mmu_new = m" using m(1) by (simp add: demo_mmu_new_def)
  with m(2-) show "mmu_inv demo_mmu_new" "mmu_lock demo_mmu_new = rw_free" "m_bk demo_mmu_new = Map.empty"
    "m_abs demo_mmu_new = Map.empty" "m_spare demo_mmu_new = [0, 1]" "mmu_mem demo_mmu_new = demo_mm"
    "mmu_disk demo_mmu_new = demo_disk" "mmu_stats demo_mmu_new = \<lparr>st_nrefs = 0, st_hits = 0\<rparr>"
    unfolding demo_mm_facts(2) by (simp_all add: numeral_2_eq_2)
qed

text \<open>Allocating the next page of the demo.\<close>

lemma demo_alloc_step:
  assumes "mmu_inv m" "mmu_lock m = rw_free" "m_bk m (0, page) = None" "nat p < 3" "0 \<le> p" "p \<notin> ran (m_bk m)"
    and "mmu_disk m = demo_disk"
  shows "mmu_alloc_page m (page_addr page) p = Inr (ecSuccess, state_of (mmu_alloc_page m (page_addr page) p) m)"
    "mmu_inv (state_of (mmu_alloc_page m (page_addr page) p) m)"
    "mmu_lock (state_of (mmu_alloc_page m (page_addr page) p) m) = rw_free"
    "m_bk (state_of (mmu_alloc_page m (page_addr page) p) m) = (m_bk m)((0, page) \<mapsto> p)"
    "m_abs (state_of (mmu_alloc_page m (page_addr page) p) m) =
       (case m_spare m of [] \<Rightarrow> m_abs m | f # F \<Rightarrow> (m_abs m)((0, page) \<mapsto> f))"
    "m_spare (state_of (mmu_alloc_page m (page_addr page) p) m) = tl (m_spare m)"
    "mmu_disk (state_of (mmu_alloc_page m (page_addr page) p) m) = demo_disk"
    "mmu_mem (state_of (mmu_alloc_page m (page_addr page) p) m) = mmu_mem m"
    "mmu_stats (state_of (mmu_alloc_page m (page_addr page) p) m) = mmu_stats m"
proof -
  have "disk_live (mmu_disk m) (nat p)" using assms(4,7) demo_disk_facts(8) by simp
  then obtain m' where m': "mmu_alloc_page m (page_addr page) p = Inr (ecSuccess, m')" "mmu_inv m'"
      "mmu_lock m' = rw_free" "m_bk m' = (m_bk m)((0, page) \<mapsto> p)"
      "m_abs m' = (case m_spare m of [] \<Rightarrow> m_abs m | f # F \<Rightarrow> (m_abs m)((0, page) \<mapsto> f))"
      "m_spare m' = tl (m_spare m)" "mmu_disk m' = mmu_disk m" "mmu_mem m' = mmu_mem m"
      "mmu_stats m' = mmu_stats m"
    using mmu_alloc_page_ok [OF assms(1,2), of "page_addr page" p, unfolded vkey_page_addr] assms(3,5,6)
    by auto
  have "state_of (mmu_alloc_page m (page_addr page) p) m = m'" using m'(1) by simp
  then show "mmu_alloc_page m (page_addr page) p = Inr (ecSuccess, state_of (mmu_alloc_page m (page_addr page) p) m)"
    "mmu_inv (state_of (mmu_alloc_page m (page_addr page) p) m)"
    "mmu_lock (state_of (mmu_alloc_page m (page_addr page) p) m) = rw_free"
    "m_bk (state_of (mmu_alloc_page m (page_addr page) p) m) = (m_bk m)((0, page) \<mapsto> p)"
    "m_abs (state_of (mmu_alloc_page m (page_addr page) p) m) =
       (case m_spare m of [] \<Rightarrow> m_abs m | f # F \<Rightarrow> (m_abs m)((0, page) \<mapsto> f))"
    "m_spare (state_of (mmu_alloc_page m (page_addr page) p) m) = tl (m_spare m)"
    "mmu_disk (state_of (mmu_alloc_page m (page_addr page) p) m) = demo_disk"
    "mmu_mem (state_of (mmu_alloc_page m (page_addr page) p) m) = mmu_mem m"
    "mmu_stats (state_of (mmu_alloc_page m (page_addr page) p) m) = mmu_stats m"
    using m' assms(7) by simp_all
qed

lemma demo_mmu_one_facts:
  "mmu_inv demo_mmu_one" "mmu_lock demo_mmu_one = rw_free" "m_bk demo_mmu_one = [(0, 0) \<mapsto> 0]"
  "m_abs demo_mmu_one = [(0, 0) \<mapsto> 0]" "m_spare demo_mmu_one = [1]" "mmu_disk demo_mmu_one = demo_disk"
  "mmu_mem demo_mmu_one = demo_mm" "mmu_stats demo_mmu_one = \<lparr>st_nrefs = 0, st_hits = 0\<rparr>"
  using demo_alloc_step [OF demo_mmu_new_facts(1,2), of 0 0] demo_mmu_new_facts by (simp_all add: demo_mmu_one_def)

lemma demo_mmu_two_facts:
  "mmu_inv demo_mmu_two" "mmu_lock demo_mmu_two = rw_free" "m_bk demo_mmu_two = [(0, 0) \<mapsto> 0, (0, 1) \<mapsto> 1]"
  "m_abs demo_mmu_two = [(0, 0) \<mapsto> 0, (0, 1) \<mapsto> 1]" "m_spare demo_mmu_two = []" "mmu_disk demo_mmu_two = demo_disk"
  "mmu_mem demo_mmu_two = demo_mm" "mmu_stats demo_mmu_two = \<lparr>st_nrefs = 0, st_hits = 0\<rparr>"
  using demo_alloc_step [OF demo_mmu_one_facts(1,2), of 1 1] demo_mmu_one_facts by (simp_all add: demo_mmu_two_def)

lemma demo_mmu_facts:
  "mmu_inv demo_mmu" "mmu_lock demo_mmu = rw_free"
  "m_bk demo_mmu = [(0, 0) \<mapsto> 0, (0, 1) \<mapsto> 1, (0, 2) \<mapsto> 2]"
  "m_abs demo_mmu = [(0, 0) \<mapsto> 0, (0, 1) \<mapsto> 1]" "m_spare demo_mmu = []" "mmu_disk demo_mmu = demo_disk"
  "mmu_mem demo_mmu = demo_mm" "mmu_stats demo_mmu = \<lparr>st_nrefs = 0, st_hits = 0\<rparr>"
  using demo_alloc_step [OF demo_mmu_two_facts(1,2), of 2 2] demo_mmu_two_facts by (simp_all add: demo_mmu_def)

text \<open>A page replacement manager that waits for commands.\<close>

definition demo_prm :: prm_t where
  "demo_prm = (case prm_init (\<lambda>_. False) 0 blank_prm of Inl _ \<Rightarrow> blank_prm | Inr (_, p) \<Rightarrow> p)"

lemma demo_prm_idle: "prm_idle demo_prm"
proof -
  obtain q :: "nat queue_t" where "queue_init (\<lambda>_. False) = Inr q" "queue_inv q" "queue_list q = []"
    using queue_init_ok [of "\<lambda>_. False"] by auto
  then show ?thesis by (simp add: demo_prm_def prm_init_def posix_errcode_def prm_idle_def)
qed

lemma demo_evictable:
  "evictable (m_pd demo_mmu) (vkey (page_addr 2)) 0" "0 < mm_frames (mmu_mem demo_mmu)"
  using full_evictable [OF demo_mmu_facts(1) _ demo_mmu_facts(5), of "vkey (page_addr 2)"]
  by (simp_all add: demo_mmu_facts(4))

text \<open>The three pages as a virtual memory with idle threads, before the first access.\<close>

definition demo_small :: vm_t where
  "demo_small = (sys_vm demo_two)\<lparr>vm_mmu := demo_mmu, vm_prm := demo_prm\<rparr>"

lemma demo_small_facts:
  "vm_inv demo_small" "vm_psize demo_small = 4" "\<exists>pg. page_of (vm_mmu demo_small) (vkey (page_addr 2)) = Some pg"
  "mmu_stats (vm_mmu demo_small) = \<lparr>st_nrefs = 0, st_hits = 0\<rparr>"
  using demo_two_facts(2) demo_mmu_facts demo_prm_idle demo_mm_facts(3)
  by (simp_all add: demo_small_def whole page_of_def)

end
