(* ===== verification/Threads.thy ===== *)
theory Threads
  imports Vmem
begin

text \<open>
  Several processes that use the virtual memory at the same time. An access is no longer one step. A
  thread takes the lock of the MMU for reading and tests for the page; when the page is there, it keeps
  the lock until it has copied the bytes, and others may hold the lock for reading meanwhile. When the
  page is not there, it gives the lock away, puts a command into the queue of the page replacement
  manager, waits, and tests again. The ageing comes after the lock was released. Between any two of
  these turns the other threads and the thread of the manager run, in any order; the manager has to
  wait while somebody holds the lock.
\<close>

subsection \<open>The turns of a thread\<close>

text \<open>Where a thread is in \<^verbatim>\<open>mmu_read\<close> or \<^verbatim>\<open>mmu_write\<close>: outside, after a test that found no page, in
  \<^verbatim>\<open>wait_for_completion\<close> for the command \<open>c\<close>, with the page pinned by the lock, in front of the ageing.\<close>

datatype phase = Idle | Missed request | Waiting request nat | Pinned request | Ageing

record threads_t =
  th_vm :: vm_t
  th_phase :: "procid_t \<Rightarrow> phase"

text \<open>A turn: the access that it completes, with its answer, and the phase and state after it.\<close>

type_synonym turn = "((request \<times> byte list) option \<times> phase \<times> vm_t) res"

definition request_fits :: "vm_t \<Rightarrow> request \<Rightarrow> unit res" where
  "request_fits vm r = (case r of Rd a n \<Rightarrow> read_fits vm a n | Wr a n buf \<Rightarrow> write_fits vm a n)"

definition finish_access :: "vm_t \<Rightarrow> request \<Rightarrow> turn" where
  "finish_access vm r = (case r of
       Rd a n \<Rightarrow> rbind (read_pinned vm a n) (\<lambda>(_, buf, vm1). Inr (Some (r, buf), Ageing, vm1))
     | Wr a n buf \<Rightarrow> rbind (write_pinned vm a n buf) (\<lambda>(_, vm1). Inr (Some (r, []), Ageing, vm1)))"

definition begin_access :: "vm_t \<Rightarrow> request \<Rightarrow> turn" where
  "begin_access vm r =
     rbind (request_fits vm r) (\<lambda>_.
     rbind (mmu_acquire_read (vm_mmu vm)) (\<lambda>mmu1.
     rbind (ipt_has_translation (mmu_mem_ipt mmu1) (req_addr r)) (\<lambda>b.
     rbind (pin_count b mmu1) (\<lambda>mmu2.
     if b then Inr (None, Pinned r, vm\<lparr>vm_mmu := mmu2\<rparr>)
     else rbind (mmu_release_read mmu2) (\<lambda>mmu3. Inr (None, Missed r, vm\<lparr>vm_mmu := mmu3\<rparr>))))))"

definition ask_manager :: "vm_t \<Rightarrow> request \<Rightarrow> turn" where
  "ask_manager vm r =
     rbind (fault_push (vm_prm vm) (req_addr r)) (\<lambda>(c, p). Inr (None, Waiting r c, vm\<lparr>vm_prm := p\<rparr>))"

text \<open>A thread that wakes up too early goes on waiting; one whose page has gone again asks again.\<close>

definition resume_access :: "vm_t \<Rightarrow> request \<Rightarrow> nat \<Rightarrow> turn" where
  "resume_access vm r c =
     rbind (pthread_mutex_lock (prm_mutex (vm_prm vm))) (\<lambda>(_, pm).
     rbind (cmd_load (vm_prm vm) c) (\<lambda>cd.
     rbind (pthread_mutex_unlock pm) (\<lambda>(_, pm').
     let p1 = (vm_prm vm)\<lparr>prm_mutex := pm'\<rparr>
     in if \<not> cmd_done cd then Inr (None, Waiting r c, vm\<lparr>vm_prm := p1\<rparr>)
        else
          rbind (delete_prm_command p1 c) (\<lambda>p2.
          rbind (mmu_acquire_read (vm_mmu vm)) (\<lambda>mmu1.
          rbind (ipt_has_translation (mmu_mem_ipt mmu1) (req_addr r)) (\<lambda>b.
          let vm1 = vm\<lparr>vm_prm := p2, vm_mmu := mmu1\<rparr>
          in if b then Inr (None, Pinned r, vm1)
             else rbind (mmu_release_read mmu1) (\<lambda>mmu2. Inr (None, Missed r, vm1\<lparr>vm_mmu := mmu2\<rparr>))))))))"

fun thread_turn :: "phase \<Rightarrow> request \<Rightarrow> vm_t \<Rightarrow> turn" where
  "thread_turn Idle r vm = begin_access vm r"
| "thread_turn (Missed r') r vm = ask_manager vm r'"
| "thread_turn (Waiting r' c) r vm = resume_access vm r' c"
| "thread_turn (Pinned r') r vm = finish_access vm r'"
| "thread_turn Ageing r vm = rbind (mmu_age_pages_if_needed vm) (\<lambda>(_, vm1). Inr (None, Idle, vm1))"

text \<open>The manager has its turn when there is a command for it. While a reader holds the lock the turn is
  the fault \<open>Deadlock\<close> of \<open>mmu_acquire_write\<close>: it does not happen before the lock is free.\<close>

definition manager_turn :: "vm_t \<Rightarrow> vm_t res" where
  "manager_turn vm =
     rbind (prm_thread_func (vm_mmu vm) (vm_prm vm)) (\<lambda>(_, mmu1, p). Inr (vm\<lparr>vm_mmu := mmu1, vm_prm := p\<rparr>))"

text \<open>
  One turn of somebody. A process uses the pages of its own address space; \<open>K\<close> are the pages that
  are allocated, \<open>ps\<close> is the page size.
\<close>

definition own_request :: "nat \<Rightarrow> vkey set \<Rightarrow> procid_t \<Rightarrow> request \<Rightarrow> bool" where
  "own_request ps K t r \<longleftrightarrow> va_pid (req_addr r) = t \<and> request_ok ps K r"

definition after_turn :: "threads_t \<Rightarrow> procid_t \<Rightarrow> phase \<Rightarrow> vm_t \<Rightarrow> threads_t" where
  "after_turn s t ph vm = s\<lparr>th_vm := vm, th_phase := (th_phase s)(t := ph)\<rparr>"

inductive th_step :: "nat \<Rightarrow> vkey set \<Rightarrow> (request \<times> byte list) option \<Rightarrow> threads_t \<Rightarrow> threads_t \<Rightarrow> bool" for ps K where
  thread: "own_request ps K t r \<Longrightarrow> thread_turn (th_phase s t) r (th_vm s) = Inr (l, ph, vm) \<Longrightarrow>
           th_step ps K l s (after_turn s t ph vm)"
| manager: "queue_list (prm_queue (vm_prm (th_vm s))) \<noteq> [] \<Longrightarrow> manager_turn (th_vm s) = Inr vm \<Longrightarrow>
            th_step ps K None s (s\<lparr>th_vm := vm\<rparr>)"

inductive_cases th_stepE: "th_step ps K l s s'"

text \<open>Any number of turns, with the accesses that they complete, in this order.\<close>

inductive th_run :: "nat \<Rightarrow> vkey set \<Rightarrow> threads_t \<Rightarrow> (request \<times> byte list) list \<Rightarrow> threads_t \<Rightarrow> bool" for ps K where
  stop: "th_run ps K s [] s"
| go: "th_step ps K l s s1 \<Longrightarrow> th_run ps K s1 ls s2 \<Longrightarrow> th_run ps K s (case l of None \<Rightarrow> ls | Some x \<Rightarrow> x # ls) s2"

subsection \<open>The invariant\<close>

definition prm_ready :: "prm_t \<Rightarrow> bool" where
  "prm_ready p \<longleftrightarrow> queue_inv (prm_queue p) \<and> \<not> prm_mutex p \<and> \<not> prm_queue_mutex p \<and> prm_running p \<and>
     (\<forall>i. \<not> prm_oom p i)"

text \<open>A command is done or it is in the queue and its page is not in memory.\<close>

definition cmd_pending :: "mmu_t \<Rightarrow> prm_t \<Rightarrow> virt_addr_t \<Rightarrow> nat \<Rightarrow> bool" where
  "cmd_pending m p a c \<longleftrightarrow> (\<exists>cd. prm_cmds p c = Some cd \<and> cmd_addr cd = a \<and>
     (if c \<in> set (queue_list (prm_queue p)) then \<not> cmd_done cd \<and> m_abs m (vkey a) = None else cmd_done cd))"

fun phase_ok :: "nat \<Rightarrow> vkey set \<Rightarrow> mmu_t \<Rightarrow> prm_t \<Rightarrow> procid_t \<Rightarrow> phase \<Rightarrow> bool" where
  "phase_ok ps K m p t (Missed r) \<longleftrightarrow> own_request ps K t r \<and> m_abs m (vkey (req_addr r)) = None"
| "phase_ok ps K m p t (Waiting r c) \<longleftrightarrow> own_request ps K t r \<and> c < prm_brk p \<and> cmd_pending m p (req_addr r) c"
| "phase_ok ps K m p t (Pinned r) \<longleftrightarrow> own_request ps K t r \<and> m_abs m (vkey (req_addr r)) \<noteq> None"
| "phase_ok ps K m p t ph \<longleftrightarrow> True"

definition waiters_ok :: "(procid_t \<Rightarrow> phase) \<Rightarrow> nat list \<Rightarrow> bool" where
  "waiters_ok ph cs \<longleftrightarrow> distinct cs \<and> (\<forall>c \<in> set cs. \<exists>t r. ph t = Waiting r c) \<and>
     (\<forall>t t' r r' c. ph t = Waiting r c \<longrightarrow> ph t' = Waiting r' c \<longrightarrow> t = t')"

text \<open>The lock counts the threads that have a page pinned.\<close>

primrec pinned :: "phase \<Rightarrow> bool" where
  "pinned Idle = False"
| "pinned (Missed r) = False"
| "pinned (Waiting r c) = False"
| "pinned (Pinned r) = True"
| "pinned Ageing = False"

definition pins :: "phase \<Rightarrow> nat" where
  "pins ph = (if pinned ph then 1 else 0)"

definition pinners :: "(procid_t \<Rightarrow> phase) \<Rightarrow> procid_t set" where
  "pinners ph = {t. pinned (ph t)}"

text \<open>Nobody holds another lock between two turns; \<open>A\<close> is what is known of the memory that the threads see.\<close>

definition calm :: "nat \<Rightarrow> vkey set \<Rightarrow> (vkey \<rightharpoonup> byte list) \<Rightarrow> vm_t \<Rightarrow> bool" where
  "calm ps K A vm \<longleftrightarrow> mmu_inv (vm_mmu vm) \<and> ag_idle (vm_aging vm) \<and>
     prm_ready (vm_prm vm) \<and> vm_psize vm = ps \<and> K \<subseteq> dom (vm_bk vm) \<and> A \<subseteq>\<^sub>m vm_view vm"

definition th_inv :: "nat \<Rightarrow> vkey set \<Rightarrow> (vkey \<rightharpoonup> byte list) \<Rightarrow> threads_t \<Rightarrow> bool" where
  "th_inv ps K A s \<longleftrightarrow> calm ps K A (th_vm s) \<and> mmu_lock (vm_mmu (th_vm s)) = rw_shared (card (pinners (th_phase s))) \<and>
     (\<forall>t. phase_ok ps K (vm_mmu (th_vm s)) (vm_prm (th_vm s)) t (th_phase s t)) \<and>
     waiters_ok (th_phase s) (queue_list (prm_queue (vm_prm (th_vm s))))"

lemma th_start:
  assumes "vm_inv vm" "K \<subseteq> dom (vm_bk vm)" "A \<subseteq>\<^sub>m vm_view vm"
  shows "th_inv (vm_psize vm) K A \<lparr>th_vm = vm, th_phase = \<lambda>_. Idle\<rparr>"
  using assms
  by (simp add: th_inv_def calm_def vm_inv_def prm_ready_def prm_idle_def waiters_ok_def pinners_def rw_shared_0)

text \<open>What another thread does leaves a phase as it is, when it brings in no page of this one.\<close>

lemma phase_ok_frame:
  assumes "phase_ok ps K m p t ph"
    and "\<And>pg. m_abs m (t, pg) = None \<Longrightarrow> m_abs m' (t, pg) = None"
    and "\<And>r. ph = Pinned r \<Longrightarrow> m_abs m' = m_abs m"
    and "\<And>r c. ph = Waiting r c \<Longrightarrow> prm_cmds p' c = prm_cmds p c \<and>
           (c \<in> set (queue_list (prm_queue p')) \<longleftrightarrow> c \<in> set (queue_list (prm_queue p)))"
    and "prm_brk p \<le> prm_brk p'"
  shows "phase_ok ps K m' p' t ph"
proof (cases ph)
  case (Missed r)
  then show ?thesis using assms(1,2) by (auto simp: own_request_def vkey_def)
next
  case (Waiting r c)
  have "cmd_pending m' p' (req_addr r) c"
    using assms(1,2) assms(4) [OF Waiting] Waiting by (auto simp: cmd_pending_def own_request_def vkey_def split: if_splits)
  then show ?thesis using assms(1,5) Waiting by simp
qed (use assms(1,3) in simp_all)

lemma pinned_iff: "pinned ph \<longleftrightarrow> (\<exists>r. ph = Pinned r)"
  by (cases ph) simp_all

text \<open>How the lock follows the phases: \<open>n\<close> others have a page pinned.\<close>

lemma pinners_upd:
  obtains n where "card (pinners ph) = n + pins (ph t)" "\<And>new. card (pinners (ph(t := new))) = n + pins new"
proof -
  have "pinners (ph(t := new)) = (if pinned new then insert t (pinners ph - {t}) else pinners ph - {t})" for new
    by (auto simp: pinners_def)
  then have upd: "card (pinners (ph(t := new))) = card (pinners ph - {t}) + pins new" for new
    by (simp add: pins_def del: insert_Diff_single)
  from upd [of "ph t"] have "card (pinners ph) = card (pinners ph - {t}) + pins (ph t)" by simp
  with upd show ?thesis using that by blast
qed

lemma pins_simps [simp]: "pins (Pinned r) = 1" "pins Idle = 0" "pins (Missed r) = 0" "pins (Waiting r c) = 0" "pins Ageing = 0"
  by (simp_all add: pins_def)

end
