(* ===== verification/Threads_Proofs.thy ===== *)
theory Threads_Proofs
  imports Threads
begin

text \<open>
  Whatever the order of the turns, no turn faults, every access gives an answer of one plain memory,
  as if the accesses had been done one after the other, and no thread waits for ever for a command
  that the manager does not have.
\<close>

subsection \<open>Finishing an access\<close>

lemma mapped_page:
  assumes "A \<subseteq>\<^sub>m vmem m" "A k = Some pg" "m_abs m k = Some f"
  shows "mm_page (mmu_mem m) f = pg"
proof -
  have "vmem m k = Some pg" using assms(1,2) by (metis domI map_le_def)
  then have "page_of m k = Some pg" by (rule vmem_page_of)
  then show ?thesis using assms(3) by (auto simp: page_of_def split: option.splits)
qed

lemma finish_access_ok:
  assumes m: "mmu_inv (vm_mmu vm)" "mmu_lock (vm_mmu vm) = rw_shared (Suc k)"
    and f: "m_abs (vm_mmu vm) (vkey (req_addr r)) = Some f"
    and r: "request_ok (vm_psize vm) K r" and A: "A \<subseteq>\<^sub>m vm_view vm"
  shows "\<exists>ans m' A'. finish_access vm r = Inr (Some (r, ans), Ageing, vm\<lparr>vm_mmu := m'\<rparr>) \<and> mmu_inv m' \<and>
           mmu_lock m' = rw_shared k \<and> m_abs m' = m_abs (vm_mmu vm) \<and> m_bk m' = vm_bk vm \<and>
           mm_psize (mmu_mem m') = vm_psize vm \<and> plain_step (vm_psize vm) r ans A A' \<and> A' \<subseteq>\<^sub>m vmem m'"
proof -
  define pg where "pg = mm_page (mmu_mem (vm_mmu vm)) f"
  have len: "length pg = vm_psize vm"
    unfolding pg_def using mp.page_length [OF mmu_invD(1) [OF m(1)] mapped_frame(1) [OF m(1) f]] .
  have known: "case A (vkey (req_addr r)) of None \<Rightarrow> True | Some pg' \<Rightarrow> pg = pg'"
    using mapped_page [OF A _ f] by (simp add: pg_def split: option.split)
  show ?thesis
  proof (cases r)
    case (Rd a n)
    then have fit: "unat (va_offset a) + unat n \<le> vm_psize vm" using r by simp
    obtain t where t: "read_pinned vm a n = Inr (ecSuccess, page_get pg a n,
          vm\<lparr>vm_mmu := (vm_mmu vm)\<lparr>mmu_mem_ipt := t, mmu_lock := rw_shared k\<rparr>\<rparr>)"
        "mmu_inv ((vm_mmu vm)\<lparr>mmu_mem_ipt := t, mmu_lock := rw_shared k\<rparr>)"
        "ipt_only (vm_mmu vm) ((vm_mmu vm)\<lparr>mmu_mem_ipt := t\<rparr>)"
        "vmem ((vm_mmu vm)\<lparr>mmu_mem_ipt := t, mmu_lock := rw_shared k\<rparr>) = vm_view vm"
      using read_pinned_shared [OF m, of a f n] f fit Rd by (auto simp: pg_def page_get_def)
    have "finish_access vm r = Inr (Some (r, page_get pg a n), Ageing,
        vm\<lparr>vm_mmu := (vm_mmu vm)\<lparr>mmu_mem_ipt := t, mmu_lock := rw_shared k\<rparr>\<rparr>)"
      using t(1) by (simp add: finish_access_def Rd)
    moreover have "plain_step (vm_psize vm) r (page_get pg a n) A A"
      using known len fit by (auto simp: Rd page_get_def split: option.splits)
    ultimately show ?thesis using t(2,4) ipt_only_facts(3,4) [OF t(3)] A
      by (intro exI [of _ "page_get pg a n"] exI [of _ "(vm_mmu vm)\<lparr>mmu_mem_ipt := t, mmu_lock := rw_shared k\<rparr>"]
          exI [of _ A]) (simp add: m_bk_def)
  next
    case (Wr a n buf)
    let ?pg = "page_put pg a n buf" let ?A = "A(vkey a \<mapsto> page_put pg a n buf)"
    have fit: "unat (va_offset a) + unat n \<le> vm_psize vm" "unat n \<le> length buf" using r Wr by simp_all
    obtain t mem where t: "write_pinned vm a n buf =
          Inr (ecSuccess, vm\<lparr>vm_mmu := (vm_mmu vm)\<lparr>mmu_mem_ipt := t, mmu_mem := mem, mmu_lock := rw_shared k\<rparr>\<rparr>)"
        "mmu_inv ((vm_mmu vm)\<lparr>mmu_mem_ipt := t, mmu_mem := mem, mmu_lock := rw_shared k\<rparr>)"
        "mm_page_size mem = mm_page_size (mmu_mem (vm_mmu vm))"
        "ipt_only (vm_mmu vm) ((vm_mmu vm)\<lparr>mmu_mem_ipt := t\<rparr>)"
        "(vm_view vm)(vkey a \<mapsto> ?pg) \<subseteq>\<^sub>m vmem ((vm_mmu vm)\<lparr>mmu_mem_ipt := t, mmu_mem := mem, mmu_lock := rw_shared k\<rparr>)"
      using write_pinned_shared [OF m, of a f n buf] f fit Wr by (auto simp: pg_def page_put_def)
    have "?A \<subseteq>\<^sub>m (vm_view vm)(vkey a \<mapsto> ?pg)" using A by (simp add: map_le_def)
    then have le: "?A \<subseteq>\<^sub>m vmem ((vm_mmu vm)\<lparr>mmu_mem_ipt := t, mmu_mem := mem, mmu_lock := rw_shared k\<rparr>)"
      using t(5) by (rule map_le_trans)
    have "finish_access vm r = Inr (Some (r, []), Ageing,
        vm\<lparr>vm_mmu := (vm_mmu vm)\<lparr>mmu_mem_ipt := t, mmu_mem := mem, mmu_lock := rw_shared k\<rparr>\<rparr>)"
      using t(1) by (simp add: finish_access_def Wr)
    moreover have "plain_step (vm_psize vm) r [] A ?A" using known len by (auto simp: Wr)
    ultimately show ?thesis using t(2,3) ipt_only_facts(3,4) [OF t(4)] le
      by (intro exI [of _ "[]"] exI [of _ "(vm_mmu vm)\<lparr>mmu_mem_ipt := t, mmu_mem := mem, mmu_lock := rw_shared k\<rparr>"]
          exI [of _ ?A]) (simp add: m_bk_def)
  qed
qed

subsection \<open>One turn\<close>

lemma pin_count_ok:
  "mmu_inv m \<Longrightarrow> pin_count b m = Inr (m\<lparr>mmu_stats := count_ref b (mmu_stats m), mmu_stats_lock := rw_free\<rparr>)"
  using mmu_invD(9) by (simp add: pin_count_def count_ref_def Let_def)

text \<open>What a turn of thread \<open>t\<close> leaves alone: it brings no page in, and it touches no command but its own.\<close>

definition turn_ok :: "nat \<Rightarrow> vkey set \<Rightarrow> (vkey \<rightharpoonup> byte list) \<Rightarrow> procid_t \<Rightarrow> phase \<Rightarrow> vm_t \<Rightarrow>
    (request \<times> byte list) option \<Rightarrow> phase \<Rightarrow> vm_t \<Rightarrow> (vkey \<rightharpoonup> byte list) \<Rightarrow> bool" where
  "turn_ok ps K A t old vm l ph vm' A' \<longleftrightarrow> calm ps K A' vm' \<and> m_abs (vm_mmu vm') = m_abs (vm_mmu vm) \<and>
     (\<forall>n. mmu_lock (vm_mmu vm) = rw_shared (n + pins old) \<longrightarrow> mmu_lock (vm_mmu vm') = rw_shared (n + pins ph)) \<and>
     (case l of None \<Rightarrow> A' = A | Some (r, ans) \<Rightarrow> own_request ps K t r \<and> plain_step ps r ans A A') \<and>
     prm_brk (vm_prm vm) \<le> prm_brk (vm_prm vm')"

text \<open>How a test for the page ends: with the page pinned, or without it.\<close>

definition outcome :: "request \<Rightarrow> phase \<Rightarrow> mmu_t \<Rightarrow> bool" where
  "outcome r ph m \<longleftrightarrow> ph = (if m_abs m (vkey (req_addr r)) \<noteq> None then Pinned r else Missed r)"

text \<open>The test, by a thread that has just taken the lock.\<close>

lemma locked_turn:
  assumes vm: "calm ps K A vm" "mmu_lock (vm_mmu vm) = rw_shared n" and old: "pins old = 0"
    and m: "mmu_inv m" "mmu_lock m = rw_shared (Suc n)" "m_abs m = m_abs (vm_mmu vm)" "vmem m = vm_view vm" "mm_psize (mmu_mem m) = ps"
      "m_bk m = vm_bk vm"
    and p: "prm_ready p" "prm_brk p = prm_brk (vm_prm vm)"
  shows "\<exists>ph m'. (if m_abs m (vkey (req_addr r)) \<noteq> None then Inr (None, Pinned r, vm\<lparr>vm_prm := p, vm_mmu := m\<rparr>)
             else rbind (mmu_release_read m) (\<lambda>m2. Inr (None, Missed r, vm\<lparr>vm_prm := p, vm_mmu := m2\<rparr>))) =
           Inr (None, ph, vm\<lparr>vm_prm := p, vm_mmu := m'\<rparr>) \<and> turn_ok ps K A t old vm None ph (vm\<lparr>vm_prm := p, vm_mmu := m'\<rparr>) A \<and>
           outcome r ph m'"
proof (cases "m_abs m (vkey (req_addr r))")
  case None
  then show ?thesis
    using vm m p old by (intro exI [of _ "Missed r"] exI [of _ "m\<lparr>mmu_lock := rw_shared n\<rparr>"])
      (simp add: mmu_shared_steps turn_ok_def calm_def outcome_def)
next
  case (Some f)
  then show ?thesis using vm m p old
    by (intro exI [of _ "Pinned r"] exI [of _ m]) (simp add: turn_ok_def calm_def outcome_def)
qed

lemma finish_turn_ok:
  assumes vm: "calm ps K A vm" "mmu_lock (vm_mmu vm) = rw_shared (Suc n)" and r: "own_request ps K t r"
    and pin: "m_abs (vm_mmu vm) (vkey (req_addr r)) \<noteq> None"
  shows "\<exists>ans m' A'. finish_access vm r = Inr (Some (r, ans), Ageing, vm\<lparr>vm_mmu := m'\<rparr>) \<and>
           turn_ok ps K A t (Pinned r) vm (Some (r, ans)) Ageing (vm\<lparr>vm_mmu := m'\<rparr>) A'"
proof -
  from pin obtain f where f: "m_abs (vm_mmu vm) (vkey (req_addr r)) = Some f" by blast
  have V: "mmu_inv (vm_mmu vm)" "A \<subseteq>\<^sub>m vm_view vm" "request_ok (vm_psize vm) K r"
    using vm(1) r by (simp_all add: calm_def own_request_def)
  obtain ans m' A' where "finish_access vm r = Inr (Some (r, ans), Ageing, vm\<lparr>vm_mmu := m'\<rparr>)"
      "mmu_inv m'" "mmu_lock m' = rw_shared n" "m_abs m' = m_abs (vm_mmu vm)" "m_bk m' = vm_bk vm"
      "mm_psize (mmu_mem m') = vm_psize vm" "plain_step (vm_psize vm) r ans A A'" "A' \<subseteq>\<^sub>m vmem m'"
    using finish_access_ok [OF V(1) vm(2) f V(3,2)] by blast
  then show ?thesis using vm r
    by (intro exI [of _ ans] exI [of _ m'] exI [of _ A']) (simp add: turn_ok_def calm_def)
qed

lemma begin_access_ok:
  assumes vm: "calm ps K A vm" "mmu_lock (vm_mmu vm) = rw_shared n" and r: "own_request ps K t r"
  shows "\<exists>ph m'. begin_access vm r = Inr (None, ph, vm\<lparr>vm_mmu := m'\<rparr>) \<and>
           turn_ok ps K A t Idle vm None ph (vm\<lparr>vm_mmu := m'\<rparr>) A \<and> outcome r ph m'"
proof -
  let ?m = "vm_mmu vm" let ?b = "m_abs ?m (vkey (req_addr r)) \<noteq> None"
  let ?m1 = "?m\<lparr>mmu_lock := rw_shared (Suc n)\<rparr>"
  let ?m2 = "?m1\<lparr>mmu_stats := count_ref ?b (mmu_stats ?m), mmu_stats_lock := rw_free\<rparr>"
  have V: "mmu_inv ?m" "vm_psize vm = ps" using vm by (simp_all add: calm_def)
  have "request_fits vm r = Inr ()"
    using r V(2) read_fits_ok [OF V(1)] write_fits_ok [OF V(1)]
    by (cases r) (simp_all add: request_fits_def own_request_def)
  moreover have "vmem ?m2 = vm_view vm" "m_bk ?m2 = m_bk ?m" "mmu_inv ?m2"
    using stats_indep [where m = ?m1] V(1) by simp_all
  moreover obtain ph m' where "(if ?b then Inr (None, Pinned r, vm\<lparr>vm_prm := vm_prm vm, vm_mmu := ?m2\<rparr>)
             else rbind (mmu_release_read ?m2) (\<lambda>m2. Inr (None, Missed r, vm\<lparr>vm_prm := vm_prm vm, vm_mmu := m2\<rparr>))) =
           Inr (None, ph, vm\<lparr>vm_mmu := m'\<rparr>)" "turn_ok ps K A t Idle vm None ph (vm\<lparr>vm_mmu := m'\<rparr>) A" "outcome r ph m'"
    using locked_turn [OF vm, of Idle ?m2 "vm_prm vm" r t] vm calculation(2,4) by (auto simp: calm_def)
  ultimately show ?thesis using V(1) vm(2)
    by (auto simp: begin_access_def mmu_shared_steps ipt_has_translation_inv mmu_invD(3) pin_count_ok)
qed

lemma ask_manager_ok:
  assumes vm: "calm ps K A vm"
  shows "\<exists>q. ask_manager vm r = Inr (None, Waiting r (prm_brk (vm_prm vm)), vm\<lparr>vm_prm := (vm_prm vm)\<lparr>prm_queue := q,
             prm_cmds := (prm_cmds (vm_prm vm))(prm_brk (vm_prm vm) \<mapsto> \<lparr>cmd_addr = req_addr r, cmd_done = False\<rparr>),
             prm_brk := Suc (prm_brk (vm_prm vm))\<rparr>\<rparr>) \<and>
           queue_inv q \<and> queue_list q = queue_list (prm_queue (vm_prm vm)) @ [prm_brk (vm_prm vm)]"
proof -
  let ?p = "vm_prm vm"
  have P: "queue_inv (prm_queue ?p)" "\<not> prm_queue_mutex ?p" "prm_running ?p" "\<And>i. \<not> prm_oom ?p i"
    using vm by (simp_all add: calm_def prm_ready_def)
  let ?p1 = "?p\<lparr>prm_cmds := (prm_cmds ?p)(prm_brk ?p \<mapsto> \<lparr>cmd_addr = req_addr r, cmd_done = False\<rparr>), prm_brk := Suc (prm_brk ?p)\<rparr>"
  obtain q where "push_command ?p1 (prm_brk ?p) = Inr (?p1\<lparr>prm_queue := q\<rparr>)" "queue_inv q"
      "queue_list q = queue_list (prm_queue ?p) @ [prm_brk ?p]"
    using push_command_ok [of ?p1 "prm_brk ?p"] P by auto
  then show ?thesis using P by (intro exI [of _ q]) (simp add: ask_manager_def fault_push_def new_prm_command_def)
qed

lemma mutex_was_free:
  assumes "\<not> prm_mutex p"
  shows "p\<lparr>prm_mutex := False\<rparr> = p" "p\<lparr>prm_mutex := False, prm_cmds := C\<rparr> = p\<lparr>prm_cmds := C\<rparr>"
  using assms by (cases p; simp)+

lemma resume_early:
  assumes "prm_cmds (vm_prm vm) c = Some cd" "\<not> cmd_done cd" "\<not> prm_mutex (vm_prm vm)"
  shows "resume_access vm r c = Inr (None, Waiting r c, vm)"
  using assms by (simp add: resume_access_def cmd_load_def mutex_was_free)

lemma resume_access_ok:
  assumes vm: "calm ps K A vm" "mmu_lock (vm_mmu vm) = rw_shared n"
    and c: "prm_cmds (vm_prm vm) c = Some cd" "cmd_done cd"
  defines "p \<equiv> (vm_prm vm)\<lparr>prm_cmds := (prm_cmds (vm_prm vm))(c := None)\<rparr>"
  shows "\<exists>ph m'. resume_access vm r c = Inr (None, ph, vm\<lparr>vm_prm := p, vm_mmu := m'\<rparr>) \<and>
           turn_ok ps K A t (Waiting r c) vm None ph (vm\<lparr>vm_prm := p, vm_mmu := m'\<rparr>) A \<and> outcome r ph m'"
proof -
  let ?m = "vm_mmu vm" let ?b = "m_abs ?m (vkey (req_addr r)) \<noteq> None"
  let ?m2 = "?m\<lparr>mmu_lock := rw_shared (Suc n)\<rparr>"
  have V: "mmu_inv ?m" "vm_psize vm = ps" "prm_ready p" "prm_brk p = prm_brk (vm_prm vm)" "\<not> prm_mutex (vm_prm vm)"
    using vm by (simp_all add: calm_def p_def prm_ready_def)
  obtain ph m' where "(if ?b then Inr (None, Pinned r, vm\<lparr>vm_prm := p, vm_mmu := ?m2\<rparr>)
             else rbind (mmu_release_read ?m2) (\<lambda>m2. Inr (None, Missed r, vm\<lparr>vm_prm := p, vm_mmu := m2\<rparr>))) =
           Inr (None, ph, vm\<lparr>vm_prm := p, vm_mmu := m'\<rparr>)" "turn_ok ps K A t (Waiting r c) vm None ph (vm\<lparr>vm_prm := p, vm_mmu := m'\<rparr>) A"
      "outcome r ph m'"
    using locked_turn [OF vm, of "Waiting r c" ?m2 p r t] V by auto
  then show ?thesis using V(1,5) vm(2) c
    by (auto simp: resume_access_def cmd_load_def delete_prm_command_def mutex_was_free mmu_shared_steps
        ipt_has_translation_inv mmu_invD(3) p_def Let_def)
qed

lemma age_turn_ok:
  assumes vm: "calm ps K A vm" "mmu_lock (vm_mmu vm) = rw_shared n"
  shows "\<exists>m' ag'. mmu_age_pages_if_needed vm = Inr (ecSuccess, vm\<lparr>vm_mmu := m', vm_aging := ag'\<rparr>) \<and>
           turn_ok ps K A t Ageing vm None Idle (vm\<lparr>vm_mmu := m', vm_aging := ag'\<rparr>) A"
proof -
  have V: "mmu_inv (vm_mmu vm)" "ag_idle (vm_aging vm)" using vm by (simp_all add: calm_def)
  obtain m' ag' where "mmu_age_pages_if_needed vm = Inr (ecSuccess, vm\<lparr>vm_mmu := m', vm_aging := ag'\<rparr>)" "ag_idle ag'"
      "ipt_only (vm_mmu vm) m'" "vmem m' = vm_view vm"
    using age_round [OF V(1) vm(2) V(2)] by blast
  then show ?thesis using ipt_only_facts [of "vm_mmu vm" m'] V vm
    by (intro exI [of _ m'] exI [of _ ag']) (simp add: turn_ok_def calm_def)
qed

subsection \<open>Every turn keeps the invariant\<close>

lemma th_invD:
  assumes "th_inv ps K A s"
  shows "calm ps K A (th_vm s)" "\<And>t. phase_ok ps K (vm_mmu (th_vm s)) (vm_prm (th_vm s)) t (th_phase s t)"
    "waiters_ok (th_phase s) (queue_list (prm_queue (vm_prm (th_vm s))))"
    "mmu_lock (vm_mmu (th_vm s)) = rw_shared (card (pinners (th_phase s)))"
  using assms by (simp_all add: th_inv_def)

lemma after_turn_inv:
  assumes inv: "th_inv ps K A s" and turn: "turn_ok ps K A t (th_phase s t) (th_vm s) l ph vm' A'"
    and own: "phase_ok ps K (vm_mmu vm') (vm_prm vm') t ph"
    and others: "\<And>t' r c. t' \<noteq> t \<Longrightarrow> th_phase s t' = Waiting r c \<Longrightarrow> prm_cmds (vm_prm vm') c = prm_cmds (vm_prm (th_vm s)) c \<and>
        (c \<in> set (queue_list (prm_queue (vm_prm vm'))) \<longleftrightarrow> c \<in> set (queue_list (prm_queue (vm_prm (th_vm s)))))"
    and wait: "waiters_ok ((th_phase s)(t := ph)) (queue_list (prm_queue (vm_prm vm')))"
  shows "th_inv ps K A' (after_turn s t ph vm')"
proof -
  have "phase_ok ps K (vm_mmu vm') (vm_prm vm') t' (th_phase s t')" if "t' \<noteq> t" for t'
    by (rule phase_ok_frame [OF th_invD(2) [OF inv]]) (use turn others [OF that] in \<open>simp_all add: turn_ok_def\<close>)
  moreover have "mmu_lock (vm_mmu vm') = rw_shared (card (pinners ((th_phase s)(t := ph))))"
  proof -
    obtain n where "card (pinners (th_phase s)) = n + pins (th_phase s t)" "card (pinners ((th_phase s)(t := ph))) = n + pins ph"
      using pinners_upd [of "th_phase s" t] by metis
    then show ?thesis using th_invD(4) [OF inv] turn by (simp add: turn_ok_def)
  qed
  ultimately show ?thesis using turn own wait by (simp add: th_inv_def after_turn_def turn_ok_def)
qed

lemma waiters_leave:
  assumes "waiters_ok ph cs" "\<And>r c. ph t = Waiting r c \<Longrightarrow> c \<notin> set cs" "\<And>r c. ph' \<noteq> Waiting r c"
  shows "waiters_ok (ph(t := ph')) cs"
  using assms unfolding waiters_ok_def by (metis fun_upd_apply)

lemma waiters_join:
  assumes w: "waiters_ok ph cs" and t: "\<And>r c. ph t \<noteq> Waiting r c" and c: "\<And>t' r'. ph t' \<noteq> Waiting r' c"
  shows "waiters_ok (ph(t := Waiting r c)) (cs @ [c])"
proof -
  have "\<exists>t' r'. (ph(t := Waiting r c)) t' = Waiting r' d" if d: "d \<in> set (cs @ [c])" for d
  proof (cases "d = c")
    case False
    then have "d \<in> set cs" using d by simp
    then obtain t' r' where d: "ph t' = Waiting r' d" using w by (metis waiters_ok_def)
    then have "t' \<noteq> t" using t by metis
    then show ?thesis using d by (intro exI [of _ t'] exI [of _ r']) simp
  qed auto
  moreover have "distinct (cs @ [c])" using w c unfolding waiters_ok_def by auto
  moreover have "t1 = t2" if "(ph(t := Waiting r c)) t1 = Waiting r1 d" "(ph(t := Waiting r c)) t2 = Waiting r2 d" for t1 t2 r1 r2 d
  proof (cases "d = c")
    case True
    then show ?thesis using that c by (metis fun_upd_other)
  next
    case False
    then have "ph t1 = Waiting r1 d" "ph t2 = Waiting r2 d" using that by (metis fun_upd_apply phase.inject(2))+
    then show ?thesis using w by (metis waiters_ok_def)
  qed
  ultimately show ?thesis unfolding waiters_ok_def by blast
qed

text \<open>A turn that ends neither before nor in a wait.\<close>

lemma plain_turn_inv:
  assumes inv: "th_inv ps K A s" and turn: "turn_ok ps K A t (th_phase s t) (th_vm s) l ph vm' A'"
    and own: "phase_ok ps K (vm_mmu vm') (vm_prm vm') t ph" and prm: "vm_prm vm' = vm_prm (th_vm s)"
    and old: "\<And>r c. th_phase s t \<noteq> Waiting r c" and new: "\<And>r c. ph \<noteq> Waiting r c"
  shows "th_inv ps K A' (after_turn s t ph vm')"
proof -
  have "waiters_ok ((th_phase s)(t := ph)) (queue_list (prm_queue (vm_prm (th_vm s))))"
    by (rule waiters_leave [OF th_invD(3) [OF inv]]) (use old new in auto)
  then show ?thesis by (intro after_turn_inv [OF inv turn own]) (simp_all add: prm)
qed

lemma outcome_phase:
  assumes "outcome r ph m" "own_request ps K t r"
  shows "phase_ok ps K m p t ph" "\<And>r c. ph \<noteq> Waiting r c"
  using assms by (auto simp: outcome_def split: if_splits)

lemma pinned_lock:
  assumes "th_inv ps K A s" "th_phase s t = Pinned r"
  obtains n where "mmu_lock (vm_mmu (th_vm s)) = rw_shared (Suc n)"
  using pinners_upd [of "th_phase s" t] th_invD(4) [OF assms(1)] assms(2) by (metis add.commute pins_simps(1) plus_1_eq_Suc)

lemma ask_step_ok:
  assumes inv: "th_inv ps K A s" and t: "th_phase s t = Missed q"
  shows "\<exists>c vm'. ask_manager (th_vm s) q = Inr (None, Waiting q c, vm') \<and> th_inv ps K A (after_turn s t (Waiting q c) vm') \<and>
           turn_ok ps K A t (Missed q) (th_vm s) None (Waiting q c) vm' A \<and> c \<in> set (queue_list (prm_queue (vm_prm vm')))"
proof -
  let ?vm = "th_vm s" let ?p = "vm_prm ?vm" let ?c = "prm_brk ?p"
  note I = th_invD [OF inv]
  obtain ql where T: "ask_manager ?vm q = Inr (None, Waiting q ?c, ?vm\<lparr>vm_prm := ?p\<lparr>prm_queue := ql,
           prm_cmds := (prm_cmds ?p)(?c \<mapsto> \<lparr>cmd_addr = req_addr q, cmd_done = False\<rparr>), prm_brk := Suc ?c\<rparr>\<rparr>)"
      "queue_inv ql" "queue_list ql = queue_list (prm_queue ?p) @ [?c]"
    using ask_manager_ok [OF I(1)] by blast
  let ?vm' = "?vm\<lparr>vm_prm := ?p\<lparr>prm_queue := ql, prm_cmds := (prm_cmds ?p)(?c \<mapsto> \<lparr>cmd_addr = req_addr q, cmd_done = False\<rparr>),
                                prm_brk := Suc ?c\<rparr>\<rparr>"
  have q: "own_request ps K t q" "m_abs (vm_mmu ?vm) (vkey (req_addr q)) = None"
    using I(2) [of t] t by simp_all
  have fresh: "c < ?c" if "th_phase s t' = Waiting r' c" for t' r' c using I(2) [of t'] that by simp
  have turn: "turn_ok ps K A t (Missed q) ?vm None (Waiting q ?c) ?vm' A"
    using I(1) T(2) by (simp add: turn_ok_def calm_def prm_ready_def)
  have "waiters_ok ((th_phase s)(t := Waiting q ?c)) (queue_list ql)"
    unfolding T(3) by (rule waiters_join [OF I(3)]) (use t fresh in auto)
  moreover have "phase_ok ps K (vm_mmu ?vm') (vm_prm ?vm') t (Waiting q ?c)"
    using q T(3) by (simp add: cmd_pending_def)
  ultimately have "th_inv ps K A (after_turn s t (Waiting q ?c) ?vm')"
    by (intro after_turn_inv [OF inv]) (use turn t T(3) in \<open>auto dest: fresh\<close>)
  then show ?thesis using T(1,3) turn by (intro exI [of _ ?c] exI [of _ ?vm']) simp
qed

lemma resume_step_ok:
  assumes inv: "th_inv ps K A s" and t: "th_phase s t = Waiting q c"
    and c: "prm_cmds (vm_prm (th_vm s)) c = Some cd" "cmd_done cd"
  shows "\<exists>ph vm'. resume_access (th_vm s) q c = Inr (None, ph, vm') \<and> th_inv ps K A (after_turn s t ph vm') \<and>
           turn_ok ps K A t (Waiting q c) (th_vm s) None ph vm' A \<and> outcome q ph (vm_mmu vm')"
proof -
  let ?vm = "th_vm s" let ?p = "vm_prm ?vm" let ?p' = "?p\<lparr>prm_cmds := (prm_cmds ?p)(c := None)\<rparr>"
  note I = th_invD [OF inv]
  have q: "own_request ps K t q" "cmd_pending (vm_mmu ?vm) ?p (req_addr q) c" using I(2) [of t] t by simp_all
  obtain ph m' where T: "resume_access ?vm q c = Inr (None, ph, ?vm\<lparr>vm_prm := ?p', vm_mmu := m'\<rparr>)"
      "turn_ok ps K A t (Waiting q c) ?vm None ph (?vm\<lparr>vm_prm := ?p', vm_mmu := m'\<rparr>) A" "outcome q ph m'"
    using resume_access_ok [OF I(1,4) c] by blast
  have out: "c \<notin> set (queue_list (prm_queue ?p))" using q(2) c by (auto simp: cmd_pending_def split: if_splits)
  have "waiters_ok ((th_phase s)(t := ph)) (queue_list (prm_queue ?p))"
    by (rule waiters_leave [OF I(3)]) (use t out outcome_phase(2) [OF T(3) q(1)] in auto)
  moreover have "c' \<noteq> c" if "t' \<noteq> t" "th_phase s t' = Waiting r' c'" for t' r' c'
    using I(3) that t unfolding waiters_ok_def by blast
  ultimately have "th_inv ps K A (after_turn s t ph (?vm\<lparr>vm_prm := ?p', vm_mmu := m'\<rparr>))"
    by (intro after_turn_inv [OF inv]) (use T(2) outcome_phase(1) [OF T(3) q(1)] t in auto)
  then show ?thesis using T by (intro exI [of _ ph] exI [of _ "?vm\<lparr>vm_prm := ?p', vm_mmu := m'\<rparr>"]) simp
qed

text \<open>Whatever phase a thread is in, its turn does not fault and keeps the invariant.\<close>

lemma thread_step_ok:
  assumes inv: "th_inv ps K A s" and r: "own_request ps K t r"
  shows "\<exists>l ph vm' A'. thread_turn (th_phase s t) r (th_vm s) = Inr (l, ph, vm') \<and>
           th_inv ps K A' (after_turn s t ph vm') \<and> turn_ok ps K A t (th_phase s t) (th_vm s) l ph vm' A'"
proof -
  let ?vm = "th_vm s" let ?p = "vm_prm ?vm"
  note I = th_invD [OF inv]
  show ?thesis
  proof (cases "th_phase s t")
    case Idle
    obtain ph m' where T: "begin_access ?vm r = Inr (None, ph, ?vm\<lparr>vm_mmu := m'\<rparr>)"
        "turn_ok ps K A t Idle ?vm None ph (?vm\<lparr>vm_mmu := m'\<rparr>) A" "outcome r ph m'"
      using begin_access_ok [OF I(1,4) r] by blast
    have "th_inv ps K A (after_turn s t ph (?vm\<lparr>vm_mmu := m'\<rparr>))"
      by (rule plain_turn_inv [OF inv]) (use T(2) Idle outcome_phase [OF T(3) r] in simp_all)
    then show ?thesis using T(1,2) Idle by auto
  next
    case (Missed q)
    obtain c vm' where "ask_manager ?vm q = Inr (None, Waiting q c, vm')" "th_inv ps K A (after_turn s t (Waiting q c) vm')"
        "turn_ok ps K A t (Missed q) ?vm None (Waiting q c) vm' A"
      using ask_step_ok [OF inv Missed] by blast
    then show ?thesis using Missed by auto
  next
    case (Waiting q c)
    have q: "own_request ps K t q" "cmd_pending (vm_mmu ?vm) ?p (req_addr q) c" using I(2) [of t] Waiting by simp_all
    obtain cd where cd: "prm_cmds ?p c = Some cd" using q(2) by (auto simp: cmd_pending_def split: if_splits)
    show ?thesis
    proof (cases "cmd_done cd")
      case False
      have "after_turn s t (Waiting q c) ?vm = s" using Waiting by (simp add: after_turn_def fun_upd_idem)
      moreover have "turn_ok ps K A t (Waiting q c) ?vm None (Waiting q c) ?vm A" using I(1) by (simp add: turn_ok_def calm_def)
      moreover have "\<not> prm_mutex ?p" using I(1) by (simp add: calm_def prm_ready_def)
      ultimately show ?thesis using resume_early [OF cd False] Waiting inv by auto
    next
      case True
      show ?thesis using resume_step_ok [OF inv Waiting cd True] Waiting by auto
    qed
  next
    case (Pinned q)
    then have q: "own_request ps K t q" "m_abs (vm_mmu ?vm) (vkey (req_addr q)) \<noteq> None" using I(2) [of t] by simp_all
    obtain n where n: "mmu_lock (vm_mmu ?vm) = rw_shared (Suc n)" using pinned_lock [OF inv Pinned] .
    obtain ans m' A' where T: "finish_access ?vm q = Inr (Some (q, ans), Ageing, ?vm\<lparr>vm_mmu := m'\<rparr>)"
        "turn_ok ps K A t (Pinned q) ?vm (Some (q, ans)) Ageing (?vm\<lparr>vm_mmu := m'\<rparr>) A'"
      using finish_turn_ok [OF I(1) n q] by blast
    have "th_inv ps K A' (after_turn s t Ageing (?vm\<lparr>vm_mmu := m'\<rparr>))"
      by (rule plain_turn_inv [OF inv]) (use T(2) Pinned in simp_all)
    then show ?thesis using T Pinned by auto
  next
    case Ageing
    obtain m' ag' where T: "mmu_age_pages_if_needed ?vm = Inr (ecSuccess, ?vm\<lparr>vm_mmu := m', vm_aging := ag'\<rparr>)"
        "turn_ok ps K A t Ageing ?vm None Idle (?vm\<lparr>vm_mmu := m', vm_aging := ag'\<rparr>) A"
      using age_turn_ok [OF I(1,4)] by blast
    have "th_inv ps K A (after_turn s t Idle (?vm\<lparr>vm_mmu := m', vm_aging := ag'\<rparr>))"
      by (rule plain_turn_inv [OF inv]) (use T(2) Ageing in simp_all)
    then show ?thesis using T Ageing by auto
  qed
qed

subsection \<open>The turn of the manager\<close>

lemma fault_effect_absent:
  "fault_effect m key m' \<Longrightarrow> k \<noteq> key \<Longrightarrow> m_abs m k = None \<Longrightarrow> m_abs m' k = None"
  by (cases "m_spare m") (auto simp: fault_effect_def)

lemma manager_step_ok:
  assumes inv: "th_inv ps K A s" and q: "queue_list (prm_queue (vm_prm (th_vm s))) = c # cs" and free: "pinners (th_phase s) = {}"
  shows "\<exists>vm'. manager_turn (th_vm s) = Inr vm' \<and> th_inv ps K A (s\<lparr>th_vm := vm'\<rparr>) \<and>
           queue_list (prm_queue (vm_prm vm')) = cs \<and>
           (\<forall>t r. th_phase s t = Waiting r c \<longrightarrow> m_abs (vm_mmu vm') (vkey (req_addr r)) \<noteq> None)"
proof -
  let ?vm = "th_vm s" let ?m = "vm_mmu ?vm" let ?p = "vm_prm ?vm"
  note I = th_invD [OF inv]
  have V: "mmu_inv ?m" "mmu_lock ?m = rw_free" "prm_ready ?p" "A \<subseteq>\<^sub>m vm_view ?vm"
    using I(1,4) by (simp_all add: calm_def free rw_shared_0)
  obtain t r where t: "th_phase s t = Waiting r c" using I(3) q by (auto simp: waiters_ok_def)
  have own: "own_request ps K t r" and "cmd_pending ?m ?p (req_addr r) c" using I(2) [of t] t by simp_all
  then obtain cd where cd: "prm_cmds ?p c = Some cd" "cmd_addr cd = req_addr r" "m_abs ?m (vkey (req_addr r)) = None"
    using q by (auto simp: cmd_pending_def)
  have "vkey (req_addr r) \<in> K" using own by (cases r) (auto simp: own_request_def)
  then obtain b where b: "m_bk ?m (vkey (cmd_addr cd)) = Some b" using I(1) cd(2) by (auto simp: calm_def)
  obtain m' p' where step: "prm_thread_func ?m ?p = Inr (False, m', p')" "mmu_inv m'" "same_rest ?m m'"
      "fault_exact ?m (vkey (cmd_addr cd)) m'" "vmem ?m \<subseteq>\<^sub>m vmem m'"
      "queue_inv (prm_queue p')" "queue_list (prm_queue p') = cs" "\<not> prm_mutex p'" "\<not> prm_queue_mutex p'"
      "prm_running p' = prm_running ?p" "prm_oom p' = prm_oom ?p" "prm_brk p' = prm_brk ?p"
      "prm_cmds p' = (prm_cmds ?p)(c \<mapsto> cd\<lparr>cmd_done := True\<rparr>)"
    using prm_thread_step [OF V(1,2) _ q _ _ cd(1) _ b] V(3) cd(2,3) by (auto simp: prm_ready_def)
  note effect = fault_exactD [OF step(4)]
  let ?vm' = "?vm\<lparr>vm_mmu := m', vm_prm := p'\<rparr>"
  have "calm ps K A ?vm'"
    using I(1) step V(4) map_le_trans [OF V(4) step(5)] by (simp add: calm_def prm_ready_def same_rest_def)
  moreover have "waiters_ok (th_phase s) cs" using I(3) q by (simp add: waiters_ok_def)
  moreover have "phase_ok ps K m' p' t' (th_phase s t')" for t'
  proof (cases "t' = t")
    case True
    have "c \<notin> set cs" using I(3) q by (simp add: waiters_ok_def)
    then have "cmd_pending m' p' (req_addr r) c" using step(7,13) cd(2) by (simp add: cmd_pending_def)
    then show ?thesis using True t own I(2) [of t] step(12) by simp
  next
    case False
    have "fst (vkey (cmd_addr cd)) = t" using cd(2) own by (simp add: own_request_def vkey_def)
    then have "m_abs m' (t', pg) = None" if "m_abs ?m (t', pg) = None" for pg
      using fault_effect_absent [OF effect _ that] False by (metis fst_conv)
    moreover have "d \<noteq> c" if "th_phase s t' = Waiting r' d" for r' d
      using I(3) that t False by (metis waiters_ok_def)
    moreover have "th_phase s t' \<noteq> Pinned r'" for r' using free pinned_iff unfolding pinners_def by blast
    ultimately show ?thesis by (intro phase_ok_frame [OF I(2)]) (use step(7,12,13) q in auto)
  qed
  moreover have "m_abs m' (vkey (req_addr r')) \<noteq> None" if "th_phase s t' = Waiting r' c" for t' r'
  proof -
    have "t' = t" using I(3) that t unfolding waiters_ok_def by blast
    then show ?thesis using that t fault_effect_mapped [OF effect] cd(2) by simp
  qed
  moreover have "manager_turn ?vm = Inr ?vm'" using step(1) by (simp add: manager_turn_def)
  moreover have "mmu_lock m' = rw_shared (card (pinners (th_phase s)))" using step(3) I(4) by (simp add: same_rest_def)
  ultimately show ?thesis using step(7,13) by (intro exI [of _ ?vm']) (simp add: th_inv_def)
qed

text \<open>The manager waits for the threads that have a page pinned.\<close>

lemma manager_waits:
  assumes inv: "th_inv ps K A s" and q: "queue_list (prm_queue (vm_prm (th_vm s))) = c # cs" and t: "th_phase s t = Pinned r"
  shows "manager_turn (th_vm s) = Inl Deadlock"
proof -
  let ?p = "vm_prm (th_vm s)"
  note I = th_invD [OF inv]
  have P: "queue_inv (prm_queue ?p)" "\<not> prm_queue_mutex ?p" using I(1) by (simp_all add: calm_def prm_ready_def)
  obtain t' r' where t': "th_phase s t' = Waiting r' c" using I(3) q by (auto simp: waiters_ok_def)
  then obtain cd where cd: "prm_cmds ?p c = Some cd" using I(2) [of t'] by (auto simp: cmd_pending_def)
  obtain q' where "queue_pop (prm_queue ?p) = Inr (Some c, q')" using fq.pop_cons [OF P(1) q] by blast
  moreover obtain n where "mmu_lock (vm_mmu (th_vm s)) = rw_shared (Suc n)" using pinned_lock [OF inv t] .
  ultimately show ?thesis using P(2) cd
    by (simp add: manager_turn_def prm_thread_func_def prm_serve_def cmd_load_def mmu_shared_steps Let_def)
qed

subsection \<open>Runs\<close>

text \<open>One turn of anybody.\<close>

lemma th_step_ok:
  assumes inv: "th_inv ps K A s" and step: "th_step ps K l s s'"
  shows "\<exists>A'. th_inv ps K A' s' \<and> (case l of None \<Rightarrow> A' = A | Some (r, ans) \<Rightarrow> plain_step ps r ans A A')"
  using step
proof (rule th_stepE)
  fix t r ph vm
  assume own: "own_request ps K t r" and turn: "thread_turn (th_phase s t) r (th_vm s) = Inr (l, ph, vm)"
    and s': "s' = after_turn s t ph vm"
  obtain A' where "th_inv ps K A' (after_turn s t ph vm)" "turn_ok ps K A t (th_phase s t) (th_vm s) l ph vm A'"
    using thread_step_ok [OF inv own] turn by auto
  then show ?thesis using s' by (intro exI [of _ A']) (auto simp: turn_ok_def split: option.splits)
next
  fix vm
  assume l: "l = None" and q: "queue_list (prm_queue (vm_prm (th_vm s))) \<noteq> []" and turn: "manager_turn (th_vm s) = Inr vm"
    and s': "s' = s\<lparr>th_vm := vm\<rparr>"
  from q obtain c cs where "queue_list (prm_queue (vm_prm (th_vm s))) = c # cs" by (auto simp: neq_Nil_conv)
  then have "pinners (th_phase s) = {}" and c: "queue_list (prm_queue (vm_prm (th_vm s))) = c # cs"
    using manager_waits [OF inv] turn by (auto simp: pinners_def pinned_iff)
  from manager_step_ok [OF inv c this(1)] show ?thesis using turn l s' by auto
qed

lemma th_step_none: "th_inv ps K A s \<Longrightarrow> th_step ps K None s s' \<Longrightarrow> th_inv ps K A s'"
  using th_step_ok by fastforce

lemma th_run_ok:
  assumes "th_run ps K s ls s'" "th_inv ps K A s"
  shows "\<exists>A'. plain_steps ps A ls A' \<and> th_inv ps K A' s'"
  using assms
proof (induction arbitrary: A rule: th_run.induct)
  case (go l s s1 ls s2)
  obtain A1 where A1: "th_inv ps K A1 s1" "case l of None \<Rightarrow> A1 = A | Some (r, ans) \<Rightarrow> plain_step ps r ans A A1"
    using th_step_ok [OF go.prems go.hyps(1)] by blast
  obtain A2 where "plain_steps ps A1 ls A2" "th_inv ps K A2 s2" using go.IH [OF A1(1)] by blast
  then show ?case using A1(2) by (intro exI [of _ A2]) (auto split: option.splits intro: plain_steps.more)
qed (auto intro: plain_steps.none)

lemma th_run_append: "th_run ps K s ls s1 \<Longrightarrow> th_run ps K s1 ls' s2 \<Longrightarrow> th_run ps K s (ls @ ls') s2"
proof (induction rule: th_run.induct)
  case (go l s s1 ls s3)
  from th_run.go [OF go.hyps(1) go.IH [OF go.prems]] show ?case by (cases l) simp_all
qed simp

lemma th_run_one: "th_step ps K l s s' \<Longrightarrow> th_run ps K s (case l of None \<Rightarrow> [] | Some x \<Rightarrow> [x]) s'"
  using th_run.go [OF _ th_run.stop] .

subsection \<open>Progress\<close>

text \<open>The access that a thread works on, or will work on.\<close>

fun current :: "phase \<Rightarrow> request \<Rightarrow> request" where
  "current (Missed q) r = q"
| "current (Waiting q c) r = q"
| "current (Pinned q) r = q"
| "current ph r = r"

text \<open>
  The access \<open>q\<close> of the thread \<open>t\<close> can be completed with nothing else than turns of this thread and of the
  manager, and of threads that have a page pinned: these complete the access that they are in.
\<close>

definition yields :: "phase \<Rightarrow> phase \<Rightarrow> bool" where
  "yields ph ph' \<longleftrightarrow> ph' = ph \<or> pinned ph \<and> ph' = Ageing"

definition completes :: "nat \<Rightarrow> vkey set \<Rightarrow> threads_t \<Rightarrow> procid_t \<Rightarrow> request \<Rightarrow> bool" where
  "completes ps K s t q \<longleftrightarrow> (\<exists>ls ans s'. th_run ps K s (ls @ [(q, ans)]) s' \<and> th_phase s' t = Ageing \<and>
     (\<forall>t'. t' \<noteq> t \<longrightarrow> yields (th_phase s t') (th_phase s' t')) \<and>
     (\<forall>x \<in> set ls. \<exists>t'. t' \<noteq> t \<and> th_phase s t' = Pinned (fst x)))"

lemma yields_refl [simp]: "yields ph ph"
  by (simp add: yields_def)

lemma yields_trans: "yields a b \<Longrightarrow> yields b c \<Longrightarrow> yields a c"
  by (auto simp: yields_def pinned_iff)

lemma yields_pinned: "yields ph (Pinned r) \<Longrightarrow> ph = Pinned r"
  by (simp add: yields_def)

lemma completes_later:
  assumes run: "th_run ps K s ls s1" and later: "completes ps K s1 t q"
    and ls: "\<forall>x \<in> set ls. \<exists>t'. t' \<noteq> t \<and> th_phase s t' = Pinned (fst x)"
    and others: "\<And>t'. t' \<noteq> t \<Longrightarrow> yields (th_phase s t') (th_phase s1 t')"
  shows "completes ps K s t q"
proof -
  obtain ls' ans s' where L: "th_run ps K s1 (ls' @ [(q, ans)]) s'" "th_phase s' t = Ageing"
      "\<forall>t'. t' \<noteq> t \<longrightarrow> yields (th_phase s1 t') (th_phase s' t')"
      "\<forall>x \<in> set ls'. \<exists>t'. t' \<noteq> t \<and> th_phase s1 t' = Pinned (fst x)"
    using later unfolding completes_def by blast
  have "th_run ps K s ((ls @ ls') @ [(q, ans)]) s'" using th_run_append [OF run L(1)] by simp
  moreover have "\<forall>t'. t' \<noteq> t \<longrightarrow> yields (th_phase s t') (th_phase s' t')" using L(3) others yields_trans by blast
  moreover have "\<exists>t'. t' \<noteq> t \<and> th_phase s t' = Pinned (fst x)" if "x \<in> set (ls @ ls')" for x
    using that ls L(4) others by (metis Un_iff set_append yields_pinned)
  ultimately show ?thesis using L(2) unfolding completes_def by blast
qed

lemma completes_step:
  assumes "th_step ps K None s (after_turn s t ph vm)" "completes ps K (after_turn s t ph vm) t q"
  shows "completes ps K s t q"
proof -
  have run: "th_run ps K s [] (after_turn s t ph vm)" using th_run_one [OF assms(1)] by simp
  show ?thesis by (rule completes_later [OF run assms(2)]) (simp_all add: after_turn_def)
qed

text \<open>A thread that has its page pinned only has to copy.\<close>

lemma pinned_step:
  assumes inv: "th_inv ps K A s" and t: "th_phase s t = Pinned q"
  shows "\<exists>ans vm' A'. th_step ps K (Some (q, ans)) s (after_turn s t Ageing vm') \<and>
           th_inv ps K A' (after_turn s t Ageing vm') \<and> vm_prm vm' = vm_prm (th_vm s)"
proof -
  note I = th_invD [OF inv]
  have q: "own_request ps K t q" "m_abs (vm_mmu (th_vm s)) (vkey (req_addr q)) \<noteq> None" using I(2) [of t] t by simp_all
  obtain n where n: "mmu_lock (vm_mmu (th_vm s)) = rw_shared (Suc n)" using pinned_lock [OF inv t] .
  obtain ans vm' where fin: "finish_access (th_vm s) q = Inr (Some (q, ans), Ageing, vm')" "vm_prm vm' = vm_prm (th_vm s)"
    using finish_turn_ok [OF I(1) n q] by force
  then have step: "th_step ps K (Some (q, ans)) s (after_turn s t Ageing vm')"
    by (intro th_step.thread [OF q(1)]) (simp add: t)
  then show ?thesis using th_step_ok [OF inv step] fin(2) by blast
qed

lemma pinned_completes:
  assumes inv: "th_inv ps K A s" and t: "th_phase s t = Pinned q"
  shows "completes ps K s t q"
proof -
  obtain ans vm' where "th_step ps K (Some (q, ans)) s (after_turn s t Ageing vm')" using pinned_step [OF inv t] by blast
  from th_run_one [OF this] show ?thesis unfolding completes_def
    by (intro exI [of _ "[]"] exI [of _ ans] exI [of _ "after_turn s t Ageing vm'"]) (simp add: after_turn_def)
qed

text \<open>The threads that have pages pinned can all be made to give back the lock.\<close>

lemma unpin_all:
  assumes "th_inv ps K A s"
  shows "\<exists>ls s' A'. th_run ps K s ls s' \<and> th_inv ps K A' s' \<and> pinners (th_phase s') = {} \<and>
           vm_prm (th_vm s') = vm_prm (th_vm s) \<and> (\<forall>x \<in> set ls. \<exists>t. th_phase s t = Pinned (fst x)) \<and>
           (\<forall>t. th_phase s' t = (if pinned (th_phase s t) then Ageing else th_phase s t))"
  using assms
proof (induction "card (pinners (th_phase s))" arbitrary: s A)
  case 0
  then have "pinners (th_phase s) = {}" by simp
  with 0 show ?case using th_run.stop by (intro exI [of _ "[]"] exI [of _ s] exI [of _ A]) (auto simp: pinners_def intro: th_run.stop)
next
  case (Suc n)
  then have "pinners (th_phase s) \<noteq> {}" by fastforce
  then obtain t q where t: "th_phase s t = Pinned q" by (auto simp: pinners_def pinned_iff)
  obtain ans vm' A1 where step: "th_step ps K (Some (q, ans)) s (after_turn s t Ageing vm')"
      "th_inv ps K A1 (after_turn s t Ageing vm')" "vm_prm vm' = vm_prm (th_vm s)"
    using pinned_step [OF Suc.prems t] by blast
  let ?s = "after_turn s t Ageing vm'"
  have ph: "th_phase ?s = (th_phase s)(t := Ageing)" by (simp add: after_turn_def)
  have "card (pinners (th_phase ?s)) = n"
    using pinners_upd [of "th_phase s" t] Suc.hyps(2) t unfolding ph by (metis One_nat_def add.right_neutral add_Suc_right nat.inject pins_simps(1,5))
  from Suc.hyps(1) [OF this [symmetric] step(2)] obtain ls s' A' where
    run: "th_run ps K ?s ls s'" "th_inv ps K A' s'" "pinners (th_phase s') = {}"
      "vm_prm (th_vm s') = vm_prm (th_vm ?s)" "\<forall>x \<in> set ls. \<exists>u. th_phase ?s u = Pinned (fst x)" "\<forall>u. th_phase s' u = (if pinned (th_phase ?s u) then Ageing else th_phase ?s u)" by blast
  have "th_phase s' u = (if pinned (th_phase s u) then Ageing else th_phase s u)" for u
    using run(6) t ph by (auto simp: pinned_iff)
  moreover have "vm_prm (th_vm s') = vm_prm (th_vm s)" using run(4) step(3) by (simp add: after_turn_def)
  moreover have "th_run ps K s ((q, ans) # ls) s'" using th_run_append [OF th_run_one [OF step(1)] run(1)] by simp
  moreover have "\<exists>u. th_phase s u = Pinned (fst x)" if "x \<in> set ((q, ans) # ls)" for x
    using that run(5) t unfolding ph by (metis fst_conv fun_upd_apply phase.distinct(19) set_ConsD)
  ultimately show ?case using run(2,3) by blast
qed

text \<open>The manager reaches every command in its queue, and the page is there then.\<close>

lemma manager_reaches:
  assumes "th_inv ps K A s" "pinners (th_phase s) = {}" "th_phase s t = Waiting q c"
    and "queue_list (prm_queue (vm_prm (th_vm s))) = pre @ c # cs"
  shows "\<exists>s'. th_run ps K s [] s' \<and> th_inv ps K A s' \<and> th_phase s' = th_phase s \<and>
           c \<notin> set (queue_list (prm_queue (vm_prm (th_vm s')))) \<and> m_abs (vm_mmu (th_vm s')) (vkey (req_addr q)) \<noteq> None"
  using assms
proof (induction pre arbitrary: s)
  case Nil
  then obtain vm' where M: "manager_turn (th_vm s) = Inr vm'" "th_inv ps K A (s\<lparr>th_vm := vm'\<rparr>)"
      "queue_list (prm_queue (vm_prm vm')) = cs" "m_abs (vm_mmu vm') (vkey (req_addr q)) \<noteq> None"
    using manager_step_ok [OF Nil.prems(1), of c cs] by auto
  have step: "th_step ps K None s (s\<lparr>th_vm := vm'\<rparr>)" by (rule th_step.manager [OF _ M(1)]) (simp add: Nil.prems)
  moreover have "c \<notin> set cs" using th_invD(3) [OF Nil.prems(1)] Nil.prems(4) by (simp add: waiters_ok_def)
  ultimately show ?case using M th_run_one [OF step] by (intro exI [of _ "s\<lparr>th_vm := vm'\<rparr>"]) simp
next
  case (Cons d pre)
  then obtain vm' where M: "manager_turn (th_vm s) = Inr vm'" "th_inv ps K A (s\<lparr>th_vm := vm'\<rparr>)"
      "queue_list (prm_queue (vm_prm vm')) = pre @ c # cs"
    using manager_step_ok [OF Cons.prems(1), of d "pre @ c # cs"] by auto
  have step: "th_step ps K None s (s\<lparr>th_vm := vm'\<rparr>)" by (rule th_step.manager [OF _ M(1)]) (simp add: Cons.prems)
  have run: "th_run ps K s [] (s\<lparr>th_vm := vm'\<rparr>)" using th_run_one [OF step] by simp
  show ?case using Cons.IH [OF M(2)] M(3) Cons.prems(2,3) th_run_append [OF run] by force
qed

lemma resume_completes:
  assumes inv: "th_inv ps K A s" and t: "th_phase s t = Waiting q c"
    and c: "c \<notin> set (queue_list (prm_queue (vm_prm (th_vm s))))" and p: "m_abs (vm_mmu (th_vm s)) (vkey (req_addr q)) \<noteq> None"
  shows "completes ps K s t q"
proof -
  have own: "own_request ps K t q" and "cmd_pending (vm_mmu (th_vm s)) (vm_prm (th_vm s)) (req_addr q) c"
    using th_invD(2) [OF inv, of t] t by simp_all
  then obtain cd where cd: "prm_cmds (vm_prm (th_vm s)) c = Some cd" "cmd_done cd" using c by (auto simp: cmd_pending_def)
  obtain ph vm' where T: "resume_access (th_vm s) q c = Inr (None, ph, vm')" "th_inv ps K A (after_turn s t ph vm')"
      "turn_ok ps K A t (Waiting q c) (th_vm s) None ph vm' A" "outcome q ph (vm_mmu vm')"
    using resume_step_ok [OF inv t cd] by blast
  have ph: "ph = Pinned q" using T(3,4) p by (simp add: turn_ok_def outcome_def)
  have "th_step ps K None s (after_turn s t ph vm')" by (rule th_step.thread [OF own]) (simp add: t T(1))
  moreover have "completes ps K (after_turn s t ph vm') t q"
    by (rule pinned_completes [OF T(2)]) (simp add: after_turn_def ph)
  ultimately show ?thesis by (rule completes_step)
qed

lemma waiting_completes:
  assumes inv: "th_inv ps K A s" and t: "th_phase s t = Waiting q c"
    and c: "c \<in> set (queue_list (prm_queue (vm_prm (th_vm s))))"
  shows "completes ps K s t q"
proof -
  from c obtain pre cs where pre: "queue_list (prm_queue (vm_prm (th_vm s))) = pre @ c # cs" by (meson split_list)
  obtain ls s1 A1 where s1: "th_run ps K s ls s1" "th_inv ps K A1 s1" "pinners (th_phase s1) = {}"
      "vm_prm (th_vm s1) = vm_prm (th_vm s)" "\<forall>x \<in> set ls. \<exists>t. th_phase s t = Pinned (fst x)"
      "\<forall>t. th_phase s1 t = (if pinned (th_phase s t) then Ageing else th_phase s t)"
    using unpin_all [OF inv] by blast
  have t1: "th_phase s1 t = Waiting q c" using s1(6) t by simp
  have ls: "\<forall>x \<in> set ls. \<exists>t'. t' \<noteq> t \<and> th_phase s t' = Pinned (fst x)" using s1(5) t by (metis phase.distinct(15))
  from manager_reaches [OF s1(2,3) t1 pre [folded s1(4)]] obtain s' where s': "th_run ps K s1 [] s'" "th_inv ps K A1 s'"
      "th_phase s' = th_phase s1" "c \<notin> set (queue_list (prm_queue (vm_prm (th_vm s'))))"
      "m_abs (vm_mmu (th_vm s')) (vkey (req_addr q)) \<noteq> None" by blast
  have "completes ps K s' t q" by (rule resume_completes [OF s'(2) _ s'(4,5)]) (simp add: s'(3) t1)
  with s'(1) have "completes ps K s1 t q" by (rule completes_later) (simp_all add: s'(3))
  with s1(1) show ?thesis by (rule completes_later [OF _ _ ls]) (simp add: s1(6) yields_def)
qed

lemma missed_completes:
  assumes inv: "th_inv ps K A s" and t: "th_phase s t = Missed q"
  shows "completes ps K s t q"
proof -
  have own: "own_request ps K t q" using th_invD(2) [OF inv, of t] t by simp
  obtain c vm' where T: "ask_manager (th_vm s) q = Inr (None, Waiting q c, vm')" "th_inv ps K A (after_turn s t (Waiting q c) vm')"
      "c \<in> set (queue_list (prm_queue (vm_prm vm')))"
    using ask_step_ok [OF inv t] by blast
  have "th_step ps K None s (after_turn s t (Waiting q c) vm')" by (rule th_step.thread [OF own]) (simp add: t T(1))
  moreover have "completes ps K (after_turn s t (Waiting q c) vm') t q"
    by (rule waiting_completes [OF T(2), where c = c]) (use T(3) in \<open>simp_all add: after_turn_def\<close>)
  ultimately show ?thesis by (rule completes_step)
qed

lemma outcome_completes:
  assumes inv: "th_inv ps K A (after_turn s t ph vm')" and own: "own_request ps K t r"
    and turn: "thread_turn (th_phase s t) r (th_vm s) = Inr (None, ph, vm')" and out: "outcome q ph m"
  shows "completes ps K s t q"
proof (rule completes_step)
  show "th_step ps K None s (after_turn s t ph vm')" by (rule th_step.thread [OF own turn])
  have t: "th_phase (after_turn s t ph vm') t = ph" by (simp add: after_turn_def)
  from out have "ph = Pinned q \<or> ph = Missed q" by (simp add: outcome_def)
  then show "completes ps K (after_turn s t ph vm') t q"
    using pinned_completes [OF inv] missed_completes [OF inv] t by blast
qed

lemma idle_completes:
  assumes inv: "th_inv ps K A s" and own: "own_request ps K t r" and t: "th_phase s t = Idle"
  shows "completes ps K s t r"
proof -
  obtain ph vm' where T: "begin_access (th_vm s) r = Inr (None, ph, vm')" "outcome r ph (vm_mmu vm')"
    using begin_access_ok [OF th_invD(1,4) [OF inv] own] by fastforce
  have "th_step ps K None s (after_turn s t ph vm')" by (rule th_step.thread [OF own]) (simp add: t T(1))
  from th_step_none [OF inv this] have "th_inv ps K A (after_turn s t ph vm')" .
  from outcome_completes [OF this own _ T(2)] show ?thesis using t T(1) by simp
qed

lemma all_complete:
  assumes inv: "th_inv ps K A s" and own: "own_request ps K t r"
  shows "completes ps K s t (current (th_phase s t) r)"
proof (cases "th_phase s t")
  case (Waiting q c)
  show ?thesis
  proof (cases "c \<in> set (queue_list (prm_queue (vm_prm (th_vm s))))")
    case False
    have "cmd_pending (vm_mmu (th_vm s)) (vm_prm (th_vm s)) (req_addr q) c"
      using th_invD(2) [OF inv, of t] Waiting by simp
    then obtain cd where cd: "prm_cmds (vm_prm (th_vm s)) c = Some cd" "cmd_done cd" using False by (auto simp: cmd_pending_def)
    obtain ph vm' where T: "resume_access (th_vm s) q c = Inr (None, ph, vm')" "th_inv ps K A (after_turn s t ph vm')"
        "outcome q ph (vm_mmu vm')"
      using resume_step_ok [OF inv Waiting cd] by blast
    from outcome_completes [OF T(2) own _ T(3)] show ?thesis using Waiting T(1) by simp
  qed (use waiting_completes [OF inv Waiting] Waiting in simp)
next
  case Ageing
  obtain vm' where T: "mmu_age_pages_if_needed (th_vm s) = Inr (ecSuccess, vm')"
    using age_turn_ok [OF th_invD(1,4) [OF inv]] by blast
  have step: "th_step ps K None s (after_turn s t Idle vm')"
    by (rule th_step.thread [OF own]) (use T Ageing in simp)
  have "th_inv ps K A (after_turn s t Idle vm')" by (rule th_step_none [OF inv step])
  then have "completes ps K (after_turn s t Idle vm') t r"
    by (rule idle_completes [OF _ own]) (simp add: after_turn_def)
  from completes_step [OF step this] show ?thesis using Ageing by simp
qed (use missed_completes [OF inv] pinned_completes [OF inv] idle_completes [OF inv own] in simp_all)

text \<open>No turn faults; that of the manager waits while a thread has a page pinned, and only then.\<close>

lemma all_turns_ok:
  assumes inv: "th_inv ps K A s" and own: "own_request ps K t r"
  shows "\<exists>x. thread_turn (th_phase s t) r (th_vm s) = Inr x"
    "queue_list (prm_queue (vm_prm (th_vm s))) \<noteq> [] \<Longrightarrow>
       (if pinners (th_phase s) = {} then \<exists>vm'. manager_turn (th_vm s) = Inr vm' else manager_turn (th_vm s) = Inl Deadlock)"
proof -
  show "\<exists>x. thread_turn (th_phase s t) r (th_vm s) = Inr x" using thread_step_ok [OF inv own] by blast
  assume "queue_list (prm_queue (vm_prm (th_vm s))) \<noteq> []"
  then obtain c cs where c: "queue_list (prm_queue (vm_prm (th_vm s))) = c # cs" by (auto simp: neq_Nil_conv)
  show "if pinners (th_phase s) = {} then \<exists>vm'. manager_turn (th_vm s) = Inr vm' else manager_turn (th_vm s) = Inl Deadlock"
    using manager_step_ok [OF inv c] manager_waits [OF inv c] by (auto simp: pinners_def pinned_iff)
qed

text \<open>The requests of several processes, in any order, can all be completed.\<close>

lemma requests_complete:
  assumes "th_inv ps K A s" "\<forall>r \<in> set rs. own_request ps K (va_pid (req_addr r)) r" "\<And>t. th_phase s t \<in> {Idle, Ageing}"
  shows "\<exists>ls s'. th_run ps K s ls s' \<and> map fst ls = rs"
  using assms
proof (induction rs arbitrary: s A)
  case (Cons r rs)
  let ?t = "va_pid (req_addr r)"
  have "current (th_phase s ?t) r = r" using Cons.prems(3) [of ?t] by auto
  then have c: "completes ps K s ?t r" using all_complete [OF Cons.prems(1), of ?t r] Cons.prems(2) by simp
  have free: "th_phase s t \<noteq> Pinned q" for t q using Cons.prems(3) [of t] by auto
  obtain ls0 ans s1 where s1: "th_run ps K s (ls0 @ [(r, ans)]) s1" "th_phase s1 ?t = Ageing"
      "\<forall>t. t \<noteq> ?t \<longrightarrow> yields (th_phase s t) (th_phase s1 t)" "\<forall>x \<in> set ls0. \<exists>t. t \<noteq> ?t \<and> th_phase s t = Pinned (fst x)"
    using c unfolding completes_def by blast
  have run: "th_run ps K s [(r, ans)] s1" using s1(1,4) free by (cases ls0) auto
  obtain A1 where inv1: "th_inv ps K A1 s1" using th_run_ok [OF run Cons.prems(1)] by blast
  have "th_phase s1 t \<in> {Idle, Ageing}" for t
    using Cons.prems(3) [of t] s1(2,3) by (cases "t = ?t") (auto simp: yields_def)
  with Cons.IH [OF inv1] Cons.prems(2) obtain ls s' where "th_run ps K s1 ls s'" "map fst ls = rs" by auto
  then show ?case using th_run_append [OF run] by (intro exI [of _ "[(r, ans)] @ ls"]) auto
qed (auto intro: th_run.stop)

end
