(* ===== verification/Demo_Threads.thy ===== *)
theory Demo_Threads
  imports Demo Threads_Proofs
begin

text \<open>
  Two processes of the demo that have both written to their memory, two frames for the two of them.
\<close>

definition demo_addr2 :: virt_addr_t where
  "demo_addr2 = \<lparr>va_pid = 1, va_page = 0, va_offset = 0\<rparr>"

definition demo_shared :: vm_t where
  "demo_shared = state_of (mmu_write demo_vm demo_addr2 2 [5, 6]) demo_vm"

definition demo_pages :: "vkey \<rightharpoonup> byte list" where
  "demo_pages = vm_view demo_shared |` {vkey demo_addr, vkey demo_addr2}"

definition demo_threads :: threads_t where
  "demo_threads = \<lparr>th_vm = demo_shared, th_phase = \<lambda>_. Idle\<rparr>"

lemma demo_shared_facts:
  "vm_inv demo_shared" "vm_psize demo_shared = 4" "demo_pages \<subseteq>\<^sub>m vm_view demo_shared"
  "dom demo_pages = {vkey demo_addr, vkey demo_addr2}"
proof -
  note V = demo_vm_facts
  obtain pg where pg: "page_of (vm_mmu demo_vm) (vkey demo_addr2) = Some pg"
    using demo_vm_backed [of demo_addr2] by (auto simp: demo_addr2_def)
  have fit: "unat (va_offset demo_addr2) + unat (2 :: u32) \<le> vm_psize demo_vm" by (simp add: demo_addr2_def V(2))
  obtain vm' where vm': "mmu_write demo_vm demo_addr2 2 [5, 6] = Inr (ecSuccess, vm')" "access demo_vm (vkey demo_addr2) vm'"
      "(vm_view demo_vm)(vkey demo_addr2 \<mapsto> overwrite pg (unat (va_offset demo_addr2)) (take (unat (2 :: u32)) [5, 6])) \<subseteq>\<^sub>m vm_view vm'"
    using mmu_write_ok [OF V(1) pg fit, of "[5, 6]"] by auto
  have vm: "demo_shared = vm'" using vm'(1) by (simp add: demo_shared_def)
  show "vm_inv demo_shared" "vm_psize demo_shared = 4" using vm'(2) V(2) by (simp_all add: access_def vm)
  show "demo_pages \<subseteq>\<^sub>m vm_view demo_shared" by (simp add: demo_pages_def map_le_def)
  have "vkey demo_addr \<in> dom (vm_view demo_vm)" using V(3) by blast
  then have "{vkey demo_addr, vkey demo_addr2} \<subseteq> dom (vm_view demo_shared)"
    using map_le_implies_dom_le [OF vm'(3)] vm by auto
  then show "dom demo_pages = {vkey demo_addr, vkey demo_addr2}" by (auto simp: demo_pages_def)
qed

lemma demo_pages_length:
  assumes "k \<in> dom demo_pages"
  shows "length (the (demo_pages k)) = 4"
proof -
  obtain pg where pg: "demo_pages k = Some pg" using assms by blast
  then have "vm_view demo_shared k = Some pg" using demo_shared_facts(3) assms by (metis map_le_def)
  then show ?thesis using vm.page_len [OF demo_shared_facts(1) vmem_page_of] demo_shared_facts(2) pg by simp
qed

text \<open>The threads use all pages that are allocated.\<close>

lemma demo_owned: "vkey demo_addr \<in> dom (vm_bk demo_shared)" "vkey demo_addr2 \<in> dom (vm_bk demo_shared)"
  using demo_shared_facts(3,4) by (auto simp: map_le_def vmem_def page_of_def split: if_splits option.splits)

lemma demo_threads_inv: "th_inv 4 (dom (vm_bk demo_shared)) demo_pages demo_threads"
  using th_start [OF demo_shared_facts(1) subset_refl demo_shared_facts(3)]
  by (simp add: demo_threads_def demo_shared_facts(2))

text \<open>Both write, then both read.\<close>

definition demo_requests :: "request list" where
  "demo_requests = [Wr demo_addr 2 [1, 2], Wr demo_addr2 2 [3, 4], Rd demo_addr 2, Rd demo_addr2 2]"

lemma demo_keys: "vkey demo_addr = (0, 1)" "vkey demo_addr2 = (1, 0)"
  by (simp_all add: vkey_def demo_addr_def demo_addr2_def)

lemma demo_requests_own: "\<forall>r \<in> set demo_requests. own_request 4 (dom (vm_bk demo_shared)) (va_pid (req_addr r)) r"
  using demo_owned by (simp add: demo_requests_def own_request_def) (simp add: demo_addr_def demo_addr2_def)

lemma demo_requests_answers: "fst (plain_run demo_requests demo_pages) = [[1, 2], [3, 4]]"
proof -
  have "length (the (demo_pages (0, 1))) = 4" "length (the (demo_pages (1, 0))) = 4"
    using demo_pages_length [of "(0, 1)"] demo_pages_length [of "(1, 0)"] demo_shared_facts(4) by (simp_all add: demo_keys)
  then show ?thesis
    by (simp add: demo_requests_def demo_keys page_get_def page_put_def overwrite_def) (simp add: demo_addr_def demo_addr2_def)
qed

lemma demo_run: "\<exists>ls s. th_run 4 (dom (vm_bk demo_shared)) demo_threads ls s \<and> map fst ls = demo_requests"
  by (rule requests_complete [OF demo_threads_inv demo_requests_own]) (simp add: demo_threads_def)

end
