(* ===== verification/Print.thy ===== *)
theory Print
  imports App
begin

text \<open>
  The dumps of \<^verbatim>\<open>util/app_util.c\<close>: the text that each of them prints, and the switches of the logger.
  \<open>tid\<close> is the thread that logs.
\<close>

subsection \<open>Loops that print\<close>

text \<open>\<^verbatim>\<open>for (i = lo; i < lo + n; ++i) printf(...)\<close>\<close>

primrec text_loop :: "nat \<Rightarrow> int \<Rightarrow> (int \<Rightarrow> byte list res) \<Rightarrow> byte list res" where
  "text_loop 0 i f = Inr []"
| "text_loop (Suc n) i f = rbind (f i) (\<lambda>t. rbind (text_loop n (i + 1) f) (\<lambda>ts. Inr (t @ ts)))"

definition nl :: "byte list" where
  "nl = [10]"

definition fmt_bool :: "bool \<Rightarrow> byte list" where
  "fmt_bool b = fmt_d (if b then 1 else 0)"

subsection \<open>The page table\<close>

definition print_ipt_entry :: "ipt_entry_t \<Rightarrow> byte list" where
  "print_ipt_entry entry =
     (let pd = ie_page_data entry in
      if \<not> pd_valid pd then
        ascii ''('' @ fmt_u (va_pid (pd_addr pd)) @ ascii '', '' @ fmt_u (va_page (pd_addr pd)) @ ascii '', '' @
        fmt_bool (pd_dirty pd) @ ascii '', '' @ fmt_bool (pd_referenced pd) @ ascii '', '' @
        fmt_d (ie_next entry) @ ascii '', '' @ fmt_d (ie_prev entry) @ ascii '')'' @ nl
      else ascii ''(free)'' @ nl)"

definition print_MMU_table :: "ipt_t \<Rightarrow> byte list res" where
  "print_MMU_table table =
     rbind (text_loop (nat (ipt_size table)) 0
       (\<lambda>i. rbind (arr_get (ipt_entries table) i) (\<lambda>e. Inr (print_ipt_entry e)))) (\<lambda>t.
     Inr (ascii ''NOTE'' @ nl @ ascii ''----'' @ nl @
       ascii ''entries will be printed as follows: (pid, page_num, dirty_bit, aging_reference_bit, next, prev)'' @ nl @
       ascii ''for free (unused) pages '' @ [34] @ ascii ''(free)'' @ [34] @ ascii '' will be printed'' @ nl @ t))"

definition print_registers :: "ipt_t \<Rightarrow> byte list res" where
  "print_registers ipt =
     text_loop (unat (word_of_int (ipt_size ipt) :: u32)) 0
       (\<lambda>i. rbind (arr_get (ipt_entries ipt) i) (\<lambda>e.
            Inr (ascii ''[Entry '' @ fmt_d i @ ascii ''] '' @ ascii ''0x'' @ fmt_x (unat (pd_page_age (ie_page_data e))) @ nl)))"

definition print_HAT :: "ipt_t \<Rightarrow> byte list res" where
  "print_HAT ipt =
     rbind (text_loop (nat (ipt_size ipt)) 0
       (\<lambda>i. rbind (arr_get (ipt_hat ipt) i) (\<lambda>h. Inr (fmt_3d i @ ascii ''|'' @ fmt_d (hat_ipt_idx h) @ nl)))) (\<lambda>t.
     Inr (nl @ ascii ''HAT Dump:'' @ nl @ ascii ''--------'' @ nl @ nl @ ascii ''idx|ipt_idx'' @ nl @ ascii ''--- -------'' @ nl @ t))"

subsection \<open>The main memory\<close>

definition print_BYTE_binary :: "byte \<Rightarrow> byte list" where
  "print_BYTE_binary b = map (\<lambda>i. if and (push_bit i 1) b \<noteq> 0 then 49 else 48) (rev [0..<8])"

definition print_BYTE_hexa :: "byte \<Rightarrow> byte list" where
  "print_BYTE_hexa b = ascii ''0x'' @ fmt_x (unat b) @ (if b = 0 then [32] else [])"

definition print_BYTE_int :: "byte \<Rightarrow> byte list" where
  "print_BYTE_int b = fmt_d (uint b)"

definition print_BYTE_char :: "byte \<Rightarrow> byte list" where
  "print_BYTE_char b = (if b = 0 then ascii ''-'' else [b])"

definition print_MM :: "mm_t \<Rightarrow> byte list res" where
  "print_MM mm =
     rbind (text_loop (nat (mm_npages mm)) 0
       (\<lambda>i. rbind (arr_get (mm_bytes mm) i) (\<lambda>b.
            Inr (print_BYTE_binary b @ ascii ''   '' @ print_BYTE_hexa b @ ascii ''   '' @ print_BYTE_char b @
                 ascii ''      '' @ print_BYTE_int b @ nl)))) (\<lambda>t.
     Inr (nl @ ascii ''Main Memory'' @ nl @ ascii ''-----------'' @ nl @ nl @ ascii ''DATA:'' @ nl @ nl @
       ascii ''Binary     Hex    Char   Integer'' @ nl @ ascii ''--------   ----   ----   -------'' @ nl @ t @
       nl @ ascii ''NUM OF PAGES: '' @ fmt_d (mm_npages mm) @ nl @ nl @
       ascii ''PAGE_SIZE: '' @ fmt_d (mm_page_size mm) @ nl @ nl))"

text \<open>
  \<open>fmt\<close> is the text of the quotient of the two counters as \<^verbatim>\<open>%f\<close> prints it. The conversion to
  \<^verbatim>\<open>float\<close> and the division round monotonically, so with \<^verbatim>\<open>hits\<close> between 0 and \<^verbatim>\<open>nrefs\<close> the quotient
  is between 0 and 1; \<open>0/0\<close> is not a number and compares as false.
\<close>

definition print_hit_rate :: "(int \<Rightarrow> int \<Rightarrow> byte list) \<Rightarrow> mmu_t \<Rightarrow> (byte list \<times> mmu_t) res" where
  "print_hit_rate fmt mmu =
     rbind (mmu_get_stats mmu) (\<lambda>(stats, mmu1).
     rbind (cassert (st_nrefs stats \<noteq> 0 \<and> st_hits stats \<le> st_nrefs stats)) (\<lambda>_.
     rbind (cassert (0 \<le> st_hits stats)) (\<lambda>_.
     Inr (ascii ''Hitrate is '' @ fmt (st_hits stats) (st_nrefs stats) @ nl, mmu1))))"

subsection \<open>The level of the logger\<close>

definition monitor_on :: "int \<Rightarrow> log_level_t \<Rightarrow> byte list \<times> log_level_t" where
  "monitor_on tid cur =
     (let cur1 = log_set_level lvInfo cur
      in (log_write tid cur1 ''util/app_util.c'' 207 ''monitor_on'' lvInfo (ascii ''Logger level was set to Info'' @ nl), cur1))"

definition monitor_off :: "int \<Rightarrow> log_level_t \<Rightarrow> byte list \<times> log_level_t" where
  "monitor_off tid cur =
     (log_write tid cur ''util/app_util.c'' 212 ''monitor_off'' lvInfo (ascii ''Logger level will now set to Error''),
      log_set_level lvError cur)"

definition debug_on :: "int \<Rightarrow> log_level_t \<Rightarrow> byte list \<times> log_level_t" where
  "debug_on tid cur =
     (let cur1 = log_set_level lvDebug cur
      in (log_write tid cur1 ''util/app_util.c'' 219 ''debug_on'' lvInfo (ascii ''Logger level was set to Debug'' @ nl), cur1))"

end
