(* ===== verification/Ui.thy ===== *)
theory Ui
  imports Print
begin

text \<open>
  \<^verbatim>\<open>vmsim/ui_app.c\<close>: the commands of the user, typed or read from a batch file. A handler gets the
  command and returns what the C function returns, with the new state of the program. Where the
  user interface waits, the threads of the processes run.
\<close>

subsection \<open>State\<close>

record ui_cmd_t =
  cmd_command :: "byte list"
  cmd_param :: "byte list"

record ui_t =
  ui_app :: app_data_t
  ui_level :: log_level_t

text \<open>
  What the surroundings answer: the files that can be read, whether a file can be written, the
  indeterminate offset of a local address, the allocator, \<^verbatim>\<open>pthread_create\<close>, the thread number, the
  text of a quotient, and what the other threads do while the user interface waits.
\<close>

record world_t =
  wo_file :: "byte list \<Rightarrow> byte list option"
  wo_fopen :: bool
  wo_off :: u32
  wo_oom :: "nat \<Rightarrow> bool"
  wo_start :: int
  wo_tid :: int
  wo_ratio :: "int \<Rightarrow> int \<Rightarrow> byte list"
  wo_others :: "sys_t \<Rightarrow> sys_t res"

definition max_cmd_len :: nat where
  "max_cmd_len = 14"

text \<open>\<^verbatim>\<open>FILENAME_MAX\<close>, as on Linux.\<close>

definition filename_max :: nat where
  "filename_max = 4096"

abbreviation ui_sys :: "ui_t \<Rightarrow> sys_t" where
  "ui_sys ui \<equiv> app_sys (ui_app ui)"

definition put_sys :: "sys_t \<Rightarrow> ui_t \<Rightarrow> ui_t" where
  "put_sys sys ui = ui\<lparr>ui_app := (ui_app ui)\<lparr>app_sys := sys\<rparr>\<rparr>"

definition ui_say :: "byte list \<Rightarrow> ui_t \<Rightarrow> ui_t" where
  "ui_say t ui = put_sys (say t (ui_sys ui)) ui"

subsection \<open>Reading a command\<close>

text \<open>
  Text without the newline at its end. The last character of an empty text is the one in front of it. In front of the
  member \<^verbatim>\<open>param\<close> of a command lies the last byte of the member \<^verbatim>\<open>command\<close>, which is always 0, as at most fourteen
  of the fifteen bytes are read into it; in front of \<^verbatim>\<open>command\<close> and of \<^verbatim>\<open>raw_cmd\<close> nothing belongs to the program.
\<close>

definition strip_param :: "byte list \<Rightarrow> byte list" where
  "strip_param s = (if s \<noteq> [] \<and> last s = 10 then butlast s else s)"

definition strip_newline :: "byte list \<Rightarrow> byte list res" where
  "strip_newline s = (if s = [] then Inl OutOfBounds else Inr (strip_param s))"

text \<open>
  The argument is what is left of the standard input. At its end nothing is read, and the members keep the zeros that
  \<^verbatim>\<open>memset\<close> has put there. No input makes the function fail.
\<close>

definition get_command :: "byte list \<Rightarrow> (ui_cmd_t \<times> byte list) res" where
  "get_command input =
     (let s = dropWhile isspace input;
          word = scan_word max_cmd_len s;
          rest = drop (length word) s
      in if rest \<noteq> [] \<and> hd rest = 10 then Inr (\<lparr>cmd_command = cstr word, cmd_param = []\<rparr>, tl rest)
         else case fgets filename_max (tl rest) of
             None \<Rightarrow> Inr (\<lparr>cmd_command = cstr word, cmd_param = []\<rparr>, [])
           | Some (line, rest') \<Rightarrow> Inr (\<lparr>cmd_command = cstr word, cmd_param = strip_param (cstr line)\<rparr>, rest'))"

subsection \<open>Processes\<close>

definition do_create_process :: "world_t \<Rightarrow> ui_cmd_t \<Rightarrow> ui_t \<Rightarrow> (bool \<times> ui_t) res" where
  "do_create_process w cmd ui =
     (if app_initialized (ui_app ui) then
        rbind (create_process (wo_off w) (wo_oom w) (ui_sys ui)) (\<lambda>(pid, sys).
        if pid < 0 then Inr (False, put_sys sys ui)
        else rbind (process_start (wo_start w) (sys_cont sys) (word_of_int pid)) (\<lambda>(err, cont).
             Inr (True, put_sys (sys\<lparr>sys_cont := cont\<rparr>) ui)))
      else Inr (False, ui))"

definition do_del_process :: "world_t \<Rightarrow> ui_cmd_t \<Rightarrow> ui_t \<Rightarrow> (bool \<times> ui_t) res" where
  "do_del_process w cmd ui =
     (if app_initialized (ui_app ui) then
        if cmd_param cmd \<noteq> [] then
          case scan_u (cmd_param cmd) of
            Some pid \<Rightarrow>
              rbind (del_process (wo_off w) (wo_fopen w) (ui_sys ui) pid) (\<lambda>(_, sys). Inr (True, put_sys sys ui))
          | None \<Rightarrow> Inr (False, ui_say (ascii ''Illegal argument'' @ nl) ui)
        else Inr (False, ui_say (ascii ''A proc_id argument is needed'' @ nl) ui)
      else Inr (False, ui))"

subsection \<open>Requests\<close>

text \<open>
  \<^verbatim>\<open>while (err > 0 && token != NULL && tok_count < n) ...\<close>: the numbers that were read and the
  tokens from the one that ended the loop on.
\<close>

primrec read_nums :: "nat \<Rightarrow> byte list list \<Rightarrow> u32 list \<times> byte list list" where
  "read_nums 0 ts = ([], ts)"
| "read_nums (Suc n) ts = (case ts of [] \<Rightarrow> ([], [])
     | t # us \<Rightarrow> (case scan_u t of None \<Rightarrow> ([], ts)
         | Some v \<Rightarrow> (let (vs, rest) = read_nums n us in (v # vs, rest))))"

text \<open>The end of a handler that has sent a request.\<close>

definition asked :: "ui_t \<Rightarrow> (errcode_t \<times> sys_t) res \<Rightarrow> (bool \<times> ui_t) res" where
  "asked ui r = rbind r (\<lambda>(err, sys). Inr (err = ecSuccess, put_sys sys ui))"

definition refuse :: "ui_t \<Rightarrow> string \<Rightarrow> (bool \<times> ui_t) res" where
  "refuse ui message = Inr (False, ui_say (ascii message @ nl) ui)"

definition do_read :: "ui_cmd_t \<Rightarrow> ui_t \<Rightarrow> (bool \<times> ui_t) res" where
  "do_read cmd ui =
     (if app_initialized (ui_app ui) then
        if cmd_param cmd \<noteq> [] then
          (case read_nums 3 (tokens (cmd_param cmd)) of
             ([a, pid, n], _) \<Rightarrow> asked ui (read_process (ui_sys ui) (sint a) (sint pid) (sint n))
           | _ \<Rightarrow> refuse ui ''Not enough or bad arguments. usage: read vAddr id amount'')
        else refuse ui ''Not enough arguments''
      else Inr (False, ui))"

definition do_loop_read :: "ui_cmd_t \<Rightarrow> ui_t \<Rightarrow> (bool \<times> ui_t) res" where
  "do_loop_read cmd ui =
     (if app_initialized (ui_app ui) then
        if cmd_param cmd \<noteq> [] then
          (case read_nums 4 (tokens (cmd_param cmd)) of
             ([a, pid, off, n], _) \<Rightarrow>
               asked ui (loop_read_process (ui_sys ui) (sint a) (sint pid) (sint off) (sint n))
           | _ \<Rightarrow> refuse ui ''Not enough or bad arguments. usage: loopRead vAddr id off amount'')
        else refuse ui ''Not enough arguments''
      else Inr (False, ui))"

definition do_read_to_file :: "ui_cmd_t \<Rightarrow> ui_t \<Rightarrow> (bool \<times> ui_t) res" where
  "do_read_to_file cmd ui =
     (if app_initialized (ui_app ui) then
        if cmd_param cmd \<noteq> [] then
          (case read_nums 3 (tokens (cmd_param cmd)) of
             ([a, pid, n], f # _) \<Rightarrow> asked ui (read_to_file_process (ui_sys ui) (sint a) (sint pid) (sint n) f)
           | ([a, pid, n], []) \<Rightarrow>
               refuse ui ''Not enough or bad arguments. usage: readToFile vAddr id amount filename''
           | _ \<Rightarrow> refuse ui ''Bad or not enough arguments. usage: readToFile vAddr id amount filename'')
        else refuse ui ''Not enough arguments''
      else Inr (False, ui))"

definition do_loop_read_to_file :: "ui_cmd_t \<Rightarrow> ui_t \<Rightarrow> (bool \<times> ui_t) res" where
  "do_loop_read_to_file cmd ui =
     (if app_initialized (ui_app ui) then
        if cmd_param cmd \<noteq> [] then
          (case read_nums 4 (tokens (cmd_param cmd)) of
             ([a, pid, off, n], f # _) \<Rightarrow>
               asked ui (loop_read_to_file_process (ui_sys ui) (sint a) (sint pid) (sint off) (sint n) f)
           | ([a, pid, off, n], []) \<Rightarrow>
               refuse ui ''Not enough or bad arguments. usage: loopReadToFile vAddr id off amount filename''
           | _ \<Rightarrow> refuse ui ''Bad or not enough arguments. usage: loopReadToFile vAddr id off amount filename'')
        else refuse ui ''Not enough or bad arguments. usage: loopReadToFile vAddr id off amount filename''
      else Inr (False, ui))"

definition do_write :: "ui_cmd_t \<Rightarrow> ui_t \<Rightarrow> (bool \<times> ui_t) res" where
  "do_write cmd ui =
     (if app_initialized (ui_app ui) then
        if cmd_param cmd \<noteq> [] then
          (case read_nums 2 (tokens (cmd_param cmd)) of
             ([a, pid], s # _) \<Rightarrow> asked ui (write_process (ui_sys ui) (sint a) (sint pid) s)
           | ([a, pid], []) \<Rightarrow> refuse ui ''Not enough or bad arguments. usage: write vAddr id s''
           | _ \<Rightarrow> refuse ui ''Bad or not enough arguments. usage: write vAddr id s'')
        else refuse ui ''Not enough or bad arguments. usage: write vAddr id s''
      else Inr (False, ui))"

text \<open>Two numbers, a token of one character, two more numbers.\<close>

definition do_loop_write :: "ui_cmd_t \<Rightarrow> ui_t \<Rightarrow> (bool \<times> ui_t) res" where
  "do_loop_write cmd ui =
     (if app_initialized (ui_app ui) then
        if cmd_param cmd \<noteq> [] then
          (case read_nums 2 (tokens (cmd_param cmd)) of
             ([a, pid], [c] # ts) \<Rightarrow>
               (case read_nums 2 ts of
                  ([off, n], _) \<Rightarrow> asked ui (loop_write_process (ui_sys ui) (sint a) (sint pid) c (sint off) (sint n))
                | _ \<Rightarrow> refuse ui ''Not enough or bad arguments. usage: loopWrite vAddr id c off amount'')
           | _ \<Rightarrow> refuse ui ''Not enough or bad arguments. usage: loopWrite vAddr id c off amount'')
        else refuse ui ''Not enough or bad arguments. usage: loopWrite vAddr id c off amount''
      else Inr (False, ui))"

subsection \<open>Dumps and switches\<close>

definition shown :: "ui_t \<Rightarrow> byte list res \<Rightarrow> (bool \<times> ui_t) res" where
  "shown ui r = rbind r (\<lambda>t. Inr (True, ui_say t ui))"

definition do_hit_rate :: "world_t \<Rightarrow> ui_t \<Rightarrow> (bool \<times> ui_t) res" where
  "do_hit_rate w ui =
     (if app_initialized (ui_app ui) then
        rbind (print_hit_rate (wo_ratio w) (vm_mmu (sys_vm (ui_sys ui)))) (\<lambda>(t, mmu).
        Inr (True, ui_say t (put_sys ((ui_sys ui)\<lparr>sys_vm := (sys_vm (ui_sys ui))\<lparr>vm_mmu := mmu\<rparr>\<rparr>) ui)))
      else Inr (False, ui))"

definition do_print_MM :: "ui_t \<Rightarrow> (bool \<times> ui_t) res" where
  "do_print_MM ui =
     (if app_initialized (ui_app ui) then shown ui (print_MM (mmu_mem (vm_mmu (sys_vm (ui_sys ui)))))
      else Inr (False, ui))"

definition do_print_MMU_table :: "ui_t \<Rightarrow> (bool \<times> ui_t) res" where
  "do_print_MMU_table ui =
     (if app_initialized (ui_app ui) then shown ui (print_MMU_table (mmu_mem_ipt (vm_mmu (sys_vm (ui_sys ui)))))
      else Inr (False, ui))"

definition do_print_registers :: "ui_t \<Rightarrow> (bool \<times> ui_t) res" where
  "do_print_registers ui =
     (if app_initialized (ui_app ui) then shown ui (print_registers (mmu_mem_ipt (vm_mmu (sys_vm (ui_sys ui)))))
      else Inr (False, ui))"

definition do_print_HAT :: "ui_t \<Rightarrow> (bool \<times> ui_t) res" where
  "do_print_HAT ui =
     (if app_initialized (ui_app ui) then shown ui (print_HAT (mmu_mem_ipt (vm_mmu (sys_vm (ui_sys ui)))))
      else Inr (False, ui))"

definition do_monitor :: "world_t \<Rightarrow> ui_t \<Rightarrow> bool \<times> ui_t" where
  "do_monitor w ui = (let (t, l) = monitor_on (wo_tid w) (ui_level ui) in (True, (ui_say t ui)\<lparr>ui_level := l\<rparr>))"

definition do_no_monitor :: "world_t \<Rightarrow> ui_t \<Rightarrow> bool \<times> ui_t" where
  "do_no_monitor w ui = (let (t, l) = monitor_off (wo_tid w) (ui_level ui) in (True, (ui_say t ui)\<lparr>ui_level := l\<rparr>))"

definition do_debug_mode :: "world_t \<Rightarrow> ui_t \<Rightarrow> bool \<times> ui_t" where
  "do_debug_mode w ui = (let (t, l) = debug_on (wo_tid w) (ui_level ui) in (True, (ui_say t ui)\<lparr>ui_level := l\<rparr>))"

subsection \<open>Batch files\<close>

text \<open>
  The command in a line. The parameters are what follows as many characters as the command has,
  and one more; they are copied into a buffer of \<^verbatim>\<open>FILENAME_MAX\<close> bytes.
\<close>

definition batch_command :: "byte list \<Rightarrow> ui_cmd_t res" where
  "batch_command line =
     rbind (strip_newline (cstr line)) (\<lambda>raw_cmd.
     let command = scan_word max_cmd_len raw_cmd
     in rbind (if raw_cmd \<noteq> command then
                 let raw_cmd_for = drop (length command + 1) raw_cmd
                 in if length raw_cmd_for \<ge> filename_max then Inl OutOfBounds else Inr (strip_param raw_cmd_for)
               else Inr []) (\<lambda>param.
        rbind (strip_newline command) (\<lambda>command'. Inr \<lparr>cmd_command = command', cmd_param = param\<rparr>)))"

text \<open>Every round takes a byte of the file at least.\<close>

primrec batch_loop :: "nat \<Rightarrow> (ui_cmd_t \<Rightarrow> ui_t \<Rightarrow> (bool \<times> ui_t) res) \<Rightarrow> byte list \<Rightarrow> ui_t \<Rightarrow> (bool \<times> ui_t) res" where
  "batch_loop 0 handler f ui = Inl Diverges"
| "batch_loop (Suc k) handler f ui =
     (case fgets (max_cmd_len + 1 + filename_max) f of
        None \<Rightarrow> Inr (True, ui)
      | Some (line, f') \<Rightarrow>
          rbind (batch_command line) (\<lambda>cmd.
          rbind (handler cmd ui) (\<lambda>(not_done, ui1).
          if not_done then batch_loop k handler f' ui1 else Inr (False, ui1))))"

definition do_batch_file :: "(ui_cmd_t \<Rightarrow> ui_t \<Rightarrow> (bool \<times> ui_t) res) \<Rightarrow> world_t \<Rightarrow> ui_cmd_t \<Rightarrow> ui_t \<Rightarrow> (bool \<times> ui_t) res" where
  "do_batch_file handler w cmd ui =
     (if app_initialized (ui_app ui) then
        case wo_file w (cmd_param cmd) of
          None \<Rightarrow> Inr (True, ui_say (ascii ''Can'' @ [39] @ ascii ''t open the file specified: '' @ cmd_param cmd @ nl) ui)
        | Some f \<Rightarrow> batch_loop (Suc (length f)) handler f ui
      else Inr (False, ui))"

subsection \<open>The handler\<close>

definition ui_signal :: "ui_t \<Rightarrow> ui_t res" where
  "ui_signal ui = rbind (signal_job_done (sys_job (ui_sys ui))) (\<lambda>j. Inr (put_sys ((ui_sys ui)\<lparr>sys_job := j\<rparr>) ui))"

definition run_others :: "world_t \<Rightarrow> ui_t \<Rightarrow> ui_t res" where
  "run_others w ui = rbind (wo_others w (ui_sys ui)) (\<lambda>sys. Inr (put_sys sys ui))"

definition ui_wait :: "world_t \<Rightarrow> ui_t \<Rightarrow> ui_t res" where
  "ui_wait w ui =
     rbind (run_others w ui) (\<lambda>ui1.
     rbind (wait_job_done (sys_job (ui_sys ui1))) (\<lambda>j. Inr (put_sys ((ui_sys ui1)\<lparr>sys_job := j\<rparr>) ui1)))"

text \<open>The command itself: \<^verbatim>\<open>to_return\<close>, \<^verbatim>\<open>async_wait\<close>, \<^verbatim>\<open>ret_cmd\<close> and the state.\<close>

definition signalled :: "(bool \<times> ui_t) res \<Rightarrow> (bool \<times> bool \<times> bool \<times> ui_t) res" where
  "signalled r = rbind r (\<lambda>(ret_cmd, ui). rbind (ui_signal ui) (\<lambda>ui1. Inr (True, True, ret_cmd, ui1)))"

definition run_command :: "(ui_cmd_t \<Rightarrow> ui_t \<Rightarrow> (bool \<times> ui_t) res) \<Rightarrow> world_t \<Rightarrow> ui_cmd_t \<Rightarrow> ui_t \<Rightarrow>
    (bool \<times> bool \<times> bool \<times> ui_t) res" where
  "run_command handler w cmd ui =
     (let c = cmd_command cmd in
      if c = ascii ''exit'' then Inr (False, False, True, ui)
      else if c = ascii ''createProcess'' then rbind (do_create_process w cmd ui) (\<lambda>(r, ui1). Inr (True, False, r, ui1))
      else if c = ascii ''delProcess'' then rbind (do_del_process w cmd ui) (\<lambda>(r, ui1). Inr (True, False, r, ui1))
      else if c = ascii ''read'' then rbind (do_read cmd ui) (\<lambda>(r, ui1). Inr (True, True, r, ui1))
      else if c = ascii ''loopRead'' then rbind (do_loop_read cmd ui) (\<lambda>(r, ui1). Inr (True, True, r, ui1))
      else if c = ascii ''readToFile'' then rbind (do_read_to_file cmd ui) (\<lambda>(r, ui1). Inr (True, True, r, ui1))
      else if c = ascii ''loopReadToFile'' then rbind (do_loop_read_to_file cmd ui) (\<lambda>(r, ui1). Inr (True, True, r, ui1))
      else if c = ascii ''write'' then rbind (do_write cmd ui) (\<lambda>(r, ui1). Inr (True, True, r, ui1))
      else if c = ascii ''loopWrite'' then rbind (do_loop_write cmd ui) (\<lambda>(r, ui1). Inr (True, True, r, ui1))
      else if c = ascii ''hitRate'' then signalled (do_hit_rate w ui)
      else if c = ascii ''printMM'' then signalled (do_print_MM ui)
      else if c = ascii ''printMMUTable'' then signalled (do_print_MMU_table ui)
      else if c = ascii ''printRegisters'' then signalled (do_print_registers ui)
      else if c = ascii ''printHAT'' then signalled (do_print_HAT ui)
      else if c = ascii ''monitor'' then signalled (Inr (do_monitor w ui))
      else if c = ascii ''noMonitor'' then signalled (Inr (do_no_monitor w ui))
      else if c = ascii ''debug'' then signalled (Inr (do_debug_mode w ui))
      else if c = ascii ''batchFile'' then rbind (do_batch_file handler w cmd ui) (\<lambda>(r, ui1). Inr (r, True, False, ui1))
      else Inr (True, True, False, ui_say (ascii ''Wrong input, please type again'' @ nl) ui))"

text \<open>\<open>k\<close> bounds how deep batch files run batch files.\<close>

primrec command_handler :: "nat \<Rightarrow> world_t \<Rightarrow> ui_cmd_t \<Rightarrow> ui_t \<Rightarrow> (bool \<times> ui_t) res" where
  "command_handler 0 w cmd ui = Inl Diverges"
| "command_handler (Suc k) w cmd ui =
     rbind (run_others w ui) (\<lambda>ui0.
     rbind (run_command (\<lambda>c u. command_handler k w c u) w cmd ui0) (\<lambda>(to_return, async_wait, ret_cmd, ui1).
     rbind (if \<not> ret_cmd then ui_signal ui1 else Inr ui1) (\<lambda>ui2.
     rbind (if async_wait then ui_wait w ui2 else Inr ui2) (\<lambda>ui3. Inr (to_return, ui3)))))"

subsection \<open>The program\<close>

text \<open>
  \<^verbatim>\<open>do ... while (!done)\<close>. As long as there is input every round takes a byte of it; at its end the commands are empty and
  the loop never ends by itself (\<open>Ui_Fuel\<close>). \<open>n\<close> bounds the rounds.
\<close>

primrec main_loop :: "nat \<Rightarrow> nat \<Rightarrow> world_t \<Rightarrow> byte list \<Rightarrow> ui_t \<Rightarrow> ui_t res" where
  "main_loop 0 k w input ui = Inl Diverges"
| "main_loop (Suc n) k w input ui =
     rbind (get_command input) (\<lambda>(cmd, input').
     rbind (command_handler k w cmd (ui_say (ascii ''>'') ui)) (\<lambda>(cmd_ret, ui1).
     if cmd_ret then main_loop n k w input' ui1 else Inr ui1))"

text \<open>\<open>app\<close> is the zeroed structure on the stack. What is left of the container comes with the result.\<close>

definition app_main :: "int \<Rightarrow> byte list \<Rightarrow> env_t \<Rightarrow> byte list option \<Rightarrow> config_t \<Rightarrow> nat \<Rightarrow> world_t \<Rightarrow> byte list \<Rightarrow> app_data_t \<Rightarrow>
    (int \<times> (byte list option \<times> byte list) list \<times> proc_cont_t option) res" where
  "app_main argc file_name env file junk k w input app =
     (if argc \<noteq> 2 then
        Inr (- 1, sys_out (app_sys app) @ [(None, nl @ ascii ''Input error'' @ nl @ ascii ''-----------'' @ nl @ ascii ''Usage: sim filename'' @ nl @
                        ascii ''Shutting down...'' @ nl @ nl)], None)
      else
        rbind (load_app_data env file_name file junk app) (\<lambda>(ok, app1).
        if \<not> ok then Inr (- 1, sys_out (app_sys app1), None)
        else
          let ui = \<lparr>ui_app = app1\<lparr>app_sys := (app_sys app1)\<lparr>sys_job := init_job_done\<rparr>\<rparr>, ui_level = lvError\<rparr>
          in rbind (main_loop (Suc (length input)) k w input ui) (\<lambda>ui1.
             rbind (if app_initialized (ui_app ui1) then free_app_data (wo_off w) (wo_fopen w) (ui_app ui1)
                    else Inr (None, sys_out (ui_sys ui1))) (\<lambda>(c, out).
             rbind (destroy_job_done (sys_job (ui_sys ui1))) (\<lambda>_.
             Inr (0, out @ [(None, ascii ''VMSim has finished. Have a nice day! =)'' @ nl)], c))))))"

text \<open>\<^verbatim>\<open>main\<close> prints two arguments, whether or not they are there, and drops what \<^verbatim>\<open>app_main\<close> returns.\<close>

definition greeting :: "byte list \<Rightarrow> byte list \<Rightarrow> byte list" where
  "greeting program file_name = ascii ''Program name: '' @ program @ nl @ ascii ''File name: '' @ file_name @ nl"

definition sim_main :: "byte list list \<Rightarrow> env_t \<Rightarrow> byte list option \<Rightarrow> config_t \<Rightarrow> nat \<Rightarrow> world_t \<Rightarrow> byte list \<Rightarrow> app_data_t \<Rightarrow>
    (int \<times> (byte list option \<times> byte list) list \<times> proc_cont_t option) res" where
  "sim_main argv env file junk k w input app =
     (case argv of
        program # file_name # _ \<Rightarrow>
          rbind (app_main (int (length argv)) file_name env file junk k w input
                   (app\<lparr>app_sys := say (greeting program file_name) (app_sys app)\<rparr>)) (\<lambda>(_, out, c).
          Inr (0, out, c))
      | _ \<Rightarrow> Inl NullDeref)"

end
