(* ===== verification/Linear_Memory.thy ===== *)
theory Linear_Memory
  imports Startup
begin

text \<open>
  The memory of a process as the bytes \<open>0, 1, 2, \<dots>\<close> it addresses: what the loops of
  \<^verbatim>\<open>sim_read\<close>, \<^verbatim>\<open>sim_write\<close> and \<^verbatim>\<open>sim_loop_write\<close> (\<^verbatim>\<open>util/pcb_util.c\<close>) do to it.
\<close>

subsection \<open>Cells\<close>

definition lin_addr :: "nat \<Rightarrow> procid_t \<Rightarrow> nat \<Rightarrow> virt_addr_t" where
  "lin_addr ps pid a = \<lparr>va_pid = pid, va_page = word_of_int (int (a div ps)), va_offset = word_of_int (int (a mod ps))\<rparr>"

text \<open>The contents of byte \<open>a\<close> of a process; page numbers have 32 bits.\<close>

definition cells :: "vm_t \<Rightarrow> procid_t \<times> nat \<rightharpoonup> byte" where
  "cells vm = (\<lambda>(pid, a). if a div vm_psize vm < 2 ^ 32
     then map_option (\<lambda>pg. pg ! (a mod vm_psize vm)) (vm_view vm (vkey (lin_addr (vm_psize vm) pid a))) else None)"

text \<open>The process owns its first \<open>b\<close> pages.\<close>

definition owns :: "vm_t \<Rightarrow> procid_t \<Rightarrow> nat \<Rightarrow> bool" where
  "owns vm pid b \<longleftrightarrow> (\<forall>page. unat page < b \<longrightarrow> vm_bk vm (pid, page) \<noteq> None)"

text \<open>What every access keeps.\<close>

definition vm_kept :: "vm_t \<Rightarrow> vm_t \<Rightarrow> bool" where
  "vm_kept vm vm' \<longleftrightarrow> vm_inv vm' \<and> vm_bk vm' = vm_bk vm \<and> vm_psize vm' = vm_psize vm \<and>
     disk_shape (mmu_disk (vm_mmu vm')) = disk_shape (mmu_disk (vm_mmu vm))"

lemma vm_kept_refl: "vm_inv vm \<Longrightarrow> vm_kept vm vm"
  by (simp add: vm_kept_def)

lemma vm_kept_trans: "vm_kept a b \<Longrightarrow> vm_kept b c \<Longrightarrow> vm_kept a c"
  by (simp add: vm_kept_def)

lemma vm_kept_owns: "vm_kept vm vm' \<Longrightarrow> owns vm' pid b = owns vm pid b"
  by (simp add: vm_kept_def owns_def)

lemma access_kept: "access vm k vm' \<Longrightarrow> vm_kept vm vm'"
  by (simp add: access_def vm_kept_def)

lemma vm_psize_bound: "vm_inv vm \<Longrightarrow> 0 < vm_psize vm \<and> vm_psize vm < 2 ^ 31 \<and> mm_page_size (mmu_mem (vm_mmu vm)) = int (vm_psize vm)"
proof -
  assume "vm_inv vm"
  then have "mm_inv (mmu_mem (vm_mmu vm))" using mmu_invD(1) by (simp add: vm_inv_def)
  then show ?thesis using mm_bound [of "mmu_mem (vm_mmu vm)"] by (simp add: mm_inv_def)
qed

lemma lin_addr_parts:
  assumes "a div ps < 2 ^ 32" "0 < ps" "ps < 2 ^ 31"
  shows "unat (va_page (lin_addr ps pid a)) = a div ps" "unat (va_offset (lin_addr ps pid a)) = a mod ps"
    "va_pid (lin_addr ps pid a) = pid"
proof -
  have "a mod ps < 2 ^ 32" using mod_less_divisor [OF assms(2), of a] assms(3) by simp
  then show "unat (va_page (lin_addr ps pid a)) = a div ps" "unat (va_offset (lin_addr ps pid a)) = a mod ps"
    using assms(1) unat_small by (simp_all add: lin_addr_def)
qed (simp add: lin_addr_def)

lemma lin_addr_key_inj:
  assumes "a div ps < 2 ^ 32" "c div ps < 2 ^ 32" "0 < ps" "ps < 2 ^ 31"
  shows "vkey (lin_addr ps p a) = vkey (lin_addr ps q c) \<longleftrightarrow> p = q \<and> a div ps = c div ps"
  using lin_addr_parts [OF assms(1,3,4), of p] lin_addr_parts [OF assms(2,3,4), of q]
  by (auto simp: vkey_def) (metis word_unat_eq_iff)

text \<open>Stepping over the cells.\<close>

lemma lin_addr_advance:
  assumes "0 < ps" "ps < 2 ^ 31" "n < 2 ^ 31"
  shows "advance_virt_addr (lin_addr ps pid a) (int n) (int ps) = Inr (lin_addr ps pid (a + n))"
proof -
  have m: "a mod ps < ps" using assms(1) by simp
  then have o: "unat (va_offset (lin_addr ps pid a)) = a mod ps"
    using assms(2) unat_small [of "a mod ps"] by (simp add: lin_addr_def)
  have "(a + n) div ps = a div ps + (a mod ps + n) div ps"
    using div_mult_self3 [of ps "a div ps" "a mod ps + n"] assms(1) by (simp add: add.assoc [symmetric])
  then have "(word_of_int (int ((a + n) div ps)) :: u32) = word_of_int (int (a div ps)) + word_of_int (int ((a mod ps + n) div ps))"
    by (simp only: of_nat_add wi_hom_add)
  moreover have "(a mod ps + n) mod ps = (a + n) mod ps" by (simp add: mod_add_left_eq)
  ultimately show ?thesis
    using advance_virt_addr_ok [OF assms(1,2) _ assms(3), of "lin_addr ps pid a"] m o by (simp add: lin_addr_def)
qed

subsection \<open>One byte\<close>

lemma map_le_Some: "A \<subseteq>\<^sub>m B \<Longrightarrow> A k = Some v \<Longrightarrow> B k = Some v"
  by (metis domI map_le_def)

lemma owned_page:
  assumes "vm_inv vm" "owns vm pid b" "a < b * vm_psize vm" "b < 2 ^ 31"
  obtains pg where "page_of (vm_mmu vm) (vkey (lin_addr (vm_psize vm) pid a)) = Some pg" "length pg = vm_psize vm"
    "a div vm_psize vm < 2 ^ 32"
proof -
  let ?ps = "vm_psize vm"
  have d: "a div ?ps < b" using assms(3) by (simp add: less_mult_imp_div_less)
  then have lt: "a div ?ps < 2 ^ 32" using assms(4) by simp
  have "unat (va_page (lin_addr ?ps pid a)) < b"
    using lin_addr_parts(1) [OF lt, of pid] vm_psize_bound [OF assms(1)] d by simp
  then obtain p where "vm_bk vm (vkey (lin_addr ?ps pid a)) = Some p"
    using assms(2) by (auto simp: owns_def vkey_def lin_addr_def)
  then obtain pg where pg: "page_of (vm_mmu vm) (vkey (lin_addr ?ps pid a)) = Some pg" by (simp add: page_of_def)
  moreover have "length pg = ?ps" using page_of_length [OF _ pg] assms(1) by (simp add: vm_inv_def)
  ultimately show thesis using that lt by blast
qed

lemma cells_le:
  assumes "vm_psize vm' = vm_psize vm" "vm_view vm \<subseteq>\<^sub>m vm_view vm'"
  shows "cells vm \<subseteq>\<^sub>m cells vm'"
proof (unfold map_le_def, intro ballI)
  fix x assume "x \<in> dom (cells vm)"
  then obtain p a pg where "x = (p, a)" "a div vm_psize vm < 2 ^ 32"
      "vm_view vm (vkey (lin_addr (vm_psize vm) p a)) = Some pg"
    by (cases x) (auto simp: cells_def dom_def split: if_splits)
  moreover from this(3) assms(2) have "vm_view vm' (vkey (lin_addr (vm_psize vm) p a)) = Some pg"
    by (metis map_le_def domI)
  ultimately show "cells vm x = cells vm' x" by (simp add: cells_def assms(1))
qed

lemma read_cell:
  assumes "vm_inv vm" "owns vm pid b" "a < b * vm_psize vm" "b < 2 ^ 31"
  obtains x vm' where "mmu_read vm (lin_addr (vm_psize vm) pid a) 1 = Inr (ecSuccess, [x], vm')" "vm_kept vm vm'"
    "cells vm \<subseteq>\<^sub>m cells vm'" "\<And>y. cells vm (pid, a) = Some y \<Longrightarrow> x = y"
proof -
  let ?ps = "vm_psize vm" let ?a = "lin_addr ?ps pid a"
  obtain pg where pg: "page_of (vm_mmu vm) (vkey ?a) = Some pg" "length pg = ?ps" "a div ?ps < 2 ^ 32"
    by (rule owned_page [OF assms])
  note P = vm_psize_bound [OF assms(1)]
  have o: "unat (va_offset ?a) = a mod ?ps" using lin_addr_parts(2) [OF pg(3)] P by blast
  have lt: "a mod ?ps < ?ps" using P by simp
  have "unat (va_offset ?a) + unat (1 :: u32) \<le> ?ps" using o lt by simp
  from mmu_read_ok [OF assms(1) pg(1) this] obtain vm' where
    vm': "mmu_read vm ?a 1 = Inr (ecSuccess, take 1 (drop (a mod ?ps) pg), vm')" "access vm (vkey ?a) vm'"
      "vm_view vm \<subseteq>\<^sub>m vm_view vm'"
    using o by auto
  have one: "take 1 (drop (a mod ?ps) pg) = [pg ! (a mod ?ps)]"
    using lt pg(2) by (simp add: take_Suc_conv_app_nth hd_drop_conv_nth take_Suc)
  have "pg ! (a mod ?ps) = y" if "cells vm (pid, a) = Some y" for y
    using that pg(1) vmem_page_of [of "vm_mmu vm" "vkey ?a"] by (auto simp: cells_def split: if_splits)
  moreover have "cells vm \<subseteq>\<^sub>m cells vm'"
    by (rule cells_le) (use vm' in \<open>simp_all add: access_def\<close>)
  ultimately show thesis using that vm'(1) access_kept [OF vm'(2)] unfolding one by blast
qed

lemma write_cell:
  assumes "vm_inv vm" "owns vm pid b" "a < b * vm_psize vm" "b < 2 ^ 31"
  obtains vm' where "mmu_write vm (lin_addr (vm_psize vm) pid a) 1 [x] = Inr (ecSuccess, vm')" "vm_kept vm vm'"
    "(cells vm)((pid, a) \<mapsto> x) \<subseteq>\<^sub>m cells vm'"
proof -
  let ?ps = "vm_psize vm" let ?a = "lin_addr ?ps pid a"
  obtain pg where pg: "page_of (vm_mmu vm) (vkey ?a) = Some pg" "length pg = ?ps" "a div ?ps < 2 ^ 32"
    by (rule owned_page [OF assms])
  note P = vm_psize_bound [OF assms(1)]
  have o: "unat (va_offset ?a) = a mod ?ps" using lin_addr_parts(2) [OF pg(3)] P by blast
  have lt: "a mod ?ps < ?ps" using P by simp
  have fit: "unat (va_offset ?a) + unat (1 :: u32) \<le> ?ps" using o lt by simp
  let ?pg = "overwrite pg (a mod ?ps) [x]"
  obtain vm' where vm': "mmu_write vm ?a 1 [x] = Inr (ecSuccess, vm')" "access vm (vkey ?a) vm'"
      "(vm_view vm)(vkey ?a \<mapsto> ?pg) \<subseteq>\<^sub>m vm_view vm'"
    using mmu_write_ok [OF assms(1) pg(1) fit, of "[x]"] o by auto
  have ps: "vm_psize vm' = ?ps" using vm'(2) by (simp add: access_def)
  have new: "vm_view vm' (vkey ?a) = Some ?pg" by (rule map_le_updD [OF vm'(3)])
  have "cells vm' k = ((cells vm)((pid, a) \<mapsto> x)) k" if k: "((cells vm)((pid, a) \<mapsto> x)) k \<noteq> None" for k
  proof (cases "k = (pid, a)")
    case True
    then show ?thesis using new pg lt by (simp add: cells_def ps nth_overwrite)
  next
    case False
    obtain q c where kk: "k = (q, c)" by (cases k)
    with k False obtain pg' where c: "c div ?ps < 2 ^ 32" "vm_view vm (vkey (lin_addr ?ps q c)) = Some pg'"
      by (auto simp: cells_def split: if_splits)
    show ?thesis
    proof (cases "vkey (lin_addr ?ps q c) = vkey ?a")
      case True
      then have same: "q = pid" "c div ?ps = a div ?ps" using lin_addr_key_inj [OF c(1) pg(3)] P by auto
      then have ne: "c mod ?ps \<noteq> a mod ?ps" using False kk by (metis div_mult_mod_eq)
      have "pg' = pg" using vmem_page_of [OF c(2)] pg(1) True by simp
      moreover have "c mod ?ps < ?ps" "\<not> (a mod ?ps \<le> c mod ?ps \<and> c mod ?ps < a mod ?ps + 1)" using P ne by auto
      ultimately have "?pg ! (c mod ?ps) = pg' ! (c mod ?ps)"
        using nth_overwrite [of "a mod ?ps" "[x]" pg "c mod ?ps"] pg(2) lt by auto
      then show ?thesis using False kk c True new by (auto simp: cells_def ps)
    next
      case neq: False
      have "vm_view vm' (vkey (lin_addr ?ps q c)) = Some pg'"
        by (rule map_le_Some [OF vm'(3)]) (use c(2) neq in simp)
      then show ?thesis using False kk c by (auto simp: cells_def ps)
    qed
  qed
  then have "(cells vm)((pid, a) \<mapsto> x) \<subseteq>\<^sub>m cells vm'" unfolding map_le_def by (metis domD option.distinct(1))
  then show thesis using that vm'(1) access_kept [OF vm'(2)] by blast
qed

subsection \<open>The loops\<close>

text \<open>The bytes \<open>s\<close> at address \<open>a\<close> and up.\<close>

definition text_at :: "procid_t \<Rightarrow> nat \<Rightarrow> byte list \<Rightarrow> procid_t \<times> nat \<rightharpoonup> byte" where
  "text_at pid a s = (\<lambda>(q, c). if q = pid \<and> a \<le> c \<and> c < a + length s then Some (s ! (c - a)) else None)"

text \<open>The byte \<open>x\<close> at \<open>n\<close> addresses that are \<open>off\<close> apart.\<close>

definition fill_at :: "procid_t \<Rightarrow> nat \<Rightarrow> byte \<Rightarrow> nat \<Rightarrow> nat \<Rightarrow> procid_t \<times> nat \<rightharpoonup> byte" where
  "fill_at pid a x off n = (\<lambda>(q, c). if q = pid \<and> (\<exists>i < n. c = a + i * off) then Some x else None)"

lemma text_at_Nil [simp]: "text_at pid a [] = Map.empty"
  by (auto simp: text_at_def fun_eq_iff)

lemma text_at_Cons: "C ++ text_at pid a (x # s) = C((pid, a) \<mapsto> x) ++ text_at pid (Suc a) s"
proof
  fix k :: "procid_t \<times> nat"
  obtain q c where "k = (q, c)" by (cases k)
  then show "(C ++ text_at pid a (x # s)) k = (C((pid, a) \<mapsto> x) ++ text_at pid (Suc a) s) k"
    by (cases "c = a") (auto simp: text_at_def map_add_def nth_Cons' Suc_le_eq split: option.splits)
qed

lemma fill_at_0 [simp]: "fill_at pid a x off 0 = Map.empty"
  by (auto simp: fill_at_def fun_eq_iff)

lemma fill_at_Suc: "C ++ fill_at pid a x off (Suc n) = C((pid, a) \<mapsto> x) ++ fill_at pid (a + off) x off n"
proof
  fix k :: "procid_t \<times> nat"
  obtain q c where k: "k = (q, c)" by (cases k)
  have "(\<exists>i < Suc n. c = a + i * off) \<longleftrightarrow> c = a \<or> (\<exists>i < n. c = a + off + i * off)"
    by (subst Ex_less_Suc2) (simp add: add.assoc)
  then show "(C ++ fill_at pid a x off (Suc n)) k = (C((pid, a) \<mapsto> x) ++ fill_at pid (a + off) x off n) k"
    by (auto simp: k fill_at_def map_add_def split: option.splits)
qed

lemma map_add_le_left: "A \<subseteq>\<^sub>m B \<Longrightarrow> A ++ C \<subseteq>\<^sub>m B ++ C"
  by (auto simp: map_le_def map_add_def split: option.splits)

lemma write_loop_ok:
  assumes "vm_inv vm" "owns vm pid b" "b < 2 ^ 31" "n \<le> length s" "a + n \<le> b * vm_psize vm"
  shows "\<exists>vm'. sim_write_loop n vm (lin_addr (vm_psize vm) pid a) s (int (vm_psize vm)) = Inr (ecSuccess, vm') \<and>
           vm_kept vm vm' \<and> cells vm ++ text_at pid a (take n s) \<subseteq>\<^sub>m cells vm'"
  using assms(1,2,4,5)
proof (induction n arbitrary: vm a s)
  case 0
  then show ?case by (simp add: vm_kept_refl)
next
  case (Suc n)
  let ?ps = "vm_psize vm"
  obtain x s' where s: "s = x # s'" using Suc.prems(3) by (cases s) auto
  have "a < b * ?ps" using Suc.prems(4) by simp
  from write_cell [OF Suc.prems(1,2) this assms(3), of x] obtain vm1 where
    vm1: "mmu_write vm (lin_addr ?ps pid a) 1 [x] = Inr (ecSuccess, vm1)" "vm_kept vm vm1"
      "(cells vm)((pid, a) \<mapsto> x) \<subseteq>\<^sub>m cells vm1" by blast
  have ps: "vm_psize vm1 = ?ps" "vm_inv vm1" using vm1(2) by (simp_all add: vm_kept_def)
  have adv: "advance_virt_addr (lin_addr ?ps pid a) 1 (int ?ps) = Inr (lin_addr ?ps pid (a + 1))"
    using lin_addr_advance [of ?ps 1] vm_psize_bound [OF Suc.prems(1)] by simp
  obtain vm2 where vm2: "sim_write_loop n vm1 (lin_addr ?ps pid (Suc a)) s' (int ?ps) = Inr (ecSuccess, vm2)"
      "vm_kept vm1 vm2" "cells vm1 ++ text_at pid (Suc a) (take n s') \<subseteq>\<^sub>m cells vm2"
    using Suc.IH [OF ps(2), of s' "Suc a"] Suc.prems(2-4) vm_kept_owns [OF vm1(2)] ps(1) s by auto
  have "cells vm ++ text_at pid a (take (Suc n) s) \<subseteq>\<^sub>m cells vm1 ++ text_at pid (Suc a) (take n s')"
    unfolding s take_Suc_Cons text_at_Cons by (rule map_add_le_left [OF vm1(3)])
  then have "cells vm ++ text_at pid a (take (Suc n) s) \<subseteq>\<^sub>m cells vm2" using vm2(3) by (rule map_le_trans)
  then show ?case using vm1(1) vm2(1) adv vm_kept_trans [OF vm1(2) vm2(2)] s by simp
qed

lemma loop_write_ok:
  assumes "vm_inv vm" "owns vm pid b" "b < 2 ^ 31" "off < 2 ^ 31" "n = 0 \<or> a + (n - 1) * off < b * vm_psize vm"
  shows "\<exists>vm'. sim_loop_write_loop n vm (lin_addr (vm_psize vm) pid a) x (int off) (int (vm_psize vm)) = Inr (ecSuccess, vm') \<and>
           vm_kept vm vm' \<and> cells vm ++ fill_at pid a x off n \<subseteq>\<^sub>m cells vm'"
  using assms(1,2,5)
proof (induction n arbitrary: vm a)
  case 0
  then show ?case by (simp add: vm_kept_refl)
next
  case (Suc n)
  let ?ps = "vm_psize vm"
  have "a < b * ?ps" using Suc.prems(3) by simp
  from write_cell [OF Suc.prems(1,2) this assms(3), of x] obtain vm1 where
    vm1: "mmu_write vm (lin_addr ?ps pid a) 1 [x] = Inr (ecSuccess, vm1)" "vm_kept vm vm1"
      "(cells vm)((pid, a) \<mapsto> x) \<subseteq>\<^sub>m cells vm1" by blast
  have ps: "vm_psize vm1 = ?ps" "vm_inv vm1" using vm1(2) by (simp_all add: vm_kept_def)
  have adv: "advance_virt_addr (lin_addr ?ps pid a) (int off) (int ?ps) = Inr (lin_addr ?ps pid (a + off))"
    using lin_addr_advance [of ?ps off] vm_psize_bound [OF Suc.prems(1)] assms(4) by simp
  have "n = 0 \<or> a + off + (n - 1) * off < b * vm_psize vm1"
    using Suc.prems(3) ps(1) by (cases n) (simp_all add: add.assoc)
  from Suc.IH [OF ps(2) _ this] obtain vm2 where
    vm2: "sim_loop_write_loop n vm1 (lin_addr ?ps pid (a + off)) x (int off) (int ?ps) = Inr (ecSuccess, vm2)"
      "vm_kept vm1 vm2" "cells vm1 ++ fill_at pid (a + off) x off n \<subseteq>\<^sub>m cells vm2"
    using Suc.prems(2) vm_kept_owns [OF vm1(2)] ps(1) by auto
  have "cells vm ++ fill_at pid a x off (Suc n) \<subseteq>\<^sub>m cells vm1 ++ fill_at pid (a + off) x off n"
    unfolding fill_at_Suc by (rule map_add_le_left [OF vm1(3)])
  then have "cells vm ++ fill_at pid a x off (Suc n) \<subseteq>\<^sub>m cells vm2" using vm2(3) by (rule map_le_trans)
  then show ?case using vm1(1) vm2(1) adv vm_kept_trans [OF vm1(2) vm2(2)] by simp
qed

lemma read_loop_ok:
  assumes "vm_inv vm" "owns vm pid b" "b < 2 ^ 31" "off < 2 ^ 31" "n = 0 \<or> a + (n - 1) * off < b * vm_psize vm"
  shows "\<exists>bs vm'. sim_read_loop n vm (lin_addr (vm_psize vm) pid a) (int off) (int (vm_psize vm)) = Inr (ecSuccess, bs, vm') \<and>
           vm_kept vm vm' \<and> cells vm \<subseteq>\<^sub>m cells vm' \<and> length bs = n \<and>
           (\<forall>i < n. \<forall>x. cells vm (pid, a + i * off) = Some x \<longrightarrow> bs ! i = x)"
  using assms(1,2,5)
proof (induction n arbitrary: vm a)
  case 0
  then show ?case by (simp add: vm_kept_refl)
next
  case (Suc n)
  let ?ps = "vm_psize vm"
  have "a < b * ?ps" using Suc.prems(3) by simp
  from read_cell [OF Suc.prems(1,2) this assms(3)] obtain y vm1 where
    vm1: "mmu_read vm (lin_addr ?ps pid a) 1 = Inr (ecSuccess, [y], vm1)" "vm_kept vm vm1"
      "cells vm \<subseteq>\<^sub>m cells vm1" "\<And>x. cells vm (pid, a) = Some x \<Longrightarrow> y = x" by blast
  have ps: "vm_psize vm1 = ?ps" "vm_inv vm1" using vm1(2) by (simp_all add: vm_kept_def)
  have adv: "advance_virt_addr (lin_addr ?ps pid a) (int off) (int ?ps) = Inr (lin_addr ?ps pid (a + off))"
    using lin_addr_advance [of ?ps off] vm_psize_bound [OF Suc.prems(1)] assms(4) by simp
  have "n = 0 \<or> a + off + (n - 1) * off < b * vm_psize vm1"
    using Suc.prems(3) ps(1) by (cases n) (simp_all add: add.assoc)
  from Suc.IH [OF ps(2) _ this] obtain bs vm2 where
    vm2: "sim_read_loop n vm1 (lin_addr ?ps pid (a + off)) (int off) (int ?ps) = Inr (ecSuccess, bs, vm2)"
      "vm_kept vm1 vm2" "cells vm1 \<subseteq>\<^sub>m cells vm2" "length bs = n"
      "\<forall>i < n. \<forall>x. cells vm1 (pid, a + off + i * off) = Some x \<longrightarrow> bs ! i = x"
    using Suc.prems(2) vm_kept_owns [OF vm1(2)] ps(1) by auto
  have all: "(y # bs) ! i = x" if "i < Suc n" "cells vm (pid, a + i * off) = Some x" for i x
  proof (cases i)
    case 0
    then show ?thesis using that(2) vm1(4) by simp
  next
    case (Suc j)
    have "cells vm1 (pid, a + off + j * off) = Some x"
      using that(2) vm1(3) Suc by (metis add.assoc domI map_le_def mult_Suc)
    then show ?thesis using vm2(5) that(1) Suc by simp
  qed
  have "sim_read_loop (Suc n) vm (lin_addr ?ps pid a) (int off) (int ?ps) = Inr (ecSuccess, y # bs, vm2)"
    using vm1(1) vm2(1) adv by simp
  then show ?case
    using all vm2(4) vm_kept_trans [OF vm1(2) vm2(2)] map_le_trans [OF vm1(3) vm2(3)] by force
qed

end
