(* ===== verification/Mail.thy ===== *)
theory Mail
  imports Linear_Memory
begin

text \<open>
  Sending mail (\<^verbatim>\<open>compose_mail\<close>) and taking it out of the box (\<^verbatim>\<open>process_func\<close>): who gets mail,
  who does not, and that neither disturbs the container.
\<close>

subsection \<open>Changing a slot\<close>

definition upd_slot :: "nat \<Rightarrow> (process_t \<Rightarrow> process_t) \<Rightarrow> proc_cont_t \<Rightarrow> proc_cont_t" where
  "upd_slot i f c = c\<lparr>pc_processes := Some ((pc_list c)[i := f (pc_list c ! i)])\<rparr>"

lemma upd_slot_simps [simp]:
  "pc_list (upd_slot i f c) = (pc_list c)[i := f (pc_list c ! i)]"
  "pc_max_num_of_proc (upd_slot i f c) = pc_max_num_of_proc c"
  "pc_prc_blk_size (upd_slot i f c) = pc_prc_blk_size c"
  "pc_mutex (upd_slot i f c) = pc_mutex c"
  by (simp_all add: upd_slot_def)

lemma upd_slot_twice:
  "i < length (pc_list c) \<Longrightarrow> upd_slot i g (upd_slot i f c) = upd_slot i (\<lambda>p. g (f p)) c"
  by (simp add: upd_slot_def)

lemma pc_proc_inv: "pc_inv m c \<Longrightarrow> unat pid < length (pc_list c) \<Longrightarrow> pc_proc c pid = Inr (pc_list c ! unat pid)"
  by (rule pc_proc_at [OF pc_invD(1)])

lemma pc_upd_inv: "pc_inv m c \<Longrightarrow> unat pid < length (pc_list c) \<Longrightarrow> pc_upd pid f c = Inr (upd_slot (unat pid) f c)"
  using pc_upd_at [OF pc_invD(1)] by (simp add: upd_slot_def)

text \<open>The block and the liveness of the slot stay.\<close>

lemma pc_inv_slot:
  assumes c: "pc_inv m c" and i: "i < length (pc_list c)"
    and keep: "prc_junk (f (pc_list c ! i)) = prc_junk (pc_list c ! i)"
      "prc_disk_block_start (f (pc_list c ! i)) = prc_disk_block_start (pc_list c ! i)"
    and ok: "\<not> prc_junk (pc_list c ! i) \<Longrightarrow> slot_ok (pc_blk c) i (f (pc_list c ! i))"
  shows "pc_inv m (upd_slot i f c)"
    "live_slot (pc_list (upd_slot i f c)) = live_slot (pc_list c)"
proof -
  note C = pc_invD [OF c]
  let ?ps = "pc_list c" and ?p = "f (pc_list c ! i)"
  have live: "live_slot (?ps[i := ?p]) j = live_slot ?ps j" for j
    using live_slot_upd [OF i, of ?p j] keep(1) i by (simp add: live_slot_def)
  then show "live_slot (pc_list (upd_slot i f c)) = live_slot ?ps" by (simp add: fun_eq_iff)
  have start: "prc_disk_block_start (?ps[i := ?p] ! j) = prc_disk_block_start (?ps ! j)" if "live_slot ?ps j" for j
    using keep(2) i by (cases "j = i") simp_all
  have "proc_pages (pc_blk c) (?ps[i := ?p]) = proc_pages (pc_blk c) ?ps"
    using live start by (auto simp: proc_pages_def fun_eq_iff)
  moreover have "used_blocks (pc_blk c) (?ps[i := ?p]) = used_blocks (pc_blk c) ?ps"
    using live start unfolding used_blocks_def block_of_def by (metis (no_types, opaque_lifting))
  moreover have "slot_ok (pc_blk c) j (?ps[i := ?p] ! j)" if "live_slot (?ps[i := ?p]) j" for j
    using that C(8) [of j] ok i unfolding live by (cases "j = i") (simp_all add: live_slot_def)
  ultimately show "pc_inv m (upd_slot i f c)"
    using C by (simp add: pc_inv_def) (simp add: upd_slot_def)
qed

lemma live_slotD: "pc_inv m c \<Longrightarrow> live_slot (pc_list c) i \<Longrightarrow> i < length (pc_list c) \<and> \<not> prc_junk (pc_list c ! i) \<and>
    slot_ok (pc_blk c) i (pc_list c ! i)"
  using pc_invD(8) by (auto simp: live_slot_def)

subsection \<open>Sending\<close>

definition mail_of :: "proc_cont_t \<Rightarrow> nat \<Rightarrow> post_t list" where
  "mail_of c i = (case prc_mail (pc_list c ! i) of None \<Rightarrow> [] | Some q \<Rightarrow> queue_list q)"

lemma compose_mail_live:
  assumes c: "pc_inv m c" and live: "live_slot (pc_list c) (unat pid)" and del: "\<not> prc_del (pc_list c ! unat pid)"
  shows "\<exists>q. compose_mail c pid post = Inr (ecSuccess, upd_slot (unat pid) (\<lambda>p. p\<lparr>prc_mail := Some q\<rparr>) c) \<and>
           queue_inv q \<and> queue_list q = mail_of c (unat pid) @ [post]"
proof -
  let ?p = "pc_list c ! unat pid"
  note L = live_slotD [OF c live]
  obtain q where q: "prc_mail ?p = Some q" "queue_inv q" using L by (auto simp: slot_ok_def)
  obtain r q' where q': "queue_push q post = Inr (r, q')" "queue_inv q'" "queue_list q' = queue_list q @ [post]"
    using fq.push_any [OF q(2)] by blast
  have max: "\<not> pid > pc_max_num_of_proc c" using L pc_invD(2) [OF c] by (simp add: word_less_nat_alt)
  have free: "prc_mail_mutex ?p = False" using L by (simp add: slot_ok_def)
  have same: "p\<lparr>prc_mail := Some q', prc_mail_mutex := False\<rparr> = p\<lparr>prc_mail := Some q'\<rparr>" if "prc_mail_mutex p = False" for p
    using that by (cases p) simp
  have "compose_mail c pid post = Inr (ecSuccess, upd_slot (unat pid) (\<lambda>p. p\<lparr>prc_mail := Some q', prc_mail_mutex := False\<rparr>) c)"
    using max L free q(1) q'(1) del by (simp add: compose_mail_def pc_proc_inv [OF c] pc_upd_inv [OF c])
  moreover have "upd_slot (unat pid) (\<lambda>p. p\<lparr>prc_mail := Some q', prc_mail_mutex := False\<rparr>) c =
      upd_slot (unat pid) (\<lambda>p. p\<lparr>prc_mail := Some q'\<rparr>) c"
    unfolding upd_slot_def same [OF free] ..
  ultimately show ?thesis using q q' by (intro exI [of _ q']) (simp add: mail_of_def)
qed

lemma pc_inv_mail:
  assumes c: "pc_inv m c" and live: "live_slot (pc_list c) i" and q: "queue_inv q"
  shows "pc_inv m (upd_slot i (\<lambda>p. p\<lparr>prc_mail := Some q\<rparr>) c)"
    "live_slot (pc_list (upd_slot i (\<lambda>p. p\<lparr>prc_mail := Some q\<rparr>) c)) = live_slot (pc_list c)"
  using pc_inv_slot [OF c, of i "\<lambda>p. p\<lparr>prc_mail := Some q\<rparr>"] live_slotD [OF c live] q
  by (simp_all add: slot_ok_def block_of_def)

text \<open>Nobody lives there: a free slot, a process that is being deleted, an id beyond the last.\<close>

lemma compose_mail_none:
  assumes c: "pc_inv m c"
  shows "pid > pc_max_num_of_proc c \<Longrightarrow> compose_mail c pid post = Inr (ecNotFound, c)"
    "unat pid < length (pc_list c) \<Longrightarrow> \<not> live_slot (pc_list c) (unat pid) \<Longrightarrow>
       compose_mail c pid post = Inr (ecNotFound, c)"
    "live_slot (pc_list c) (unat pid) \<Longrightarrow> prc_del (pc_list c ! unat pid) \<Longrightarrow>
       compose_mail c pid post = Inr (ecNotFound, c)"
    "pid = pc_max_num_of_proc c \<Longrightarrow> compose_mail c pid post = Inl OutOfBounds"
proof -
  show "pid > pc_max_num_of_proc c \<Longrightarrow> compose_mail c pid post = Inr (ecNotFound, c)"
    by (simp add: compose_mail_def)
  show "compose_mail c pid post = Inr (ecNotFound, c)"
    if "unat pid < length (pc_list c)" "\<not> live_slot (pc_list c) (unat pid)"
    using that by (simp add: compose_mail_def pc_proc_inv [OF c] live_slot_def)
  show "compose_mail c pid post = Inr (ecNotFound, c)"
    if l: "live_slot (pc_list c) (unat pid)" "prc_del (pc_list c ! unat pid)"
  proof -
    note L = live_slotD [OF c l(1)]
    have free: "(pc_list c ! unat pid)\<lparr>prc_mail_mutex := False\<rparr> = pc_list c ! unat pid"
      using L by (simp add: slot_ok_def)
    have "upd_slot (unat pid) (\<lambda>p. p\<lparr>prc_mail_mutex := False\<rparr>) c = c"
      unfolding upd_slot_def free list_update_id pc_invD(1) [OF c, symmetric] by simp
    then show ?thesis
      using L l(2) pc_invD(2) [OF c]
      by (simp add: compose_mail_def pc_proc_inv [OF c] pc_upd_inv [OF c] slot_ok_def word_less_nat_alt)
  qed
  show "compose_mail c pid post = Inl OutOfBounds" if "pid = pc_max_num_of_proc c"
  proof -
    have "pc_proc c pid = Inl OutOfBounds"
      using pc_invD(2) [OF c] that
      by (simp add: pc_proc_def pc_invD(1) [OF c] arr_get_def uint_nat del: of_nat_unat)
    then show ?thesis using that by (simp add: compose_mail_def)
  qed
qed

subsection \<open>Receiving\<close>

lemma process_func_mail:
  assumes c: "pc_inv m (sys_cont sys)" and live: "live_slot (pc_list (sys_cont sys)) (unat pid)"
    and mail: "mail_of (sys_cont sys) (unat pid) = post # rest"
  shows "\<exists>q. process_func off fo pid sys = process_switch off fo
             (sys\<lparr>sys_cont := upd_slot (unat pid) (\<lambda>p. p\<lparr>prc_mail := Some q\<rparr>) (sys_cont sys)\<rparr>) pid post \<and>
           queue_inv q \<and> queue_list q = rest"
proof -
  let ?c = "sys_cont sys" let ?p = "pc_list ?c ! unat pid"
  note L = live_slotD [OF c live]
  obtain q where q: "prc_mail ?p = Some q" "queue_inv q" using L by (auto simp: slot_ok_def)
  have ql: "queue_list q = post # rest" using mail q(1) by (simp add: mail_of_def)
  obtain q' where q': "queue_pop q = Inr (Some post, q')" "queue_inv q'" "queue_list q' = rest"
    using fq.pop_cons [OF q(2) ql] by blast
  have sz: "queue_size q = int (length (post # rest))" using fq.count_ok [OF q(2)] ql by simp
  have free: "prc_mail_mutex ?p = False" using L by (simp add: slot_ok_def)
  have same: "p\<lparr>prc_mail := Some q', prc_mail_mutex := False\<rparr> = p\<lparr>prc_mail := Some q'\<rparr>" if "prc_mail_mutex p = False" for p
    using that by (cases p) simp
  have "upd_slot (unat pid) (\<lambda>p. p\<lparr>prc_mail := Some q', prc_mail_mutex := False\<rparr>) ?c =
      upd_slot (unat pid) (\<lambda>p. p\<lparr>prc_mail := Some q'\<rparr>) ?c"
    unfolding upd_slot_def same [OF free] ..
  then show ?thesis
    using L free q(1) q' sz by (intro exI [of _ q']) (simp add: process_func_def pc_proc_inv [OF c] pc_upd_inv [OF c])
qed

text \<open>With no mail the thread waits.\<close>

lemma process_func_no_mail:
  assumes c: "pc_inv m (sys_cont sys)" and live: "live_slot (pc_list (sys_cont sys)) (unat pid)"
    and mail: "mail_of (sys_cont sys) (unat pid) = []"
  shows "process_func off fo pid sys = Inl Deadlock"
proof -
  let ?c = "sys_cont sys" let ?p = "pc_list ?c ! unat pid"
  note L = live_slotD [OF c live]
  obtain q where q: "prc_mail ?p = Some q" "queue_inv q" using L by (auto simp: slot_ok_def)
  have "queue_size q = 0" using fq.count_ok [OF q(2)] mail q(1) by (simp add: mail_of_def)
  then show ?thesis using L q(1) by (simp add: process_func_def pc_proc_inv [OF c] slot_ok_def)
qed

end
