(* ===== verification/Jobs.thy ===== *)
theory Jobs
  imports Mail
begin

text \<open>
  The six kinds of work a process does, as operations on a plain array of bytes, and the proof
  that decoding and serving a post (\<^verbatim>\<open>read_decoder\<close> \<dots> \<^verbatim>\<open>loop_write_decoder\<close>, \<^verbatim>\<open>sim_read\<close>,
  \<^verbatim>\<open>sim_write\<close>, \<^verbatim>\<open>sim_loop_write\<close>) performs them.
\<close>

subsection \<open>The plain jobs\<close>

text \<open>Addresses and numbers are what the user typed.\<close>

datatype job =
    JRead nat nat
  | JLoopRead nat nat nat
  | JReadFile nat nat "byte list"
  | JLoopReadFile nat nat nat "byte list"
  | JWrite nat "byte list"
  | JLoopWrite nat byte nat nat

text \<open>The post a request of the user is turned into.\<close>

fun job_post :: "nat \<Rightarrow> procid_t \<Rightarrow> job \<Rightarrow> post_t" where
  "job_post ps pid (JRead a n) = create_post fcRead [PAddr (lin_addr ps pid a), PInt (int n)] 2"
| "job_post ps pid (JLoopRead a off n) =
     create_post fcLoopRead [PAddr (lin_addr ps pid a), PInt (int off), PInt (int n)] 3"
| "job_post ps pid (JReadFile a n f) =
     create_post fcReadToFile [PAddr (lin_addr ps pid a), PInt (int n), PStr f] 3"
| "job_post ps pid (JLoopReadFile a off n f) =
     create_post fcLoopReadToFile [PAddr (lin_addr ps pid a), PInt (int off), PInt (int n), PStr f] 4"
| "job_post ps pid (JWrite a s) =
     create_post fcWrite [PAddr (lin_addr ps pid a), PStr s, PInt (int (length s))] 3"
| "job_post ps pid (JLoopWrite a x off n) =
     create_post fcLoopWrite [PAddr (lin_addr ps pid a), PChar x, PInt (int off), PInt (int n)] 4"

text \<open>Where a job starts, how far apart and how many the bytes it touches are.\<close>

fun job_range :: "job \<Rightarrow> nat \<times> nat \<times> nat" where
  "job_range (JRead a n) = (a, 1, n)"
| "job_range (JLoopRead a off n) = (a, off, n)"
| "job_range (JReadFile a n f) = (a, 1, n)"
| "job_range (JLoopReadFile a off n f) = (a, off, n)"
| "job_range (JWrite a s) = (a, 1, length s)"
| "job_range (JLoopWrite a x off n) = (a, off, n)"

text \<open>Where the bytes go that a job reads: \<open>None\<close> for the standard output.\<close>

fun job_sink :: "job \<Rightarrow> byte list option option" where
  "job_sink (JRead a n) = Some None"
| "job_sink (JLoopRead a off n) = Some None"
| "job_sink (JReadFile a n f) = Some (Some f)"
| "job_sink (JLoopReadFile a off n f) = Some (Some f)"
| "job_sink (JWrite a s) = None"
| "job_sink (JLoopWrite a x off n) = None"

text \<open>The effect on the memory. One page at most is written of a string.\<close>

fun job_put :: "nat \<Rightarrow> procid_t \<Rightarrow> job \<Rightarrow> (procid_t \<times> nat \<rightharpoonup> byte) \<Rightarrow> procid_t \<times> nat \<rightharpoonup> byte" where
  "job_put ps pid (JWrite a s) A = A ++ text_at pid a (take ps s)"
| "job_put ps pid (JLoopWrite a x off n) A = A ++ fill_at pid a x off n"
| "job_put ps pid _ A = A"

text \<open>A job within the first \<open>N\<close> bytes, with numbers for which the size of the buffer is an \<^verbatim>\<open>int\<close>.\<close>

definition job_ok :: "nat \<Rightarrow> job \<Rightarrow> bool" where
  "job_ok N j = (case job_range j of (a, off, n) \<Rightarrow>
     0 < n \<and> a + (n - 1) * off < N \<and> off < 2 ^ 31 \<and> (job_sink j = None \<or> 0 < off) \<and> n * off + 1 < 2 ^ 31)"

text \<open>The bytes a job reads, where they are known.\<close>

definition job_reads :: "procid_t \<Rightarrow> job \<Rightarrow> (procid_t \<times> nat \<rightharpoonup> byte) \<Rightarrow> byte list \<Rightarrow> bool" where
  "job_reads pid j A bs = (case job_range j of (a, off, n) \<Rightarrow>
     length bs = n \<and> (\<forall>i < n. \<forall>x. A (pid, a + i * off) = Some x \<longrightarrow> bs ! i = x))"

definition job_out :: "job \<Rightarrow> byte list \<Rightarrow> (byte list option \<times> byte list) list" where
  "job_out j bs = (case job_sink j of None \<Rightarrow> [] | Some f \<Rightarrow> [(f, print_bytes bs)])"

abbreviation job_is_done :: job_t where
  "job_is_done \<equiv> \<lparr>job_done = True, job_mutex = False\<rparr>"

subsection \<open>The simulated processor\<close>

lemma sys_owns:
  assumes "sys_inv sys" "live_slot (pc_list (sys_cont sys)) (unat pid)"
  shows "owns (sys_vm sys) pid (pc_blk (sys_cont sys))" "pc_blk (sys_cont sys) < 2 ^ 31"
proof -
  have c: "pc_inv (vm_mmu (sys_vm sys)) (sys_cont sys)" using assms(1) by (simp add: sys_inv_def)
  show "pc_blk (sys_cont sys) < 2 ^ 31" by (rule pc_invD(6) [OF c])
  show "owns (sys_vm sys) pid (pc_blk (sys_cont sys))"
    using assms(2) by (simp add: owns_def pc_invD(9) [OF c] proc_pages_def)
qed

lemma kept_sys_inv:
  assumes "sys_inv sys" "vm_kept (sys_vm sys) vm" "sys_vm sys' = vm" "sys_cont sys' = sys_cont sys"
  shows "sys_inv sys'"
  using assms pc_inv_cong [of "vm_mmu (sys_vm sys)" "sys_cont sys" "vm_mmu vm"]
  by (simp add: sys_inv_def vm_kept_def)

text \<open>Every job ends with the report that it is done, which unlocks the mutex of the interface.\<close>

definition reported :: "sys_t \<Rightarrow> job_t \<Rightarrow> (errcode_t \<times> sys_t) res" where
  "reported s jb = rbind (signal_job_done jb) (\<lambda>k. Inr (ecSuccess, s\<lparr>sys_job := k\<rparr>))"

lemma signal_job_done_locked: "job_mutex j \<Longrightarrow> signal_job_done j = Inr job_is_done"
  by (cases j) (simp add: signal_job_done_def mutex_run)

lemma signal_job_done_free: "\<not> job_mutex j \<Longrightarrow> signal_job_done j = Inl BadUnlock"
  by (simp add: signal_job_done_def mutex_run)

lemma int_mul_nat: "n * off + 1 < 2 ^ 31 \<Longrightarrow> int_mul (int n) (int off) = Inr (int (n * off))"
proof -
  assume "n * off + 1 < 2 ^ 31"
  then have "int (n * off) < int (2 ^ 31)" by (simp only: of_nat_less_iff)
  moreover have "- (2 ^ 31) \<le> int (n * off)" by (rule order_trans [OF _ of_nat_0_le_iff]) simp
  ultimately show ?thesis unfolding int_mul_def of_nat_mult by simp
qed

lemma sim_read_ok:
  assumes inv: "vm_inv (sys_vm sys)" "owns (sys_vm sys) pid b" "b < 2 ^ 31"
    and r: "0 < n" "0 < off" "off < 2 ^ 31" "n * off + 1 < 2 ^ 31" "a + (n - 1) * off < b * vm_psize (sys_vm sys)"
    and f: "file = None \<or> fo"
  shows "\<exists>bs vm. sim_read fo sys (lin_addr (vm_psize (sys_vm sys)) pid a) (int off) (int n) file =
             reported (sys\<lparr>sys_vm := vm, sys_out := sys_out sys @ [(file, print_bytes bs)]\<rparr>) (sys_job sys) \<and>
           vm_kept (sys_vm sys) vm \<and> cells (sys_vm sys) \<subseteq>\<^sub>m cells vm \<and> length bs = n \<and>
           (\<forall>i < n. \<forall>x. cells (sys_vm sys) (pid, a + i * off) = Some x \<longrightarrow> bs ! i = x)"
proof -
  note P = vm_psize_bound [OF inv(1)]
  obtain bs vm where vm: "sim_read_loop n (sys_vm sys) (lin_addr (vm_psize (sys_vm sys)) pid a) (int off)
        (int (vm_psize (sys_vm sys))) = Inr (ecSuccess, bs, vm)" "vm_kept (sys_vm sys) vm"
      "cells (sys_vm sys) \<subseteq>\<^sub>m cells vm" "length bs = n"
      "\<forall>i < n. \<forall>x. cells (sys_vm sys) (pid, a + i * off) = Some x \<longrightarrow> bs ! i = x"
    using read_loop_ok [OF inv r(3), of n a] r(5) by blast
  have add: "int_add (int (n * off)) 1 = Inr (int (n * off) + 1)"
    using int_add_nat [of "n * off" 1] r(4) by simp
  have "sim_read fo sys (lin_addr (vm_psize (sys_vm sys)) pid a) (int off) (int n) file =
      reported (sys\<lparr>sys_vm := vm, sys_out := sys_out sys @ [(file, print_bytes bs)]\<rparr>) (sys_job sys)"
    using P r(1,2) f vm(1)
    by (auto simp: sim_read_def reported_def int_mul_nat [OF r(4)] add simp del: of_nat_mult)
  then show ?thesis using vm by blast
qed

lemma sim_write_ok:
  assumes inv: "vm_inv (sys_vm sys)" "owns (sys_vm sys) pid b" "b < 2 ^ 31"
    and r: "s \<noteq> []" "a + (length s - 1) < b * vm_psize (sys_vm sys)"
  obtains vm where "sim_write sys (lin_addr (vm_psize (sys_vm sys)) pid a) s (int (length s)) =
      reported (sys\<lparr>sys_vm := vm\<rparr>) (sys_job sys)" "vm_kept (sys_vm sys) vm"
    "cells (sys_vm sys) ++ text_at pid a (take (vm_psize (sys_vm sys)) s) \<subseteq>\<^sub>m cells vm"
proof -
  define k where "k = vm_psize (sys_vm sys)"
  have ps: "mm_page_size (mmu_mem (vm_mmu (sys_vm sys))) = int k"
    unfolding k_def using vm_psize_bound [OF inv(1)] by blast
  let ?n = "min (length s) k"
  have "0 < length s" using r(1) by simp
  then have "a + ?n \<le> b * k" using r(2) unfolding k_def by linarith
  then obtain vm where vm: "sim_write_loop ?n (sys_vm sys) (lin_addr k pid a) s (int k) = Inr (ecSuccess, vm)"
      "vm_kept (sys_vm sys) vm" "cells (sys_vm sys) ++ text_at pid a (take ?n s) \<subseteq>\<^sub>m cells vm"
    using write_loop_ok [OF inv, of ?n s a] unfolding k_def by auto
  have n: "nat (min (int (length s)) (int k)) = ?n" by (simp only: nat_int flip: of_nat_min)
  have "sim_write sys (lin_addr k pid a) s (int (length s)) = reported (sys\<lparr>sys_vm := vm\<rparr>) (sys_job sys)"
    unfolding sim_write_def ps n Let_def vm(1) using r(1) vm(1) by (simp add: reported_def)
  moreover have "take ?n s = take k s" by (simp add: min_def)
  ultimately show thesis using that vm(2,3) unfolding k_def by metis
qed

lemma sim_loop_write_ok:
  assumes inv: "vm_inv (sys_vm sys)" "owns (sys_vm sys) pid b" "b < 2 ^ 31"
    and r: "0 < n" "off < 2 ^ 31" "a + (n - 1) * off < b * vm_psize (sys_vm sys)"
  obtains vm where "sim_loop_write sys (lin_addr (vm_psize (sys_vm sys)) pid a) x (int off) (int n) =
      reported (sys\<lparr>sys_vm := vm\<rparr>) (sys_job sys)" "vm_kept (sys_vm sys) vm"
    "cells (sys_vm sys) ++ fill_at pid a x off n \<subseteq>\<^sub>m cells vm"
proof -
  define k where "k = vm_psize (sys_vm sys)"
  have ps: "mm_page_size (mmu_mem (vm_mmu (sys_vm sys))) = int k"
    unfolding k_def using vm_psize_bound [OF inv(1)] by blast
  obtain vm where vm: "sim_loop_write_loop n (sys_vm sys) (lin_addr k pid a) x (int off) (int k) = Inr (ecSuccess, vm)"
      "vm_kept (sys_vm sys) vm" "cells (sys_vm sys) ++ fill_at pid a x off n \<subseteq>\<^sub>m cells vm"
    using loop_write_ok [OF inv r(2), of n a x] r(3) unfolding k_def by auto
  have "sim_loop_write sys (lin_addr k pid a) x (int off) (int n) = reported (sys\<lparr>sys_vm := vm\<rparr>) (sys_job sys)"
    unfolding sim_loop_write_def ps nat_int using r(1) vm(1) by (simp add: reported_def)
  then show thesis using that vm(2,3) unfolding k_def by blast
qed

text \<open>The state after a job, and what is known of it.\<close>

definition job_result :: "sys_t \<Rightarrow> job \<Rightarrow> byte list \<Rightarrow> vm_t \<Rightarrow> sys_t" where
  "job_result sys j bs vm = sys\<lparr>sys_vm := vm, sys_out := sys_out sys @ job_out j bs, sys_job := job_is_done\<rparr>"

definition job_served :: "sys_t \<Rightarrow> procid_t \<Rightarrow> job \<Rightarrow> byte list \<Rightarrow> vm_t \<Rightarrow> bool" where
  "job_served sys pid j bs vm \<longleftrightarrow> vm_kept (sys_vm sys) vm \<and>
     job_put (vm_psize (sys_vm sys)) pid j (cells (sys_vm sys)) \<subseteq>\<^sub>m cells vm \<and>
     (job_sink j \<noteq> None \<longrightarrow> job_reads pid j (cells (sys_vm sys)) bs)"

lemmas [serving] = process_switch_def read_decoder_def loop_read_decoder_def read_file_decoder_def loop_read_file_decoder_def
  write_decoder_def loop_write_decoder_def arg_addr_def arg_int_def arg_char_def arg_str_def create_post_def arr_get_def

lemma decode:
  defines "addr \<equiv> \<lambda>sys pid a. lin_addr (vm_psize (sys_vm sys)) pid a"
  shows "process_switch off fo sys pid (job_post (vm_psize (sys_vm sys)) pid j) =
    rbind (case j of
        JRead a n \<Rightarrow> sim_read True sys (addr sys pid a) 1 (int n) None
      | JLoopRead a d n \<Rightarrow> sim_read True sys (addr sys pid a) (int d) (int n) None
      | JReadFile a n f \<Rightarrow> sim_read fo sys (addr sys pid a) 1 (int n) (Some f)
      | JLoopReadFile a d n f \<Rightarrow> sim_read fo sys (addr sys pid a) (int d) (int n) (Some f)
      | JWrite a s \<Rightarrow> sim_write sys (addr sys pid a) s (int (length s))
      | JLoopWrite a x d n \<Rightarrow> sim_loop_write sys (addr sys pid a) x (int d) (int n))
    (\<lambda>(_, s). Inr (False, s))"
  unfolding addr_def by (cases j) (simp_all add: serving)

lemma serve_read:
  assumes inv: "sys_inv sys" "live_slot (pc_list (sys_cont sys)) (unat pid)"
    and j: "job_ok (pc_blk (sys_cont sys) * vm_psize (sys_vm sys)) j" "job_range j = (a, off, n)" "job_sink j = Some f"
    and fo: "fo \<or> f = None"
  shows "\<exists>bs vm. sim_read fo sys (lin_addr (vm_psize (sys_vm sys)) pid a) (int off) (int n) f =
             reported (job_result sys j bs vm) (sys_job sys) \<and> job_served sys pid j bs vm"
proof -
  have vi: "vm_inv (sys_vm sys)" using inv by (simp add: sys_inv_def)
  have r: "0 < n" "0 < off" "off < 2 ^ 31" "n * off + 1 < 2 ^ 31"
      "a + (n - 1) * off < pc_blk (sys_cont sys) * vm_psize (sys_vm sys)" "f = None \<or> fo"
    using j fo unfolding job_ok_def by auto
  have put: "job_put (vm_psize (sys_vm sys)) pid j A = A" for A using j(3) by (cases j) simp_all
  from sim_read_ok [OF vi sys_owns [OF inv(1,2)] r] obtain bs vm where
    "sim_read fo sys (lin_addr (vm_psize (sys_vm sys)) pid a) (int off) (int n) f =
       reported (sys\<lparr>sys_vm := vm, sys_out := sys_out sys @ [(f, print_bytes bs)]\<rparr>) (sys_job sys)"
    "vm_kept (sys_vm sys) vm" "cells (sys_vm sys) \<subseteq>\<^sub>m cells vm" "length bs = n"
    "\<forall>i < n. \<forall>x. cells (sys_vm sys) (pid, a + i * off) = Some x \<longrightarrow> bs ! i = x" by blast
  then show ?thesis
    using j by (intro exI [of _ bs] exI [of _ vm]) (simp add: reported_def job_result_def job_served_def job_out_def job_reads_def put)
qed

lemma job_write_result:
  assumes "vm_kept (sys_vm sys) vm"
  shows "cells (sys_vm sys) ++ text_at pid a (take (vm_psize (sys_vm sys)) s) \<subseteq>\<^sub>m cells vm \<Longrightarrow>
      job_served sys pid (JWrite a s) bs vm \<and>
      reported (sys\<lparr>sys_vm := vm\<rparr>) jb = reported (job_result sys (JWrite a s) bs vm) jb"
    "cells (sys_vm sys) ++ fill_at pid a x off n \<subseteq>\<^sub>m cells vm \<Longrightarrow>
      job_served sys pid (JLoopWrite a x off n) bs vm \<and>
      reported (sys\<lparr>sys_vm := vm\<rparr>) jb = reported (job_result sys (JLoopWrite a x off n) bs vm) jb"
  using assms by (simp_all add: reported_def job_served_def job_result_def job_out_def)

lemma serve_write:
  assumes inv: "sys_inv sys" "live_slot (pc_list (sys_cont sys)) (unat pid)"
    and j: "job_ok (pc_blk (sys_cont sys) * vm_psize (sys_vm sys)) j"
  shows "j = JWrite a s \<Longrightarrow> \<exists>vm. sim_write sys (lin_addr (vm_psize (sys_vm sys)) pid a) s (int (length s)) =
             reported (job_result sys j bs vm) (sys_job sys) \<and> job_served sys pid j bs vm"
    "j = JLoopWrite a x off n \<Longrightarrow> \<exists>vm. sim_loop_write sys (lin_addr (vm_psize (sys_vm sys)) pid a) x (int off) (int n) =
             reported (job_result sys j bs vm) (sys_job sys) \<and> job_served sys pid j bs vm"
proof -
  have vi: "vm_inv (sys_vm sys)" using inv by (simp add: sys_inv_def)
  note own = sys_owns [OF inv(1,2)]
  show "\<exists>vm. sim_write sys (lin_addr (vm_psize (sys_vm sys)) pid a) s (int (length s)) =
      reported (job_result sys j bs vm) (sys_job sys) \<and> job_served sys pid j bs vm" if j': "j = JWrite a s"
  proof -
    have "s \<noteq> []" "a + (length s - 1) < pc_blk (sys_cont sys) * vm_psize (sys_vm sys)"
      using j unfolding j' job_ok_def by auto
    from sim_write_ok [OF vi own this] show ?thesis
      unfolding j' by (metis (no_types) job_write_result(1))
  qed
  show "\<exists>vm. sim_loop_write sys (lin_addr (vm_psize (sys_vm sys)) pid a) x (int off) (int n) =
      reported (job_result sys j bs vm) (sys_job sys) \<and> job_served sys pid j bs vm" if j': "j = JLoopWrite a x off n"
  proof -
    have "0 < n" "off < 2 ^ 31" "a + (n - 1) * off < pc_blk (sys_cont sys) * vm_psize (sys_vm sys)"
      using j unfolding j' job_ok_def by auto
    from sim_loop_write_ok [OF vi own this, of x] show ?thesis
      unfolding j' by (metis (no_types) job_write_result(2))
  qed
qed

lemma switch_ex:
  "\<exists>bs vm. S = reported (r bs vm) jb \<and> Q bs vm \<Longrightarrow>
   \<exists>bs vm. rbind S (\<lambda>(_, s). Inr (False, s)) = rbind (signal_job_done jb) (\<lambda>k. Inr (False, (r bs vm)\<lparr>sys_job := k\<rparr>)) \<and> Q bs vm"
proof (elim exE conjE)
  fix bs vm assume "S = reported (r bs vm) jb" "Q bs vm"
  moreover have "rbind (reported (r bs vm) jb) (\<lambda>(_, s). Inr (False, s)) =
      rbind (signal_job_done jb) (\<lambda>k. Inr (False, (r bs vm)\<lparr>sys_job := k\<rparr>))"
    by (cases "signal_job_done jb") (simp_all add: reported_def)
  ultimately show ?thesis by blast
qed

text \<open>The work itself is done whoever holds the mutex; the report comes last.\<close>

lemma serve_job_run:
  assumes inv: "sys_inv sys" "live_slot (pc_list (sys_cont sys)) (unat pid)"
    and j: "job_ok (pc_blk (sys_cont sys) * vm_psize (sys_vm sys)) j"
    and fo: "fo \<or> job_sink j = None \<or> job_sink j = Some None"
  shows "\<exists>bs vm. process_switch off fo sys pid (job_post (vm_psize (sys_vm sys)) pid j) =
             rbind (signal_job_done (sys_job sys)) (\<lambda>k. Inr (False, (job_result sys j bs vm)\<lparr>sys_job := k\<rparr>)) \<and>
           job_served sys pid j bs vm"
  unfolding decode
proof (rule switch_ex)
  note R = serve_read [OF inv j] and W = serve_write [OF inv j]
  show "\<exists>bs vm. (case j of
        JRead a n \<Rightarrow> sim_read True sys (lin_addr (vm_psize (sys_vm sys)) pid a) 1 (int n) None
      | JLoopRead a d n \<Rightarrow> sim_read True sys (lin_addr (vm_psize (sys_vm sys)) pid a) (int d) (int n) None
      | JReadFile a n f \<Rightarrow> sim_read fo sys (lin_addr (vm_psize (sys_vm sys)) pid a) 1 (int n) (Some f)
      | JLoopReadFile a d n f \<Rightarrow> sim_read fo sys (lin_addr (vm_psize (sys_vm sys)) pid a) (int d) (int n) (Some f)
      | JWrite a s \<Rightarrow> sim_write sys (lin_addr (vm_psize (sys_vm sys)) pid a) s (int (length s))
      | JLoopWrite a x d n \<Rightarrow> sim_loop_write sys (lin_addr (vm_psize (sys_vm sys)) pid a) x (int d) (int n)) =
      reported (job_result sys j bs vm) (sys_job sys) \<and> job_served sys pid j bs vm"
  proof (cases j)
    case (JRead a n)
    then show ?thesis using R [of a 1 n None True] by simp
  next
    case (JLoopRead a d n)
    then show ?thesis using R [of a d n None True] by simp
  next
    case (JReadFile a n f)
    then show ?thesis using R [of a 1 n "Some f" fo] fo by simp
  next
    case (JLoopReadFile a d n f)
    then show ?thesis using R [of a d n "Some f" fo] fo by simp
  next
    case (JWrite a s)
    then show ?thesis using W(1) [of a s] by simp
  next
    case (JLoopWrite a x d n)
    then show ?thesis using W(2) [of a x d n] by simp
  qed
qed

lemma serve_job:
  assumes inv: "sys_inv sys" "live_slot (pc_list (sys_cont sys)) (unat pid)" "job_mutex (sys_job sys)"
    and j: "job_ok (pc_blk (sys_cont sys) * vm_psize (sys_vm sys)) j"
    and fo: "fo \<or> job_sink j = None \<or> job_sink j = Some None"
  shows "\<exists>bs vm. process_switch off fo sys pid (job_post (vm_psize (sys_vm sys)) pid j) =
             Inr (False, job_result sys j bs vm) \<and> job_served sys pid j bs vm"
  using serve_job_run [OF inv(1,2) j fo, of off] signal_job_done_locked [OF inv(3)] by (auto simp: job_result_def)

text \<open>A process that is done before the interface waits unlocks a mutex that nobody holds.\<close>

lemma serve_job_early:
  assumes inv: "sys_inv sys" "live_slot (pc_list (sys_cont sys)) (unat pid)" "\<not> job_mutex (sys_job sys)"
    and j: "job_ok (pc_blk (sys_cont sys) * vm_psize (sys_vm sys)) j"
    and fo: "fo \<or> job_sink j = None \<or> job_sink j = Some None"
  shows "process_switch off fo sys pid (job_post (vm_psize (sys_vm sys)) pid j) = Inl BadUnlock"
  using serve_job_run [OF inv(1,2) j fo, of off] signal_job_done_free [OF inv(3)] by auto

end
