(* ===== verification/Requests.thy ===== *)
theory Requests
  imports Jobs
begin

text \<open>
  From a request of the user (\<^verbatim>\<open>read_process\<close> \<dots> \<^verbatim>\<open>loop_write_process\<close> of \<^verbatim>\<open>util/app_util.c\<close>) to
  the work done: the request puts one post into the mail box of the process, and the process that
  takes it out performs the plain job on its memory.
\<close>

subsection \<open>Issuing a request\<close>

text \<open>The call that the user interface makes for a job.\<close>

fun issue :: "sys_t \<Rightarrow> int \<Rightarrow> job \<Rightarrow> (errcode_t \<times> sys_t) res" where
  "issue sys pid (JRead a n) = read_process sys (int a) pid (int n)"
| "issue sys pid (JLoopRead a off n) = loop_read_process sys (int a) pid (int off) (int n)"
| "issue sys pid (JReadFile a n f) = read_to_file_process sys (int a) pid (int n) f"
| "issue sys pid (JLoopReadFile a off n f) = loop_read_to_file_process sys (int a) pid (int off) (int n) f"
| "issue sys pid (JWrite a s) = write_process sys (int a) pid s"
| "issue sys pid (JLoopWrite a x off n) = loop_write_process sys (int a) pid x (int off) (int n)"

abbreviation job_start :: "job \<Rightarrow> nat" where
  "job_start j \<equiv> fst (job_range j)"

lemma user_lin_addr:
  assumes "k < 31" "a < 2 ^ 31"
  shows "make_virt_addr (int a) (2 ^ k) pid = lin_addr (2 ^ k) (word_of_int pid) a"
proof -
  have "int a < 2 ^ 31" using assms(2) by (metis of_nat_less_iff of_nat_numeral of_nat_power)
  then have "make_virt_addr (int a) (2 ^ k) pid =
      \<lparr>va_pid = word_of_int pid, va_page = word_of_int (int a div 2 ^ k), va_offset = word_of_int (int a mod 2 ^ k)\<rparr>"
    using make_virt_addr_pow [of k "int a" pid] assms(1) by simp
  moreover have "int a div 2 ^ k = int (a div 2 ^ k)" "int a mod 2 ^ k = int (a mod 2 ^ k)"
    by (simp_all only: of_nat_power of_nat_numeral zdiv_int zmod_int)
  ultimately show ?thesis by (simp only: lin_addr_def)
qed

definition sent :: "int \<Rightarrow> errcode_t \<Rightarrow> sys_t \<Rightarrow> sys_t" where
  "sent pid err sys = (case err of
       ecSuccess \<Rightarrow> sys
     | ecNotFound \<Rightarrow> say (ascii ''ERROR: a process with pid '' @ fmt_d pid @ ascii '' could not be found'' @ [10]) sys
     | ecFail \<Rightarrow> say (ascii ''ERROR: couldn'' @ [39] @ ascii ''t send message'' @ [10]) sys)"

lemma send_post_sent:
  "send_post sys pid func args nargs =
     rbind (compose_mail (sys_cont sys) (word_of_int pid) (create_post func args nargs))
       (\<lambda>(err, cont). Inr (err, sent pid err (sys\<lparr>sys_cont := cont\<rparr>)))"
  by (simp add: send_post_def sent_def cong: errcode_t.case_cong)

lemma issue_post:
  assumes "sys_page_size sys = 2 ^ k" "k < 31" "job_start j < 2 ^ 31"
  shows "issue sys pid j =
     rbind (compose_mail (sys_cont sys) (word_of_int pid) (job_post (2 ^ k) (word_of_int pid) j))
       (\<lambda>(err, cont). Inr (err, sent pid err (sys\<lparr>sys_cont := cont\<rparr>)))"
  using assms(3) user_lin_addr [OF assms(2)]
  by (cases j) (simp_all add: assms(1) send_post_sent read_process_def loop_read_process_def read_to_file_process_def
      loop_read_to_file_process_def write_process_def loop_write_process_def)

text \<open>Sending mail leaves everything but the mail box alone.\<close>

definition mailed :: "sys_t \<Rightarrow> nat \<Rightarrow> post_t queue_t \<Rightarrow> sys_t" where
  "mailed sys i q = sys\<lparr>sys_cont := upd_slot i (\<lambda>p. p\<lparr>prc_mail := Some q\<rparr>) (sys_cont sys)\<rparr>"

lemma mailed_facts:
  assumes "sys_inv sys" "live_slot (pc_list (sys_cont sys)) i" "queue_inv q"
  shows "sys_inv (mailed sys i q)" "live_slot (pc_list (sys_cont (mailed sys i q))) = live_slot (pc_list (sys_cont sys))"
    "mail_of (sys_cont (mailed sys i q)) i = queue_list q" "pc_blk (sys_cont (mailed sys i q)) = pc_blk (sys_cont sys)"
    "k \<noteq> i \<Longrightarrow> mail_of (sys_cont (mailed sys i q)) k = mail_of (sys_cont sys) k"
    "prc_del (pc_list (sys_cont (mailed sys i q)) ! k) = prc_del (pc_list (sys_cont sys) ! k)"
    "sys_vm (mailed sys i q) = sys_vm sys" "sys_job (mailed sys i q) = sys_job sys" "sys_out (mailed sys i q) = sys_out sys"
    "has_thread (pc_list (sys_cont (mailed sys i q)) ! k) = has_thread (pc_list (sys_cont sys) ! k)"
proof -
  have c: "pc_inv (vm_mmu (sys_vm sys)) (sys_cont sys)" using assms(1) by (simp add: sys_inv_def)
  note P = pc_inv_mail [OF c assms(2,3)]
  have i: "i < length (pc_list (sys_cont sys))" using assms(2) by (simp add: live_slot_def)
  show "sys_inv (mailed sys i q)" using assms(1) P(1) by (simp add: sys_inv_def mailed_def)
  show "live_slot (pc_list (sys_cont (mailed sys i q))) = live_slot (pc_list (sys_cont sys))"
    using P(2) by (simp add: mailed_def)
  show "mail_of (sys_cont (mailed sys i q)) i = queue_list q" using i by (simp add: mailed_def mail_of_def)
  show "k \<noteq> i \<Longrightarrow> mail_of (sys_cont (mailed sys i q)) k = mail_of (sys_cont sys) k"
    by (simp add: mailed_def mail_of_def)
  show "prc_del (pc_list (sys_cont (mailed sys i q)) ! k) = prc_del (pc_list (sys_cont sys) ! k)"
    using i by (cases "k = i") (simp_all add: mailed_def)
  show "has_thread (pc_list (sys_cont (mailed sys i q)) ! k) = has_thread (pc_list (sys_cont sys) ! k)"
    using i by (cases "k = i") (simp_all add: mailed_def)
qed (simp_all add: mailed_def)

lemma pid_word:
  assumes "sys_inv sys" "i < length (pc_list (sys_cont sys))"
  shows "unat (word_of_int (int i) :: u32) = i"
  using assms slot_word(1) [of i] pc_invD(3) [of "vm_mmu (sys_vm sys)" "sys_cont sys"] by (simp add: sys_inv_def)

lemma issue_ok:
  assumes inv: "sys_inv sys" and live: "live_slot (pc_list (sys_cont sys)) i" and del: "\<not> prc_del (pc_list (sys_cont sys) ! i)"
    and ps: "sys_page_size sys = 2 ^ k" "k < 31" and a: "job_start j < 2 ^ 31"
  shows "\<exists>q. issue sys (int i) j = Inr (ecSuccess, mailed sys i q) \<and> queue_inv q \<and>
           queue_list q = mail_of (sys_cont sys) i @ [job_post (vm_psize (sys_vm sys)) (word_of_int (int i)) j]"
proof -
  define w :: u32 where "w = word_of_int (int i)"
  have c: "pc_inv (vm_mmu (sys_vm sys)) (sys_cont sys)" using inv by (simp add: sys_inv_def)
  have "i < length (pc_list (sys_cont sys))" using live by (simp add: live_slot_def)
  then have w: "unat w = i" using pid_word [OF inv] by (simp add: w_def)
  have psz: "vm_psize (sys_vm sys) = 2 ^ k" using ps(1) by (simp add: nat_power_eq)
  obtain q where "compose_mail (sys_cont sys) w (job_post (2 ^ k) w j) =
        Inr (ecSuccess, upd_slot i (\<lambda>p. p\<lparr>prc_mail := Some q\<rparr>) (sys_cont sys))"
      "queue_inv q" "queue_list q = mail_of (sys_cont sys) i @ [job_post (2 ^ k) w j]"
    using compose_mail_live [OF c, of w "job_post (2 ^ k) w j"] live del unfolding w by blast
  then show ?thesis
    unfolding issue_post [OF ps a] psz w_def [symmetric] by (intro exI [of _ q]) (simp add: mailed_def sent_def)
qed

subsection \<open>Serving it\<close>

lemma serve_mail:
  assumes inv: "sys_inv sys" and live: "live_slot (pc_list (sys_cont sys)) i" and mail: "mail_of (sys_cont sys) i = post # rest"
    and post: "post = job_post (vm_psize (sys_vm sys)) (word_of_int (int i)) j"
    and job: "job_mutex (sys_job sys)" "job_ok (pc_blk (sys_cont sys) * vm_psize (sys_vm sys)) j"
    and fo: "fo \<or> job_sink j = None \<or> job_sink j = Some None"
  shows "\<exists>q bs vm. process_func off fo (word_of_int (int i)) sys = Inr (False, job_result (mailed sys i q) j bs vm) \<and>
           queue_inv q \<and> queue_list q = rest \<and> job_served sys (word_of_int (int i)) j bs vm \<and>
           sys_inv (job_result (mailed sys i q) j bs vm)"
proof -
  define w :: u32 where "w = word_of_int (int i)"
  have c: "pc_inv (vm_mmu (sys_vm sys)) (sys_cont sys)" using inv by (simp add: sys_inv_def)
  have "i < length (pc_list (sys_cont sys))" using live by (simp add: live_slot_def)
  then have w: "unat w = i" using pid_word [OF inv] by (simp add: w_def)
  obtain q where q: "process_func off fo w sys = process_switch off fo (mailed sys i q) w post" "queue_inv q" "queue_list q = rest"
    using process_func_mail [OF c, of w post rest off fo] live mail w by (auto simp: mailed_def)
  note M = mailed_facts [OF inv live q(2)]
  have live': "live_slot (pc_list (sys_cont (mailed sys i q))) (unat w)" unfolding w M(2) using live .
  have job': "job_mutex (sys_job (mailed sys i q))"
    "job_ok (pc_blk (sys_cont (mailed sys i q)) * vm_psize (sys_vm (mailed sys i q))) j"
    using job unfolding M(4,7,8) by blast+
  have post': "post = job_post (vm_psize (sys_vm (mailed sys i q))) w j" unfolding M(7) post w_def ..
  obtain bs vm where vm: "process_switch off fo (mailed sys i q) w post = Inr (False, job_result (mailed sys i q) j bs vm)"
      "job_served (mailed sys i q) w j bs vm"
    using serve_job [OF M(1) live' job' fo, of off] post' by blast
  have "sys_inv (job_result (mailed sys i q) j bs vm)"
    by (rule kept_sys_inv [OF M(1)]) (use vm(2) in \<open>simp_all add: job_served_def job_result_def\<close>)
  moreover have "job_served sys w j bs vm" using vm(2) unfolding job_served_def M(7) .
  ultimately show ?thesis using q vm(1) unfolding w_def by metis
qed

lemma serve_mail_early:
  assumes inv: "sys_inv sys" and live: "live_slot (pc_list (sys_cont sys)) i" and mail: "mail_of (sys_cont sys) i = post # rest"
    and post: "post = job_post (vm_psize (sys_vm sys)) (word_of_int (int i)) j"
    and job: "\<not> job_mutex (sys_job sys)" "job_ok (pc_blk (sys_cont sys) * vm_psize (sys_vm sys)) j"
    and fo: "fo \<or> job_sink j = None \<or> job_sink j = Some None"
  shows "process_func off fo (word_of_int (int i)) sys = Inl BadUnlock"
proof -
  define w :: u32 where "w = word_of_int (int i)"
  have c: "pc_inv (vm_mmu (sys_vm sys)) (sys_cont sys)" using inv by (simp add: sys_inv_def)
  have "i < length (pc_list (sys_cont sys))" using live by (simp add: live_slot_def)
  then have w: "unat w = i" using pid_word [OF inv] by (simp add: w_def)
  obtain q where q: "process_func off fo w sys = process_switch off fo (mailed sys i q) w post" "queue_inv q"
    using process_func_mail [OF c, of w post rest off fo] live mail w by (auto simp: mailed_def)
  note M = mailed_facts [OF inv live q(2)]
  have "post = job_post (vm_psize (sys_vm (mailed sys i q))) w j" unfolding M(7) post w_def ..
  moreover have "live_slot (pc_list (sys_cont (mailed sys i q))) (unat w)" unfolding w M(2) using live .
  ultimately show ?thesis using q(1) serve_job_early [OF M(1), of w j fo off] job fo unfolding M(4,7,8) w_def by simp
qed

text \<open>
  All together, for a process with nothing else to do while no job is outstanding: the request, the wait of the
  interface, which leaves it with the mutex, and the work. A process that is faster than the interface finds the mutex free.
\<close>

lemma issue_and_serve:
  assumes inv: "sys_inv sys" and ps: "sys_page_size sys = 2 ^ k" "k < 31"
    and live: "live_slot (pc_list (sys_cont sys)) i" "\<not> prc_del (pc_list (sys_cont sys) ! i)"
    and mail: "mail_of (sys_cont sys) i = []" and job: "sys_job sys = job_is_done" and a: "job_start j < 2 ^ 31"
    and ok: "job_ok (pc_blk (sys_cont sys) * vm_psize (sys_vm sys)) j" "fo \<or> job_sink j = None \<or> job_sink j = Some None"
  shows "\<exists>sys1 jb sys2 bs. issue sys (int i) j = Inr (ecSuccess, sys1) \<and> wait_job_done (sys_job sys1) = Inr jb \<and>
           process_func off fo (word_of_int (int i)) (sys1\<lparr>sys_job := jb\<rparr>) = Inr (False, sys2) \<and> sys_inv sys2 \<and>
           mail_of (sys_cont sys2) i = [] \<and> sys_job sys2 = job_is_done \<and> sys_out sys2 = sys_out sys @ job_out j bs \<and>
           job_put (vm_psize (sys_vm sys)) (word_of_int (int i)) j (cells (sys_vm sys)) \<subseteq>\<^sub>m cells (sys_vm sys2) \<and>
           (job_sink j \<noteq> None \<longrightarrow> job_reads (word_of_int (int i)) j (cells (sys_vm sys)) bs) \<and>
           process_func off fo (word_of_int (int i)) sys1 = Inl BadUnlock"
proof -
  define w :: u32 where "w = word_of_int (int i)"
  obtain q where q: "issue sys (int i) j = Inr (ecSuccess, mailed sys i q)" "queue_inv q"
      "queue_list q = [job_post (vm_psize (sys_vm sys)) w j]"
    using issue_ok [OF inv live ps a] mail by (auto simp: w_def)
  note M = mailed_facts [OF inv live(1) q(2)]
  let ?jb = "\<lparr>job_done = False, job_mutex = True\<rparr>" let ?m = "mailed sys i q" let ?s = "?m\<lparr>sys_job := ?jb\<rparr>"
  have wait: "wait_job_done (sys_job ?m) = Inr ?jb" unfolding M(8) job by (simp add: wait_job_done_def mutex_run)
  have mail': "mail_of (sys_cont ?m) i = [job_post (vm_psize (sys_vm ?m)) (word_of_int (int i)) j]"
    unfolding M(3,7) q(3) w_def ..
  have early: "process_func off fo w ?m = Inl BadUnlock" unfolding w_def
    by (rule serve_mail_early [OF M(1) _ mail' refl _ _ ok(2)]) (use live(1) ok(1) job in \<open>simp_all add: M(2,4,7,8)\<close>)
  have s': "sys_inv ?s" "live_slot (pc_list (sys_cont ?s)) i" "job_mutex (sys_job ?s)"
      "mail_of (sys_cont ?s) i = [job_post (vm_psize (sys_vm ?s)) (word_of_int (int i)) j]"
      "job_ok (pc_blk (sys_cont ?s) * vm_psize (sys_vm ?s)) j"
    using M(1) live(1) ok(1) mail' by (simp_all add: sys_inv_def M(2,4,7))
  obtain q' bs vm where s: "process_func off fo w ?s = Inr (False, job_result (mailed ?s i q') j bs vm)"
      "queue_inv q'" "queue_list q' = []" "job_served ?s w j bs vm" "sys_inv (job_result (mailed ?s i q') j bs vm)"
    using serve_mail [OF s'(1,2,4) refl s'(3,5) ok(2), of off] unfolding w_def by blast
  note M' = mailed_facts [OF s'(1,2) s(2)]
  let ?r = "job_result (mailed ?s i q') j bs vm"
  have "mail_of (sys_cont ?r) i = []" "sys_job ?r = job_is_done" "sys_out ?r = sys_out sys @ job_out j bs" "sys_vm ?r = vm"
    using M'(3) s(3) M(9) M'(9) by (simp_all add: job_result_def)
  moreover have "job_put (vm_psize (sys_vm sys)) w j (cells (sys_vm sys)) \<subseteq>\<^sub>m cells vm"
      "job_sink j \<noteq> None \<longrightarrow> job_reads w j (cells (sys_vm sys)) bs"
    using s(4) M(7) by (simp_all add: job_served_def)
  ultimately show ?thesis using q(1) wait s(1,5) early unfolding w_def [symmetric]
    by (intro exI [of _ ?m] exI [of _ ?jb] exI [of _ ?r] exI [of _ bs]) simp
qed

end
