(* ===== verification/Process_Delete.thy ===== *)
theory Process_Delete
  imports Requests
begin

text \<open>
  Deleting a process (\<^verbatim>\<open>process_destroy\<close>, \<^verbatim>\<open>process_dealloc\<close>): its pages, its block of the disk and
  its slot become free, and the memory of the other processes stays as it is.
\<close>

subsection \<open>The container without the process\<close>

lemma blocks_distinct:
  assumes m: "mmu_inv m" and c: "pc_inv m c" and i: "live_slot (pc_list c) i" and j: "live_slot (pc_list c) j"
    and eq: "block_of (pc_blk c) (pc_list c ! i) = block_of (pc_blk c) (pc_list c ! j)"
  shows "i = j"
proof -
  note C = pc_invD [OF c]
  have w: "unat (word_of_int (int n) :: u32) = n" if "live_slot (pc_list c) n" for n
    using that C(3) slot_word(1) [of n] by (simp add: live_slot_def)
  have bk: "m_bk m (word_of_int (int n), 0) = Some (prc_disk_block_start (pc_list c ! n))" if "live_slot (pc_list c) n" for n
    unfolding C(9) proc_pages_def using w [OF that] that C(5) by simp
  have "prc_disk_block_start (pc_list c ! i) = prc_disk_block_start (pc_list c ! j)"
    using C(8) [OF i] C(8) [OF j] eq by (simp add: slot_ok_def)
  then have "(word_of_int (int i) :: u32, 0 :: u32) = (word_of_int (int j), 0)"
    using backing_inj [OF m bk [OF i] bk [OF j]] by simp
  then show ?thesis using w [OF i] w [OF j] by (metis prod.inject)
qed

lemma used_blocks_removed:
  assumes m: "mmu_inv m" and c: "pc_inv m c" and i: "live_slot (pc_list c) i" and p: "prc_junk p"
  shows "used_blocks (pc_blk c) ((pc_list c)[i := p]) = used_blocks (pc_blk c) (pc_list c) - {block_of (pc_blk c) (pc_list c ! i)}"
proof -
  have il: "i < length (pc_list c)" using i by (simp add: live_slot_def)
  have live: "live_slot ((pc_list c)[i := p]) j \<longleftrightarrow> j \<noteq> i \<and> live_slot (pc_list c) j" for j
    using live_slot_upd [OF il, of p j] p by auto
  have "block_of (pc_blk c) ((pc_list c)[i := p] ! j) = block_of (pc_blk c) (pc_list c ! j)" if "j \<noteq> i" for j
    using that by simp
  then have "used_blocks (pc_blk c) ((pc_list c)[i := p]) =
      {block_of (pc_blk c) (pc_list c ! j) | j. j \<noteq> i \<and> live_slot (pc_list c) j}"
    unfolding used_blocks_def live by (metis (no_types, opaque_lifting))
  then show ?thesis
    unfolding used_blocks_def using blocks_distinct [OF m c _ i] by auto
qed

lemma proc_pages_removed:
  assumes c: "pc_inv m c" and i: "live_slot (pc_list c) i" and p: "prc_junk p"
    and a: "va_pid a = word_of_int (int i)" "va_page a = 0"
  shows "proc_pages (pc_blk c) ((pc_list c)[i := p]) = proc_pages (pc_blk c) (pc_list c) |` (- page_keys a (pc_blk c))"
    "page_keys a (pc_blk c) \<subseteq> dom (proc_pages (pc_blk c) (pc_list c))"
proof -
  note C = pc_invD [OF c]
  have il: "i < length (pc_list c)" using i by (simp add: live_slot_def)
  have i31: "i < 2 ^ 31" using il C(3) by simp
  note keys = own_keys(1) [OF i31 C(6) a]
  show "page_keys a (pc_blk c) \<subseteq> dom (proc_pages (pc_blk c) (pc_list c))"
    unfolding keys using i by (auto simp: proc_pages_def)
  show "proc_pages (pc_blk c) ((pc_list c)[i := p]) = proc_pages (pc_blk c) (pc_list c) |` (- page_keys a (pc_blk c))"
    unfolding keys using live_slot_upd [OF il, of p] p
    by (auto simp: fun_eq_iff proc_pages_def restrict_map_def nth_list_update)
qed

text \<open>A process that is not there any more.\<close>

definition gone :: "process_t \<Rightarrow> process_t" where
  "gone p = p\<lparr>prc_mail := None, prc_mail_mutex := False, prc_junk := True, prc_thrd_arg := None\<rparr>"

lemma pc_inv_gone:
  assumes m: "mmu_inv m" and c: "pc_inv m c" and i: "live_slot (pc_list c) i"
    and m': "m_bk m' = m_bk m |` (- page_keys \<lparr>va_pid = word_of_int (int i), va_page = 0, va_offset = off\<rparr> (pc_blk c))"
      "d_process_block_size (mmu_disk m') = d_process_block_size (mmu_disk m)"
      "disk_blocks (mmu_disk m') (used_blocks (pc_blk c) (pc_list c) - {block_of (pc_blk c) (pc_list c ! i)})"
  shows "pc_inv m' (upd_slot i gone c)"
proof -
  let ?p = "gone (pc_list c ! i)"
  note C = pc_invD [OF c]
  have il: "i < length (pc_list c)" and junk: "prc_junk ?p" using i by (simp_all add: live_slot_def gone_def)
  have "slot_ok (pc_blk c) j ((pc_list c)[i := ?p] ! j)" if "live_slot ((pc_list c)[i := ?p]) j" for j
    using that C(8) [of j] junk live_slot_upd [OF il, of ?p j] by (cases "j = i") simp_all
  moreover have "m_bk m' = proc_pages (pc_blk c) ((pc_list c)[i := ?p])"
    unfolding m'(1) C(9) by (rule proc_pages_removed(1) [OF c i junk, symmetric]) simp_all
  moreover have "disk_blocks (mmu_disk m') (used_blocks (pc_blk c) ((pc_list c)[i := ?p]))"
    unfolding used_blocks_removed [OF m c i junk] by (rule m'(3))
  ultimately show ?thesis using C m'(2) by (simp add: pc_inv_def) (simp add: upd_slot_def)
qed

subsection \<open>Deallocation\<close>

lemma dealloc_memory:
  fixes off :: u32
  assumes m: "mmu_inv m" "mmu_lock m = rw_free" and c: "pc_inv m c" and i: "live_slot (pc_list c) i"
  defines "a \<equiv> \<lparr>va_pid = word_of_int (int i), va_page = 0, va_offset = off\<rparr>"
  shows "\<exists>m1 d. free_loop (pc_blk c) a m = Inr (ecSuccess, m1) \<and>
           disk_free_process_block (mmu_disk m1) (prc_disk_block_start (pc_list c ! i)) = Inr (ecSuccess, d) \<and>
           mmu_inv (m1\<lparr>mmu_disk := d\<rparr>) \<and> mmu_lock m1 = rw_free \<and> pc_inv (m1\<lparr>mmu_disk := d\<rparr>) (upd_slot i gone c) \<and>
           mmu_mem m1 = mmu_mem m \<and> d_npages d = d_npages (mmu_disk m) \<and>
           vmem (m1\<lparr>mmu_disk := d\<rparr>) = vmem m |` (- page_keys a (pc_blk c))"
proof -
  let ?b = "pc_blk c" let ?k = "block_of ?b (pc_list c ! i)" let ?K = "used_blocks ?b (pc_list c)"
  note C = pc_invD [OF c]
  have n: "?b \<le> 2 ^ 32" using C(6) by simp
  have dom: "page_keys a ?b \<subseteq> dom (m_bk m)"
    unfolding C(9) by (rule proc_pages_removed(2) [OF c i, of "gone (pc_list c ! i)"]) (simp_all add: a_def gone_def)
  obtain m1 where m1: "free_loop ?b a m = Inr (ecSuccess, m1)" "mmu_inv m1" "mmu_lock m1 = rw_free"
      "m_bk m1 = m_bk m |` (- page_keys a ?b)" "mmu_mem m1 = mmu_mem m" "mmu_disk m1 = mmu_disk m"
      "vmem m1 = vmem m |` (- page_keys a ?b)"
    using free_loop_ok [OF m n dom] by blast
  have start: "prc_disk_block_start (pc_list c ! i) = int (?k * disk_bsize (mmu_disk m))"
    using C(8) [OF i] unfolding C(7) by (simp add: slot_ok_def)
  have kK: "?k \<in> ?K" using i by (auto simp: used_blocks_def)
  obtain d where d: "disk_free_process_block (mmu_disk m) (prc_disk_block_start (pc_list c ! i)) = Inr (ecSuccess, d)"
      "disk_inv d" "same_disk (mmu_disk m) d" "disk_blocks d (?K - {?k})"
    using disk_free_found [OF mmu_invD(2) [OF m(1)] C(10) kK] unfolding start by blast
  obtain bm where bm: "d = (mmu_disk m)\<lparr>d_alloc_bitmap := bm\<rparr>" using d(3) by (auto simp: same_disk_def)
  have shape: "disk_bsize d = ?b" "disk_pages d = disk_pages (mmu_disk m)" using C(7) by (simp_all add: bm)
  have live: "\<forall>key p. m_bk m1 key = Some p \<longrightarrow> disk_live d (nat p)"
  proof (intro allI impI)
    fix key p assume that: "m_bk m1 key = Some p"
    then have mk: "m_bk m key = Some p" "key \<notin> page_keys a ?b" unfolding m1(4) by (auto simp: restrict_map_def split: if_splits)
    obtain j where j: "live_slot (pc_list c) j" "unat (fst key) = j" "nat p div ?b = block_of ?b (pc_list c ! j)"
      using proc_pages_block [OF c mk(1)] by blast
    have "j \<noteq> i"
    proof
      assume ji: "j = i"
      have i31: "i < 2 ^ 31" using i C(3) by (simp add: live_slot_def)
      have "page_keys a ?b = {(pid, page). unat pid = i \<and> unat page < ?b}"
        by (rule own_keys(1) [OF i31 C(6)]) (simp_all add: a_def)
      moreover have "unat (snd key) < ?b" using mk(1) unfolding C(9) proc_pages_def by (cases key) (auto split: if_splits)
      ultimately show False using mk(2) ji j(2) by (cases key) simp
    qed
    then have "nat p div ?b \<in> ?K - {?k}"
      using j blocks_distinct [OF m(1) c j(1) i] by (auto simp: used_blocks_def)
    moreover have "nat p < disk_pages d" using backing_page(4) [OF m(1) mk(1)] shape(2) by (simp add: disk_live_def)
    ultimately show "disk_live d (nat p)" using d(4) shape(1) by (auto simp: disk_blocks_def)
  qed
  have same: "same_disk (mmu_disk m1) d" using d(3) m1(6) by simp
  note D = mmu_disk_bitmap [OF m1(2) d(2) same live]
  have "pc_inv (m1\<lparr>mmu_disk := d\<rparr>) (upd_slot i gone c)"
    by (rule pc_inv_gone [OF m(1) c i]) (use D(2) m1(4) d(4) in \<open>simp_all add: bm a_def\<close>)
  moreover have "d_npages d = d_npages (mmu_disk m)" by (simp add: bm)
  ultimately show ?thesis using m1 d(1) D(1,3) by auto
qed

lemma process_dealloc_ok:
  fixes off :: u32
  assumes inv: "sys_inv sys" and i: "live_slot (pc_list (sys_cont sys)) i"
    and p: "prc_del (pc_list (sys_cont sys) ! i)" "prc_thrd_arg (pc_list (sys_cont sys) ! i) \<noteq> None"
  defines "a \<equiv> \<lparr>va_pid = word_of_int (int i), va_page = 0, va_offset = off\<rparr>"
  shows "\<exists>m. process_dealloc off sys (word_of_int (int i)) =
             Inr (ecSuccess, sys\<lparr>sys_vm := (sys_vm sys)\<lparr>vm_mmu := m\<rparr>, sys_cont := upd_slot i gone (sys_cont sys)\<rparr>) \<and>
           sys_inv (sys\<lparr>sys_vm := (sys_vm sys)\<lparr>vm_mmu := m\<rparr>, sys_cont := upd_slot i gone (sys_cont sys)\<rparr>) \<and>
           mmu_mem m = mmu_mem (vm_mmu (sys_vm sys)) \<and>
           d_npages (mmu_disk m) = d_npages (mmu_disk (vm_mmu (sys_vm sys))) \<and>
           vmem m = vm_view (sys_vm sys) |` (- page_keys a (pc_blk (sys_cont sys)))"
proof -
  define w :: u32 where "w = word_of_int (int i)"
  let ?c = "sys_cont sys" let ?p = "pc_list ?c ! i"
  have I: "mmu_inv (vm_mmu (sys_vm sys))" "mmu_lock (vm_mmu (sys_vm sys)) = rw_free" "pc_inv (vm_mmu (sys_vm sys)) ?c"
      "vm_inv (sys_vm sys)"
    using inv by (simp_all add: whole)
  note C = pc_invD [OF I(3)]
  have il: "i < length (pc_list ?c)" using i by (simp add: live_slot_def)
  then have w: "unat w = i" using pid_word [OF inv] by (simp add: w_def)
  obtain m1 d where m: "free_loop (pc_blk ?c) \<lparr>va_pid = w, va_page = 0, va_offset = off\<rparr> (vm_mmu (sys_vm sys)) = Inr (ecSuccess, m1)"
      "disk_free_process_block (mmu_disk m1) (prc_disk_block_start ?p) = Inr (ecSuccess, d)"
      "mmu_inv (m1\<lparr>mmu_disk := d\<rparr>)" "mmu_lock m1 = rw_free" "pc_inv (m1\<lparr>mmu_disk := d\<rparr>) (upd_slot i gone ?c)"
      "mmu_mem m1 = mmu_mem (vm_mmu (sys_vm sys))" "d_npages d = d_npages (mmu_disk (vm_mmu (sys_vm sys)))"
      "vmem (m1\<lparr>mmu_disk := d\<rparr>) = vm_view (sys_vm sys) |` (- page_keys a (pc_blk ?c))"
    using dealloc_memory [OF I(1-3) i, of off] unfolding w_def a_def by blast
  obtain q where q: "prc_mail ?p = Some q" "queue_inv q" using C(8) [OF i] by (auto simp: slot_ok_def)
  obtain q' where q': "queue_drain (Suc (nat (queue_size q))) q = Inr q'"
    using queue_drain_ok [OF q(2), of "Suc (nat (queue_size q))"] fq.count_ok [OF q(2)] by auto
  have blk: "nat (sint (pc_prc_blk_size ?c)) = pc_blk ?c" using sint_small C(6) by simp
  have slot: "\<not> prc_junk ?p" "\<not> prc_mail_mutex ?p" "wt_lock (prc_thrd ?p) = rw_free"
    using C(8) [OF i] i by (simp_all add: slot_ok_def live_slot_def)
  have get: "pc_proc ?c w = Inr ?p" "pc_upd w f ?c = Inr (upd_slot i f ?c)" for f
    using pc_proc_inv [OF I(3), of w] pc_upd_inv [OF I(3), of w] w il by simp_all
  have gone: "upd_slot i (\<lambda>p. p\<lparr>prc_mail := None, prc_mail_mutex := False, prc_junk := True, prc_thrd_arg := None\<rparr>) ?c =
      upd_slot i gone ?c"
    by (simp add: upd_slot_def gone_def)
  have mtx: "(upd_slot i gone ?c)\<lparr>pc_mutex := False\<rparr> = upd_slot i gone ?c"
    using C(4) by (cases ?c) (simp add: upd_slot_def)
  have "process_dealloc off sys w = Inr (ecSuccess,
      sys\<lparr>sys_vm := (sys_vm sys)\<lparr>vm_mmu := m1\<lparr>mmu_disk := d\<rparr>\<rparr>, sys_cont := upd_slot i gone ?c\<rparr>)"
    using C(4) slot p q(1) q' m(1,2)
    by (simp add: process_dealloc_def get mmu_free_multiple_def blk worker_thread_destroy_def gone mtx)
  moreover have "sys_inv (sys\<lparr>sys_vm := (sys_vm sys)\<lparr>vm_mmu := m1\<lparr>mmu_disk := d\<rparr>\<rparr>, sys_cont := upd_slot i gone ?c\<rparr>)"
    using m(3-5) I(4) by (simp add: whole)
  ultimately show ?thesis using m(6-8) unfolding w_def by (intro exI [of _ "m1\<lparr>mmu_disk := d\<rparr>"]) simp
qed

subsection \<open>Destruction by another thread\<close>

definition marked :: "post_t queue_t \<Rightarrow> process_t \<Rightarrow> process_t" where
  "marked q p = p\<lparr>prc_mail := Some q, prc_del := True\<rparr>"

lemma pc_inv_marked:
  assumes c: "pc_inv m c" and live: "live_slot (pc_list c) i" and q: "queue_inv q"
  shows "pc_inv m (upd_slot i (marked q) c)" "live_slot (pc_list (upd_slot i (marked q) c)) = live_slot (pc_list c)"
  using pc_inv_slot [OF c, of i "marked q"] live_slotD [OF c live] q
  by (simp_all add: slot_ok_def block_of_def marked_def)

text \<open>The process is idle: its mail box is empty and its thread runs.\<close>

definition idle_proc :: "sys_t \<Rightarrow> nat \<Rightarrow> bool" where
  "idle_proc sys i \<longleftrightarrow> live_slot (pc_list (sys_cont sys)) i \<and> \<not> prc_del (pc_list (sys_cont sys) ! i) \<and>
     has_thread (pc_list (sys_cont sys) ! i) \<and> mail_of (sys_cont sys) i = []"

text \<open>Up to the wait: the process is marked and has the order to go as the last post in its mail box.\<close>

lemma process_destroy_waits:
  assumes inv: "sys_inv sys" and live: "live_slot (pc_list (sys_cont sys)) i" and del: "\<not> prc_del (pc_list (sys_cont sys) ! i)"
  obtains q where "queue_inv q" "queue_list q = mail_of (sys_cont sys) i @ [create_post fcDel [] 0]"
    "process_destroy off fo sys (word_of_int (int i)) =
       rbind (await_delete (Suc (length (mail_of (sys_cont sys) i))) off fo (word_of_int (int i))
           (sys\<lparr>sys_cont := upd_slot i (marked q) (sys_cont sys)\<rparr>)) (\<lambda>sys1.
       rbind (pthread_mutex_lock (pc_mutex (sys_cont sys1))) (\<lambda>(_, m1).
       rbind (pthread_mutex_unlock m1) (\<lambda>(_, m2).
       Inr (ecSuccess, sys1\<lparr>sys_cont := (sys_cont sys1)\<lparr>pc_mutex := m2\<rparr>\<rparr>))))"
proof -
  define w :: u32 where "w = word_of_int (int i)"
  let ?c = "sys_cont sys" let ?p = "pc_list ?c ! i"
  have c: "pc_inv (vm_mmu (sys_vm sys)) ?c" using inv by (simp add: sys_inv_def)
  have il: "i < length (pc_list ?c)" using live by (simp add: live_slot_def)
  then have w: "unat w = i" using pid_word [OF inv] by (simp add: w_def)
  obtain q where q: "compose_mail ?c w (create_post fcDel [] 0) = Inr (ecSuccess, upd_slot i (\<lambda>p. p\<lparr>prc_mail := Some q\<rparr>) ?c)"
      "queue_inv q" "queue_list q = mail_of ?c i @ [create_post fcDel [] 0]"
    using compose_mail_live [OF c, of w "create_post fcDel [] 0"] live del unfolding w by auto
  have upd: "pc_upd w (\<lambda>p. p\<lparr>prc_del := True\<rparr>) (upd_slot i (\<lambda>p. p\<lparr>prc_mail := Some q\<rparr>) ?c) = Inr (upd_slot i (marked q) ?c)"
    using pc_upd_inv [OF pc_inv_mail(1) [OF c live q(2)], of w] il w by (simp add: upd_slot_twice marked_def [abs_def])
  have c1: "pc_inv (vm_mmu (sys_vm sys)) (upd_slot i (marked q) ?c)" by (rule pc_inv_marked(1) [OF c live q(2)])
  have cd: "pc_proc ?c w = Inr ?p" "\<not> prc_junk ?p" "\<not> pc_max_num_of_proc ?c \<le> w"
    using pc_proc_inv [OF c, of w] w il live pc_invD(2) [OF c] by (simp_all add: live_slot_def word_le_nat_alt)
  have mtx: "x\<lparr>pc_mutex := False\<rparr> = x" if "\<not> pc_mutex x" for x :: proc_cont_t using that by simp
  obtain q0 where "prc_mail ?p = Some q0" "queue_inv q0" using live_slotD [OF c live] by (auto simp: slot_ok_def)
  then have len: "(case prc_mail ?p of None \<Rightarrow> 0 | Some q \<Rightarrow> nat (queue_size q)) = length (mail_of ?c i)"
    using fq.count_ok [of q0] by (simp add: mail_of_def)
  show ?thesis
    using that [OF q(2,3), folded w_def] len pc_invD(4) [OF c] pc_invD(4) [OF c1] cd q(1) upd
    by (simp add: process_destroy_def mtx Let_def del: await_delete.simps)
qed

text \<open>The thread of the process finds nothing but the order to go.\<close>

lemma serve_del:
  fixes off :: u32
  assumes inv: "sys_inv sys" and live: "live_slot (pc_list (sys_cont sys)) i"
    and p: "prc_del (pc_list (sys_cont sys) ! i)" "has_thread (pc_list (sys_cont sys) ! i)"
    and mail: "mail_of (sys_cont sys) i = [create_post fcDel [] 0]"
  defines "a \<equiv> \<lparr>va_pid = word_of_int (int i), va_page = 0, va_offset = off\<rparr>"
  shows "\<exists>m. process_func off fo (word_of_int (int i)) sys =
             Inr (True, sys\<lparr>sys_vm := (sys_vm sys)\<lparr>vm_mmu := m\<rparr>, sys_cont := upd_slot i gone (sys_cont sys)\<rparr>) \<and>
           sys_inv (sys\<lparr>sys_vm := (sys_vm sys)\<lparr>vm_mmu := m\<rparr>, sys_cont := upd_slot i gone (sys_cont sys)\<rparr>) \<and>
           mmu_mem m = mmu_mem (vm_mmu (sys_vm sys)) \<and>
           vmem m = vm_view (sys_vm sys) |` (- page_keys a (pc_blk (sys_cont sys)))"
proof -
  define w :: u32 where "w = word_of_int (int i)"
  let ?c = "sys_cont sys"
  have c: "pc_inv (vm_mmu (sys_vm sys)) ?c" using inv by (simp add: sys_inv_def)
  have il: "i < length (pc_list ?c)" using live by (simp add: live_slot_def)
  then have w: "unat w = i" using pid_word [OF inv] by (simp add: w_def)
  obtain q where q: "process_func off fo w sys = process_switch off fo (mailed sys i q) w (create_post fcDel [] 0)"
      "queue_inv q" "queue_list q = []"
    using process_func_mail [OF c, of w _ _ off fo] live mail unfolding w mailed_def by blast
  let ?s = "mailed sys i q"
  note M = mailed_facts [OF inv live q(2)]
  have p': "prc_del (pc_list (sys_cont ?s) ! i)" "prc_thrd_arg (pc_list (sys_cont ?s) ! i) \<noteq> None"
    using p(1) p(2) M(10) [of i] by (simp_all add: M(6) has_thread_def)
  have "live_slot (pc_list (sys_cont ?s)) i" unfolding M(2) by (rule live)
  from process_dealloc_ok [OF M(1) this p', of off] obtain m where
    m: "process_dealloc off ?s w = Inr (ecSuccess, ?s\<lparr>sys_vm := (sys_vm ?s)\<lparr>vm_mmu := m\<rparr>, sys_cont := upd_slot i gone (sys_cont ?s)\<rparr>)"
      "sys_inv (?s\<lparr>sys_vm := (sys_vm ?s)\<lparr>vm_mmu := m\<rparr>, sys_cont := upd_slot i gone (sys_cont ?s)\<rparr>)"
      "mmu_mem m = mmu_mem (vm_mmu (sys_vm ?s))" "vmem m = vm_view (sys_vm ?s) |` (- page_keys a (pc_blk (sys_cont ?s)))"
    unfolding w_def a_def by blast
  have "gone (p\<lparr>prc_mail := Some q\<rparr>) = gone p" for p by (simp add: gone_def)
  then have r: "?s\<lparr>sys_vm := (sys_vm ?s)\<lparr>vm_mmu := m\<rparr>, sys_cont := upd_slot i gone (sys_cont ?s)\<rparr> =
      sys\<lparr>sys_vm := (sys_vm sys)\<lparr>vm_mmu := m\<rparr>, sys_cont := upd_slot i gone ?c\<rparr>"
    using il by (simp add: mailed_def upd_slot_twice)
  have "process_switch off fo ?s w (create_post fcDel [] 0) = rbind (process_dealloc off ?s w) (\<lambda>(_, s). Inr (True, s))"
    by (simp add: process_switch_def create_post_def)
  then have "process_func off fo w sys = Inr (True, sys\<lparr>sys_vm := (sys_vm sys)\<lparr>vm_mmu := m\<rparr>, sys_cont := upd_slot i gone ?c\<rparr>)"
    unfolding q(1) m(1) r by (simp only: rbind_Inr prod.case)
  from this m(2) [unfolded r] m(3,4) [unfolded M(4,7)] show ?thesis unfolding w_def [symmetric]
    by (intro exI [of _ m] conjI)
qed

lemma await_serve_del:
  assumes inv: "sys_inv sys" and live: "live_slot (pc_list (sys_cont sys)) i"
    and p: "prc_del (pc_list (sys_cont sys) ! i)" "has_thread (pc_list (sys_cont sys) ! i)"
  shows "await_delete (Suc k) off fo (word_of_int (int i)) sys =
    rbind (process_func off fo (word_of_int (int i)) sys) (\<lambda>(stop, s).
      if stop then Inr s else await_delete k off fo (word_of_int (int i)) s)"
proof -
  define w :: u32 where "w = word_of_int (int i)"
  have c: "pc_inv (vm_mmu (sys_vm sys)) (sys_cont sys)" using inv by (simp add: sys_inv_def)
  have il: "i < length (pc_list (sys_cont sys))" using live by (simp add: live_slot_def)
  have "unat w = i" unfolding w_def by (rule pid_word [OF inv il])
  then have "pc_proc (sys_cont sys) w = Inr (pc_list (sys_cont sys) ! i)" using pc_proc_inv [OF c, of w] il by simp
  then show ?thesis unfolding w_def [symmetric] using p(2) by (simp add: has_thread_def)
qed

lemma process_destroy_ok:
  fixes off :: u32
  assumes inv: "sys_inv sys" and idle: "idle_proc sys i"
  defines "a \<equiv> \<lparr>va_pid = word_of_int (int i), va_page = 0, va_offset = off\<rparr>"
  shows "\<exists>m q. process_destroy off fo sys (word_of_int (int i)) = Inr (ecSuccess,
             sys\<lparr>sys_vm := (sys_vm sys)\<lparr>vm_mmu := m\<rparr>, sys_cont := upd_slot i (\<lambda>p. gone (marked q p)) (sys_cont sys)\<rparr>) \<and>
           sys_inv (sys\<lparr>sys_vm := (sys_vm sys)\<lparr>vm_mmu := m\<rparr>, sys_cont := upd_slot i (\<lambda>p. gone (marked q p)) (sys_cont sys)\<rparr>) \<and>
           mmu_mem m = mmu_mem (vm_mmu (sys_vm sys)) \<and>
           vmem m = vm_view (sys_vm sys) |` (- page_keys a (pc_blk (sys_cont sys)))"
proof -
  let ?c = "sys_cont sys" let ?w = "word_of_int (int i) :: u32"
  have c: "pc_inv (vm_mmu (sys_vm sys)) ?c" using inv by (simp add: sys_inv_def)
  have live: "live_slot (pc_list ?c) i" and p: "\<not> prc_del (pc_list ?c ! i)" "has_thread (pc_list ?c ! i)" "mail_of ?c i = []"
    using idle by (simp_all add: idle_proc_def)
  have il: "i < length (pc_list ?c)" using live by (simp add: live_slot_def)
  obtain q where q: "queue_inv q" "queue_list q = [create_post fcDel [] 0]"
      and destroy: "process_destroy off fo sys ?w =
       rbind (await_delete (Suc 0) off fo ?w (sys\<lparr>sys_cont := upd_slot i (marked q) ?c\<rparr>)) (\<lambda>sys1.
       rbind (pthread_mutex_lock (pc_mutex (sys_cont sys1))) (\<lambda>(_, m1).
       rbind (pthread_mutex_unlock m1) (\<lambda>(_, m2).
       Inr (ecSuccess, sys1\<lparr>sys_cont := (sys_cont sys1)\<lparr>pc_mutex := m2\<rparr>\<rparr>))))"
    by (rule process_destroy_waits [OF inv live p(1), where off = off and fo = fo, unfolded p(3) append_Nil list.size(3)])
  let ?s = "sys\<lparr>sys_cont := upd_slot i (marked q) ?c\<rparr>"
  have S: "sys_inv ?s" "live_slot (pc_list (sys_cont ?s)) i" "prc_del (pc_list (sys_cont ?s) ! i)"
      "has_thread (pc_list (sys_cont ?s) ! i)" "mail_of (sys_cont ?s) i = [create_post fcDel [] 0]"
    using inv live pc_inv_marked [OF c live q(1)] il q(2) p(2) by (simp_all add: sys_inv_def marked_def mail_of_def)
  obtain m where m: "process_func off fo ?w ?s = Inr (True, ?s\<lparr>sys_vm := (sys_vm ?s)\<lparr>vm_mmu := m\<rparr>, sys_cont := upd_slot i gone (sys_cont ?s)\<rparr>)"
      "sys_inv (?s\<lparr>sys_vm := (sys_vm ?s)\<lparr>vm_mmu := m\<rparr>, sys_cont := upd_slot i gone (sys_cont ?s)\<rparr>)"
      "mmu_mem m = mmu_mem (vm_mmu (sys_vm sys))" "vmem m = vm_view (sys_vm sys) |` (- page_keys a (pc_blk ?c))"
    using serve_del [OF S, of off fo] unfolding a_def by auto
  have r: "?s\<lparr>sys_vm := (sys_vm ?s)\<lparr>vm_mmu := m\<rparr>, sys_cont := upd_slot i gone (sys_cont ?s)\<rparr> =
      sys\<lparr>sys_vm := (sys_vm sys)\<lparr>vm_mmu := m\<rparr>, sys_cont := upd_slot i (\<lambda>p. gone (marked q p)) ?c\<rparr>"
    using il by (simp add: upd_slot_twice)
  have mtx: "x\<lparr>pc_mutex := False\<rparr> = x" if "\<not> pc_mutex x" for x :: proc_cont_t using that by simp
  show ?thesis
    using m destroy pc_invD(4) [OF c] unfolding await_serve_del [OF S(1-4)] r by (auto simp: mtx)
qed

text \<open>A process that still has a job to do does it before it goes.\<close>

lemma destroy_end:
  assumes "w = Inr r" "\<not> pc_mutex (sys_cont r)"
  shows "rbind w (\<lambda>sys1. rbind (pthread_mutex_lock (pc_mutex (sys_cont sys1))) (\<lambda>(_, m1).
       rbind (pthread_mutex_unlock m1) (\<lambda>(_, m2).
       Inr (ecSuccess, sys1\<lparr>sys_cont := (sys_cont sys1)\<lparr>pc_mutex := m2\<rparr>\<rparr>)))) = Inr (ecSuccess, r)"
  using assms by simp

lemma process_destroy_busy:
  fixes off :: u32
  assumes inv: "sys_inv sys" and live: "live_slot (pc_list (sys_cont sys)) i"
    and p: "\<not> prc_del (pc_list (sys_cont sys) ! i)" "has_thread (pc_list (sys_cont sys) ! i)"
    and mail: "mail_of (sys_cont sys) i = [job_post (vm_psize (sys_vm sys)) (word_of_int (int i)) j]"
    and job: "job_mutex (sys_job sys)" "job_ok (pc_blk (sys_cont sys) * vm_psize (sys_vm sys)) j"
    and fo: "fo \<or> job_sink j = None \<or> job_sink j = Some None"
  shows "\<exists>sys' bs. process_destroy off fo sys (word_of_int (int i)) = Inr (ecSuccess, sys') \<and> sys_inv sys' \<and>
           (\<forall>k. live_slot (pc_list (sys_cont sys')) k \<longleftrightarrow> k \<noteq> i \<and> live_slot (pc_list (sys_cont sys)) k) \<and>
           length (pc_list (sys_cont sys')) = length (pc_list (sys_cont sys)) \<and>
           sys_out sys' = sys_out sys @ job_out j bs \<and>
           (job_sink j \<noteq> None \<longrightarrow> job_reads (word_of_int (int i)) j (cells (sys_vm sys)) bs)"
proof -
  let ?c = "sys_cont sys" let ?w = "word_of_int (int i) :: u32"
  have c: "pc_inv (vm_mmu (sys_vm sys)) ?c" using inv by (simp add: sys_inv_def)
  have il: "i < length (pc_list ?c)" using live by (simp add: live_slot_def)
  obtain q where q: "queue_inv q" "queue_list q = mail_of ?c i @ [create_post fcDel [] 0]"
      and destroy: "process_destroy off fo sys ?w =
       rbind (await_delete (Suc (Suc 0)) off fo ?w (sys\<lparr>sys_cont := upd_slot i (marked q) ?c\<rparr>)) (\<lambda>sys1.
       rbind (pthread_mutex_lock (pc_mutex (sys_cont sys1))) (\<lambda>(_, m1).
       rbind (pthread_mutex_unlock m1) (\<lambda>(_, m2).
       Inr (ecSuccess, sys1\<lparr>sys_cont := (sys_cont sys1)\<lparr>pc_mutex := m2\<rparr>\<rparr>))))"
    by (rule process_destroy_waits [OF inv live p(1), where off = off and fo = fo]) (use mail in simp)
  let ?s = "sys\<lparr>sys_cont := upd_slot i (marked q) ?c\<rparr>"
  have S: "sys_inv ?s" "live_slot (pc_list (sys_cont ?s)) i" "prc_del (pc_list (sys_cont ?s) ! i)"
      "has_thread (pc_list (sys_cont ?s) ! i)"
      "mail_of (sys_cont ?s) i = job_post (vm_psize (sys_vm ?s)) ?w j # [create_post fcDel [] 0]"
      "live_slot (pc_list (sys_cont ?s)) = live_slot (pc_list ?c)" "pc_blk (sys_cont ?s) = pc_blk ?c"
    using inv live pc_inv_marked [OF c live q(1)] il q(2) p(2) mail by (simp_all add: sys_inv_def marked_def mail_of_def)
  have J: "job_mutex (sys_job ?s)" "job_ok (pc_blk (sys_cont ?s) * vm_psize (sys_vm ?s)) j"
    using job unfolding S(7) by simp_all
  obtain q' bs vm where m: "process_func off fo ?w ?s = Inr (False, job_result (mailed ?s i q') j bs vm)"
      "queue_inv q'" "queue_list q' = [create_post fcDel [] 0]" "job_served ?s ?w j bs vm"
      "sys_inv (job_result (mailed ?s i q') j bs vm)"
    using serve_mail [OF S(1,2,5) refl J fo, of off] by blast
  let ?t = "job_result (mailed ?s i q') j bs vm"
  note M = mailed_facts [OF S(1,2) m(2)]
  have T: "sys_cont ?t = sys_cont (mailed ?s i q')" "sys_out ?t = sys_out sys @ job_out j bs"
    using M(9) by (simp_all add: job_result_def)
  have T': "live_slot (pc_list (sys_cont ?t)) i" "prc_del (pc_list (sys_cont ?t) ! i)" "has_thread (pc_list (sys_cont ?t) ! i)"
      "mail_of (sys_cont ?t) i = [create_post fcDel [] 0]"
    using S(2-4) M(2,3) M(6,10) [of i] m(3) unfolding T(1) by simp_all
  obtain n where n: "process_func off fo ?w ?t = Inr (True, ?t\<lparr>sys_vm := (sys_vm ?t)\<lparr>vm_mmu := n\<rparr>, sys_cont := upd_slot i gone (sys_cont ?t)\<rparr>)"
      "sys_inv (?t\<lparr>sys_vm := (sys_vm ?t)\<lparr>vm_mmu := n\<rparr>, sys_cont := upd_slot i gone (sys_cont ?t)\<rparr>)"
    using serve_del [OF m(5) T', of off fo] by blast
  let ?r = "?t\<lparr>sys_vm := (sys_vm ?t)\<lparr>vm_mmu := n\<rparr>, sys_cont := upd_slot i gone (sys_cont ?t)\<rparr>"
  have "await_delete (Suc (Suc 0)) off fo ?w ?s = Inr ?r"
    unfolding await_serve_del [OF S(1-4)] m(1) rbind_Inr prod.case if_False await_serve_del [OF m(5) T'(1-3)] n(1)
    by (simp only: rbind_Inr prod.case if_True)
  moreover have "\<not> pc_mutex (sys_cont ?r)" using n(2) pc_invD(4) by (auto simp only: sys_inv_def)
  ultimately have d: "process_destroy off fo sys ?w = Inr (ecSuccess, ?r)" unfolding destroy by (rule destroy_end)
  have len: "length (pc_list (sys_cont ?t)) = length (pc_list ?c)" unfolding T(1) by (simp add: mailed_def)
  have live': "live_slot (pc_list (sys_cont ?t)) = live_slot (pc_list ?c)" unfolding T(1) M(2) S(6) ..
  have "live_slot (pc_list (sys_cont ?r)) k \<longleftrightarrow> k \<noteq> i \<and> live_slot (pc_list ?c) k" for k
    using live_slot_upd [of i "pc_list (sys_cont ?t)" "gone (pc_list (sys_cont ?t) ! i)" k] il len live'
    by (auto simp: gone_def)
  moreover have "job_sink j \<noteq> None \<longrightarrow> job_reads ?w j (cells (sys_vm sys)) bs" using m(4) by (simp add: job_served_def)
  moreover have "sys_out ?r = sys_out sys @ job_out j bs" using T(2) by simp
  moreover have "length (pc_list (sys_cont ?r)) = length (pc_list ?c)" using len by simp
  ultimately show ?thesis using d n(2) by blast
qed

text \<open>Nothing to delete.\<close>

lemma process_destroy_none:
  assumes inv: "sys_inv sys"
  shows "length (pc_list (sys_cont sys)) \<le> unat pid \<Longrightarrow> process_destroy off fo sys pid = Inr (ecFail, sys)"
    "unat pid < length (pc_list (sys_cont sys)) \<Longrightarrow> \<not> live_slot (pc_list (sys_cont sys)) (unat pid) \<Longrightarrow>
       process_destroy off fo sys pid = Inr (ecNotFound, sys)"
proof -
  have c: "pc_inv (vm_mmu (sys_vm sys)) (sys_cont sys)" using inv by (simp add: sys_inv_def)
  have same: "sys\<lparr>sys_cont := (sys_cont sys)\<lparr>pc_mutex := False\<rparr>\<rparr> = sys" using pc_invD(4) [OF c] by simp
  show "length (pc_list (sys_cont sys)) \<le> unat pid \<Longrightarrow> process_destroy off fo sys pid = Inr (ecFail, sys)"
    using pc_invD(2,4) [OF c] same by (simp add: process_destroy_def word_le_nat_alt)
  show "process_destroy off fo sys pid = Inr (ecNotFound, sys)"
    if "unat pid < length (pc_list (sys_cont sys))" "\<not> live_slot (pc_list (sys_cont sys)) (unat pid)"
    using that pc_invD(2,4) [OF c] same pc_proc_inv [OF c that(1)]
    by (simp add: process_destroy_def word_le_nat_alt live_slot_def)
qed

text \<open>What is gone and what stays.\<close>

lemma process_destroy_frees:
  assumes inv: "sys_inv sys" and idle: "idle_proc sys i"
  shows "\<exists>sys'. process_destroy off fo sys (word_of_int (int i)) = Inr (ecSuccess, sys') \<and> sys_inv sys' \<and>
           (\<forall>j. live_slot (pc_list (sys_cont sys')) j \<longleftrightarrow> j \<noteq> i \<and> live_slot (pc_list (sys_cont sys)) j) \<and>
           (\<forall>j. j \<noteq> i \<longrightarrow> pc_list (sys_cont sys') ! j = pc_list (sys_cont sys) ! j) \<and>
           (\<forall>page. page_of (vm_mmu (sys_vm sys')) (word_of_int (int i), page) = None) \<and>
           (\<forall>pid page. unat pid \<noteq> i \<longrightarrow> vm_view (sys_vm sys') (pid, page) = vm_view (sys_vm sys) (pid, page))"
proof -
  let ?c = "sys_cont sys"
  have c: "pc_inv (vm_mmu (sys_vm sys)) ?c" using inv by (simp add: sys_inv_def)
  note C = pc_invD [OF c]
  have live: "live_slot (pc_list ?c) i" using idle by (simp add: idle_proc_def)
  then have il: "i < length (pc_list ?c)" by (simp add: live_slot_def)
  obtain m q where r: "process_destroy off fo sys (word_of_int (int i)) = Inr (ecSuccess,
        sys\<lparr>sys_vm := (sys_vm sys)\<lparr>vm_mmu := m\<rparr>, sys_cont := upd_slot i (\<lambda>p. gone (marked q p)) ?c\<rparr>)"
      "sys_inv (sys\<lparr>sys_vm := (sys_vm sys)\<lparr>vm_mmu := m\<rparr>, sys_cont := upd_slot i (\<lambda>p. gone (marked q p)) ?c\<rparr>)"
      "vmem m = vm_view (sys_vm sys) |` (- page_keys \<lparr>va_pid = word_of_int (int i), va_page = 0, va_offset = off\<rparr> (pc_blk ?c))"
    using process_destroy_ok [OF inv idle, of off fo] by blast
  let ?s = "sys\<lparr>sys_vm := (sys_vm sys)\<lparr>vm_mmu := m\<rparr>, sys_cont := upd_slot i (\<lambda>p. gone (marked q p)) ?c\<rparr>"
  have list: "pc_list (sys_cont ?s) = (pc_list ?c)[i := gone (marked q (pc_list ?c ! i))]" by simp
  have junk: "prc_junk (gone (marked q (pc_list ?c ! i)))" by (simp add: gone_def)
  have alive: "live_slot (pc_list (sys_cont ?s)) j \<longleftrightarrow> j \<noteq> i \<and> live_slot (pc_list ?c) j" for j
    unfolding list using live_slot_upd [OF il, of "gone (marked q (pc_list ?c ! i))" j] junk by auto
  have i31: "i < 2 ^ 31" using il C(3) by simp
  have keys: "page_keys \<lparr>va_pid = word_of_int (int i), va_page = 0, va_offset = off\<rparr> (pc_blk ?c) =
      {(pid, page). unat pid = i \<and> unat page < pc_blk ?c}"
    by (rule own_keys(1) [OF i31 C(6)]) simp_all
  have "unat (word_of_int (int i) :: u32) = i" using slot_word(1) [OF i31] .
  moreover have "pc_inv (vm_mmu (sys_vm ?s)) (sys_cont ?s)" using r(2) by (simp only: sys_inv_def)
  ultimately have none: "page_of (vm_mmu (sys_vm ?s)) (word_of_int (int i), page) = None" for page
    using pc_invD(9) [of "vm_mmu (sys_vm ?s)" "sys_cont ?s"] alive [of i] by (simp add: page_of_def proc_pages_def del: upd_slot_simps)
  have other: "vm_view (sys_vm ?s) (pid, page) = vm_view (sys_vm sys) (pid, page)" if "unat pid \<noteq> i" for pid page
    using r(3) that unfolding keys by (simp add: restrict_map_def)
  have "pc_list (sys_cont ?s) ! j = pc_list ?c ! j" if "j \<noteq> i" for j using that by simp
  then show ?thesis using r(1,2) alive none other by blast
qed

end
