(* ===== verification/Vm_Safety.thy ===== *)
theory Vm_Safety
  imports Process_Delete
begin

text \<open>
  What can go wrong with an access: to a page that nobody owns it fails an assertion. So whatever a
  process does with an address inside a page, if it returns, then every invariant is kept.
\<close>

subsection \<open>The fault on a page without a backing page\<close>

text \<open>The page gets a frame, but there is nothing to load it from.\<close>

lemma load_unbacked:
  assumes inv: "mmu_inv m" and none: "m_bk m (vkey a) = None" and spare: "m_spare m = f # F"
  shows "\<exists>t. mmu_map_page m a = Inr (ecSuccess, m\<lparr>mmu_mem_ipt := t\<rparr>) \<and>
           ipt_translate t a = Inr (ecSuccess, word_of_int (int f)) \<and>
           mmu_sync_from_backing_page (m\<lparr>mmu_mem_ipt := t\<rparr>) a = Inl AssertFailed"
proof -
  note D = mmu_invD [OF inv]
  have absent: "m_abs m (vkey a) = None" using none D(7) by blast
  obtain t where t: "ipt_add (mmu_mem_ipt m) a = Inr (ecSuccess, t)" "ipt_inv t" "ipt_abs t = (m_abs m)(vkey a \<mapsto> f)"
    using ipt_add_ok [OF D(3) absent spare] by blast
  have tr: "ipt_translate t a = Inr (ecSuccess, word_of_int (int f))" using ipt_translate_inv [OF t(2), of a] t(3) by simp
  moreover have "mmu_map_page m a = Inr (ecSuccess, m\<lparr>mmu_mem_ipt := t\<rparr>)"
    using t(1) absent by (simp add: mmu_map_page_def ipt_has_translation_inv D)
  moreover have "mmu_sync_from_backing_page (m\<lparr>mmu_mem_ipt := t\<rparr>) a = Inl AssertFailed"
    using tr map_get_bk [OF inv, of a True] none by (simp add: mmu_sync_from_backing_page_def cassert_def)
  ultimately show ?thesis by blast
qed

lemma prm_serve_unbacked:
  assumes inv: "mmu_inv m" and free: "mmu_lock m = rw_free" and none: "m_bk m (vkey a) = None"
  shows "prm_serve m s a = Inl AssertFailed"
proof -
  let ?m = "m\<lparr>mmu_lock := rw_writing\<rparr>"
  have inv': "mmu_inv ?m" "m_bk ?m (vkey a) = None" using inv none by simp_all
  have absent: "m_abs ?m (vkey a) = None" using none mmu_invD(7) [OF inv] by auto
  show ?thesis
  proof (cases "m_spare ?m")
    case (Cons f F)
    from load_unbacked [OF inv' Cons] show ?thesis
      using free by (auto simp: prm_serve_def mmu_lock_steps numeral_2_eq_2)
  next
    case Nil
    obtain v m1 s' f where sw: "get_page_to_swap ?m s a = Inr (v, m1, s')" "mmu_inv m1" "m_abs ?m (vkey v) = Some f"
        "m_abs m1 = m_abs ?m" "m_spare m1 = m_spare ?m" "m1 = ?m\<lparr>mmu_mem_ipt := mmu_mem_ipt m1\<rparr>"
      using get_page_to_swap_ok [OF inv'(1) full_evictable [OF inv'(1) absent Nil], of s] by blast
    then obtain t where "m1 = ?m\<lparr>mmu_mem_ipt := t\<rparr>" by blast
    then have m1: "m_abs m1 (vkey v) = Some f" "m_spare m1 = []" "m_bk m1 = m_bk m"
      using sw(3-5) Nil by (simp_all add: m_bk_def)
    obtain m2 where m2: "prm_swap_out m1 v = Inr m2" "mmu_inv m2" "m_bk m2 = m_bk m" "m_spare m2 = [f]"
      using prm_swap_out_ok [OF sw(2) m1(1)] m1(2,3) by (auto simp: same_rest_def)
    have none2: "m_bk m2 (vkey a) = None" using none m2(3) by simp
    from load_unbacked [OF m2(2) none2 m2(4)] show ?thesis
      using free sw(1) m2(1) mmu_map_full [OF inv'(1) absent Nil]
      by (auto simp: prm_serve_def mmu_lock_steps numeral_2_eq_2)
  qed
qed

lemma prm_pagefault_unbacked:
  assumes inv: "mmu_inv m" and free: "mmu_lock m = rw_free" and idle: "prm_idle p" and none: "m_bk m (vkey a) = None"
  shows "prm_pagefault m p a = Inl AssertFailed"
proof -
  have I: "queue_inv (prm_queue p)" "queue_list (prm_queue p) = []" "\<not> prm_mutex p" "\<not> prm_queue_mutex p"
      "prm_running p" "\<And>i. \<not> prm_oom p i"
    using idle by (simp_all add: prm_idle_def)
  let ?c = "prm_brk p" and ?cd = "\<lparr>cmd_addr = a, cmd_done = False\<rparr>"
  let ?p1 = "p\<lparr>prm_cmds := (prm_cmds p)(?c \<mapsto> ?cd), prm_brk := Suc ?c\<rparr>"
  obtain q where q: "push_command ?p1 ?c = Inr (?p1\<lparr>prm_queue := q\<rparr>)" "queue_inv q" "queue_list q = [?c]"
    using push_command_ok [of ?p1 ?c] I by auto
  let ?p2 = "?p1\<lparr>prm_queue := q\<rparr>"
  obtain q' where q': "queue_pop q = Inr (Some ?c, q')" using fq.pop_cons [OF q(2,3)] by blast
  have "prm_thread_func m ?p2 = Inl AssertFailed"
    using q' I prm_serve_unbacked [OF inv free none] by (simp add: prm_thread_func_def cmd_load_def)
  moreover have unlock: "?p2\<lparr>prm_mutex := False\<rparr> = ?p2" using I(3) by (cases p) simp
  ultimately have "wait_for_completion (Suc (nat (queue_size q))) m (?p2\<lparr>prm_mutex := True\<rparr>) ?c = Inl AssertFailed"
    by (simp add: cmd_load_def)
  then show ?thesis
    using q(1) I by (simp add: prm_pagefault_def fault_push_def new_prm_command_def del: wait_for_completion.simps)
qed

lemma pin_unbacked:
  assumes inv: "mmu_inv (vm_mmu vm)" and lock: "mmu_lock (vm_mmu vm) = rw_reading" and idle: "prm_idle (vm_prm vm)"
    and none: "vm_bk vm (vkey a) = None"
  shows "mmu_pin_page vm a = Inl AssertFailed"
proof -
  let ?m = "vm_mmu vm"
  note D = mmu_invD [OF inv]
  have "m_abs ?m (vkey a) = None" using none D(7) by blast
  then have "ipt_has_translation (mmu_mem_ipt ?m) a = Inr False" by (simp add: ipt_has_translation_inv D)
  moreover have "fault_loop (Suc k) (vm\<lparr>vm_mmu := ?m\<lparr>mmu_stats := st, mmu_stats_lock := rw_free\<rparr>\<rparr>) a = Inl AssertFailed" for k st
  proof -
    let ?m1 = "?m\<lparr>mmu_stats := st, mmu_stats_lock := rw_free, mmu_lock := rw_free\<rparr>"
    have "mmu_inv ?m1" "mmu_lock ?m1 = rw_free" "m_bk ?m1 (vkey a) = None"
      using inv none D(9) by (simp_all add: mmu_inv_def m_bk_def)
    from prm_pagefault_unbacked [OF this(1,2) idle this(3)] show ?thesis using lock by (simp add: mmu_lock_steps)
  qed
  ultimately show ?thesis using D(9) by (simp add: mmu_pin_page_def pin_count_def Let_def numeral_2_eq_2 del: fault_loop.simps)
qed

subsection \<open>Accesses\<close>

lemma unbacked:
  assumes "vm_inv vm" "vm_bk vm (vkey a) = None" "unat (va_offset a) + unat n \<le> vm_psize vm"
  shows "mmu_read vm a n = Inl AssertFailed" "mmu_write vm a n buf = Inl AssertFailed"
proof -
  have "mmu_pin_page (vm\<lparr>vm_mmu := (vm_mmu vm)\<lparr>mmu_lock := rw_reading\<rparr>\<rparr>) a = Inl AssertFailed"
    by (rule pin_unbacked) (use assms in \<open>simp_all add: vm_inv_def\<close>)
  then show "mmu_read vm a n = Inl AssertFailed" "mmu_write vm a n buf = Inl AssertFailed"
    using read_fits_ok [OF _ assms(3)] write_fits_ok [OF _ assms(3)] assms(1)
    by (simp_all add: mmu_read_def mmu_write_def mmu_lock_steps vm_inv_def)
qed

text \<open>One byte inside a page, whoever it belongs to.\<close>

lemma read_safe:
  assumes inv: "vm_inv vm" and a: "unat (va_offset a) < vm_psize vm" and r: "mmu_read vm a 1 = Inr (ec, b, vm')"
  shows "ec = ecSuccess \<and> vm_kept vm vm'"
proof (cases "vm_bk vm (vkey a)")
  case None
  then show ?thesis using unbacked(1) [OF inv None, of 1] a r by simp
next
  case (Some p)
  then obtain pg where pg: "page_of (vm_mmu vm) (vkey a) = Some pg" by (simp add: page_of_def)
  have "unat (va_offset a) + unat (1 :: u32) \<le> vm_psize vm" using a by simp
  from mmu_read_ok [OF inv pg this] show ?thesis using r access_kept [of vm "vkey a" vm'] by auto
qed

lemma write_safe:
  assumes inv: "vm_inv vm" and a: "unat (va_offset a) < vm_psize vm" and r: "mmu_write vm a 1 buf = Inr (ec, vm')"
    and buf: "buf \<noteq> []"
  shows "ec = ecSuccess \<and> vm_kept vm vm'"
proof (cases "vm_bk vm (vkey a)")
  case None
  then show ?thesis using unbacked(2) [OF inv None, of 1 buf] a r by simp
next
  case (Some p)
  then obtain pg where pg: "page_of (vm_mmu vm) (vkey a) = Some pg" by (simp add: page_of_def)
  have "unat (va_offset a) + unat (1 :: u32) \<le> vm_psize vm" "unat (1 :: u32) \<le> length buf"
    using a buf by (simp_all add: Suc_le_eq)
  from mmu_write_ok [OF inv pg this] show ?thesis using r access_kept [of vm "vkey a" vm'] by auto
qed

end
