(* ===== verification/Sys_Safety.thy ===== *)
theory Sys_Safety
  imports Vm_Safety
begin

text \<open>
  The invariant of the whole simulator, and that no request and no piece of mail can break it:
  whatever the user asks for, if the program does not fault, then it goes on in a good state.
\<close>

subsection \<open>The loops over the bytes\<close>

lemma advance_in_page:
  assumes "0 < ps" "ps < 2 ^ 31" "unat (va_offset v) < ps" "0 \<le> off" "off < 2 ^ 31"
  obtains v' where "advance_virt_addr v off (int ps) = Inr v'" "unat (va_offset v') < ps"
proof -
  have n: "off = int (nat off)" "nat off < 2 ^ 31" using assms(4,5) by auto
  let ?o = "(unat (va_offset v) + nat off) mod ps"
  have "?o < ps" using assms(1) by simp
  then have "unat (word_of_int (int ?o) :: u32) < ps" using assms(2) unat_small [of ?o] by simp
  then show thesis
    using that advance_virt_addr_ok [OF assms(1-3) n(2)] n(1) by simp
qed

lemma read_loop_safe:
  assumes "vm_inv vm" "unat (va_offset v) < vm_psize vm" "0 \<le> off" "off < 2 ^ 31"
    and "sim_read_loop n vm v off (int (vm_psize vm)) = Inr (ec, bs, vm')"
  shows "ec = ecSuccess \<and> vm_kept vm vm'"
  using assms(1,2,5)
proof (induction n arbitrary: vm v bs)
  case 0
  then show ?case by (simp add: vm_kept_refl)
next
  case (Suc n)
  note P = vm_psize_bound [OF Suc.prems(1)]
  obtain v' where v': "advance_virt_addr v off (int (vm_psize vm)) = Inr v'" "unat (va_offset v') < vm_psize vm"
    using advance_in_page [OF _ _ Suc.prems(2) assms(3,4)] P by blast
  obtain ec1 b vm1 where r: "mmu_read vm v 1 = Inr (ec1, b, vm1)" using Suc.prems(3) by (auto simp: rbind_eq_Inr)
  note S = read_safe [OF Suc.prems(1,2) r]
  then have k: "vm_psize vm1 = vm_psize vm" "vm_inv vm1" by (simp_all add: vm_kept_def)
  obtain bs' where "sim_read_loop n vm1 v' off (int (vm_psize vm1)) = Inr (ec, bs', vm')"
    using Suc.prems(3) r v'(1) S k(1) by (auto simp: rbind_eq_Inr)
  from Suc.IH [OF k(2) _ this] show ?case using v'(2) k(1) S vm_kept_trans by auto
qed

lemma write_loop_safe:
  assumes "vm_inv vm" "unat (va_offset v) < vm_psize vm" "n \<le> length s"
    and "sim_write_loop n vm v s (int (vm_psize vm)) = Inr (ec, vm')"
  shows "ec = ecSuccess \<and> vm_kept vm vm'"
  using assms
proof (induction n arbitrary: vm v s)
  case 0
  then show ?case by (simp add: vm_kept_refl)
next
  case (Suc n)
  note P = vm_psize_bound [OF Suc.prems(1)]
  obtain v' where v': "advance_virt_addr v 1 (int (vm_psize vm)) = Inr v'" "unat (va_offset v') < vm_psize vm"
    using advance_in_page [OF _ _ Suc.prems(2), of 1] P by auto
  obtain x s' where s: "s = x # s'" using Suc.prems(3) by (cases s) auto
  obtain ec1 vm1 where r: "mmu_write vm v 1 (take 1 s) = Inr (ec1, vm1)" using Suc.prems(4) by (auto simp: rbind_eq_Inr)
  have "take 1 s \<noteq> []" using s by simp
  note S = write_safe [OF Suc.prems(1,2) r this]
  then have k: "vm_psize vm1 = vm_psize vm" "vm_inv vm1" by (simp_all add: vm_kept_def)
  have "sim_write_loop n vm1 v' (drop 1 s) (int (vm_psize vm1)) = Inr (ec, vm')"
    using Suc.prems(4) r v'(1) S k(1) by (auto simp: rbind_eq_Inr)
  from Suc.IH [OF k(2) _ _ this] show ?case using v'(2) k(1) S s Suc.prems(3) vm_kept_trans by auto
qed

lemma loop_write_loop_safe:
  assumes "vm_inv vm" "unat (va_offset v) < vm_psize vm" "0 \<le> off" "off < 2 ^ 31"
    and "sim_loop_write_loop n vm v x off (int (vm_psize vm)) = Inr (ec, vm')"
  shows "ec = ecSuccess \<and> vm_kept vm vm'"
  using assms(1,2,5)
proof (induction n arbitrary: vm v)
  case 0
  then show ?case by (simp add: vm_kept_refl)
next
  case (Suc n)
  note P = vm_psize_bound [OF Suc.prems(1)]
  obtain v' where v': "advance_virt_addr v off (int (vm_psize vm)) = Inr v'" "unat (va_offset v') < vm_psize vm"
    using advance_in_page [OF _ _ Suc.prems(2) assms(3,4)] P by blast
  obtain ec1 vm1 where r: "mmu_write vm v 1 [x] = Inr (ec1, vm1)" using Suc.prems(3) by (auto simp: rbind_eq_Inr)
  have "[x] \<noteq> []" by simp
  note S = write_safe [OF Suc.prems(1,2) r this]
  then have k: "vm_psize vm1 = vm_psize vm" "vm_inv vm1" by (simp_all add: vm_kept_def)
  have "sim_loop_write_loop n vm1 v' x off (int (vm_psize vm1)) = Inr (ec, vm')"
    using Suc.prems(3) r v'(1) S k(1) by (auto simp: rbind_eq_Inr)
  from Suc.IH [OF k(2) _ this] show ?case using v'(2) k(1) S vm_kept_trans by auto
qed

text \<open>The same container, the same mail, a memory that is kept.\<close>

definition same_procs :: "sys_t \<Rightarrow> sys_t \<Rightarrow> bool" where
  "same_procs s s' \<longleftrightarrow> vm_kept (sys_vm s) (sys_vm s') \<and> sys_cont s' = sys_cont s"

lemma vm_page_size:
  assumes "vm_inv vm"
  obtains k where "mm_page_size (mmu_mem (vm_mmu vm)) = int k" "vm_psize vm = k"
  using vm_psize_bound [OF assms] by blast

lemma sim_read_safe:
  assumes "vm_inv (sys_vm sys)" "unat (va_offset v) < vm_psize (sys_vm sys)" "off < 2 ^ 31"
    and "sim_read fo sys v off n f = Inr (ec, sys')"
  shows "same_procs sys sys'"
proof -
  obtain k where k: "mm_page_size (mmu_mem (vm_mmu (sys_vm sys))) = int k" "vm_psize (sys_vm sys) = k"
    by (rule vm_page_size [OF assms(1)])
  obtain bs vm where r: "sim_read_loop (nat n) (sys_vm sys) v off (int k) = Inr (ec, bs, vm)"
      "sys_vm sys' = vm" "sys_cont sys' = sys_cont sys" "0 \<le> off"
    using assms(4) unfolding sim_read_def k(1) by (auto simp: rbind_eq_Inr split: if_splits)
  show ?thesis
    using read_loop_safe [OF assms(1,2) r(4) assms(3)] r(1) unfolding k(2) by (auto simp: same_procs_def r(2,3))
qed

lemma sim_write_safe:
  assumes "vm_inv (sys_vm sys)" "unat (va_offset v) < vm_psize (sys_vm sys)"
    and "sim_write sys v s (int (length s)) = Inr (ec, sys')"
  shows "same_procs sys sys'"
proof -
  obtain k where k: "mm_page_size (mmu_mem (vm_mmu (sys_vm sys))) = int k" "vm_psize (sys_vm sys) = k"
    by (rule vm_page_size [OF assms(1)])
  have n: "nat (min (int (length s)) (int k)) = min (length s) k" by (simp only: nat_int flip: of_nat_min)
  obtain vm where r: "sim_write_loop (min (length s) k) (sys_vm sys) v s (int k) = Inr (ec, vm)"
      "sys_vm sys' = vm" "sys_cont sys' = sys_cont sys"
    using assms(3) unfolding sim_write_def k(1) Let_def n by (auto simp: rbind_eq_Inr)
  have le: "min (length s) k \<le> length s" by simp
  show ?thesis
    using write_loop_safe [OF assms(1,2) le] r(1) unfolding k(2) by (auto simp: same_procs_def r(2,3))
qed

lemma sim_loop_write_safe:
  assumes "vm_inv (sys_vm sys)" "unat (va_offset v) < vm_psize (sys_vm sys)" "off < 2 ^ 31"
    and "sim_loop_write sys v x off n = Inr (ec, sys')"
  shows "same_procs sys sys'"
proof -
  obtain k where k: "mm_page_size (mmu_mem (vm_mmu (sys_vm sys))) = int k" "vm_psize (sys_vm sys) = k"
    by (rule vm_page_size [OF assms(1)])
  obtain vm where r: "sim_loop_write_loop (nat n) (sys_vm sys) v x off (int k) = Inr (ec, vm)"
      "sys_vm sys' = vm" "sys_cont sys' = sys_cont sys" "0 \<le> off"
    using assms(4) unfolding sim_loop_write_def k(1) by (auto simp: rbind_eq_Inr)
  show ?thesis
    using loop_write_loop_safe [OF assms(1,2) r(4) assms(3)] r(1) unfolding k(2) by (auto simp: same_procs_def r(2,3))
qed

subsection \<open>Mail that makes sense\<close>

text \<open>An address inside a page; a number that fits an \<^verbatim>\<open>int\<close>; the length that was measured.\<close>

definition addr_ok :: "nat \<Rightarrow> post_arg \<Rightarrow> bool" where
  "addr_ok ps a \<longleftrightarrow> (case a of PAddr v \<Rightarrow> unat (va_offset v) < ps | _ \<Rightarrow> False)"

definition num_ok :: "post_arg \<Rightarrow> bool" where
  "num_ok a \<longleftrightarrow> (case a of PInt n \<Rightarrow> n < 2 ^ 31 | _ \<Rightarrow> False)"

fun post_wf :: "nat \<Rightarrow> post_t \<Rightarrow> bool" where
  "post_wf ps post \<longleftrightarrow> (case (po_func post, po_args post) of
       (fcRead, [a, n]) \<Rightarrow> addr_ok ps a \<and> num_ok n
     | (fcLoopRead, [a, off, n]) \<Rightarrow> addr_ok ps a \<and> num_ok off \<and> num_ok n
     | (fcReadToFile, [a, n, f]) \<Rightarrow> addr_ok ps a \<and> num_ok n
     | (fcLoopReadToFile, [a, off, n, f]) \<Rightarrow> addr_ok ps a \<and> num_ok off \<and> num_ok n
     | (fcWrite, [a, s, n]) \<Rightarrow> addr_ok ps a \<and> (case s of PStr t \<Rightarrow> n = PInt (int (length t)) | _ \<Rightarrow> False)
     | (fcLoopWrite, [a, c, off, n]) \<Rightarrow> addr_ok ps a \<and> num_ok off \<and> num_ok n
     | (fcDel, _) \<Rightarrow> True
     | _ \<Rightarrow> False)"

declare post_wf.simps [simp del]

lemma decoders_safe:
  assumes "vm_inv (sys_vm sys)" "post_wf (vm_psize (sys_vm sys)) post" "po_func post \<noteq> fcDel"
    and "process_switch off fo sys pid post = Inr (stop, sys')"
  shows "same_procs sys sys' \<and> \<not> stop"
proof (cases "po_func post")
  case fcRead
  then obtain v n where "po_args post = [PAddr v, PInt n]" "unat (va_offset v) < vm_psize (sys_vm sys)"
    using assms(2) by (auto simp: post_wf.simps addr_ok_def num_ok_def split: list.splits post_arg.splits)
  then show ?thesis using assms(4) fcRead sim_read_safe [OF assms(1), of v 1 True n None]
    by (auto simp: serving rbind_eq_Inr)
next
  case fcLoopRead
  then obtain v d n where "po_args post = [PAddr v, PInt d, PInt n]" "unat (va_offset v) < vm_psize (sys_vm sys)" "d < 2 ^ 31"
    using assms(2) by (auto simp: post_wf.simps addr_ok_def num_ok_def split: list.splits post_arg.splits)
  then show ?thesis using assms(4) fcLoopRead sim_read_safe [OF assms(1), of v d True n None]
    by (auto simp: serving rbind_eq_Inr)
next
  case fcReadToFile
  then obtain v n f where "po_args post = [PAddr v, PInt n, f]" "unat (va_offset v) < vm_psize (sys_vm sys)"
    using assms(2) by (auto simp: post_wf.simps addr_ok_def num_ok_def split: list.splits post_arg.splits)
  then show ?thesis using assms(4) fcReadToFile sim_read_safe [OF assms(1), of v 1 fo n]
    by (auto simp: serving rbind_eq_Inr)
next
  case fcLoopReadToFile
  then obtain v d n f where "po_args post = [PAddr v, PInt d, PInt n, f]" "unat (va_offset v) < vm_psize (sys_vm sys)" "d < 2 ^ 31"
    using assms(2) by (auto simp: post_wf.simps addr_ok_def num_ok_def split: list.splits post_arg.splits)
  then show ?thesis using assms(4) fcLoopReadToFile sim_read_safe [OF assms(1), of v d fo n]
    by (auto simp: serving rbind_eq_Inr)
next
  case fcWrite
  then obtain v s where "po_args post = [PAddr v, PStr s, PInt (int (length s))]" "unat (va_offset v) < vm_psize (sys_vm sys)"
    using assms(2) by (auto simp: post_wf.simps addr_ok_def num_ok_def split: list.splits post_arg.splits)
  then show ?thesis using assms(4) fcWrite sim_write_safe [OF assms(1), of v s]
    by (auto simp: serving rbind_eq_Inr)
next
  case fcLoopWrite
  then obtain v c d n where "po_args post = [PAddr v, c, PInt d, PInt n]" "unat (va_offset v) < vm_psize (sys_vm sys)" "d < 2 ^ 31"
    using assms(2) by (auto simp: post_wf.simps addr_ok_def num_ok_def split: list.splits post_arg.splits)
  then show ?thesis using assms(4) fcLoopWrite sim_loop_write_safe [OF assms(1), of v d]
    by (auto simp: serving rbind_eq_Inr)
qed (use assms(3) in simp)

end
