(* ===== verification/Sys_Invariant.thy ===== *)
theory Sys_Invariant
  imports Sys_Safety
begin

text \<open>
  The invariant of the simulator with all its mail, and that every operation of the user interface
  and of the processes keeps it whenever it returns.
\<close>

definition mail_wf :: "sys_t \<Rightarrow> bool" where
  "mail_wf sys \<longleftrightarrow> (\<forall>i. live_slot (pc_list (sys_cont sys)) i \<longrightarrow>
     list_all (post_wf (vm_psize (sys_vm sys))) (mail_of (sys_cont sys) i))"

text \<open>There is a block on the disk for every slot, and the page size is a power of two.\<close>

definition sizes_ok :: "sys_t \<Rightarrow> bool" where
  "sizes_ok sys \<longleftrightarrow> length (pc_list (sys_cont sys)) \<le> disk_nblocks (mmu_disk (vm_mmu (sys_vm sys))) \<and>
     (\<exists>k < 31. sys_page_size sys = 2 ^ k)"

definition sys_wf :: "sys_t \<Rightarrow> bool" where
  "sys_wf sys \<longleftrightarrow> sys_inv sys \<and> mail_wf sys \<and> sizes_ok sys"

declare sys_wf_def [whole]

lemma sys_wfD:
  assumes "sys_wf sys"
  shows "sys_inv sys" "mail_wf sys" "sizes_ok sys" "vm_inv (sys_vm sys)" "pc_inv (vm_mmu (sys_vm sys)) (sys_cont sys)"
  using assms by (simp_all add: whole)

lemma sizes_ok_cong:
  assumes "sizes_ok sys" "length (pc_list (sys_cont sys')) = length (pc_list (sys_cont sys))"
    and "d_npages (mmu_disk (vm_mmu (sys_vm sys'))) = d_npages (mmu_disk (vm_mmu (sys_vm sys)))"
    and "disk_bsize (mmu_disk (vm_mmu (sys_vm sys'))) = disk_bsize (mmu_disk (vm_mmu (sys_vm sys)))"
    and "sys_page_size sys' = sys_page_size sys"
  shows "sizes_ok sys'"
  using assms by (simp add: sizes_ok_def disk_nblocks_def)

text \<open>A memory that is kept.\<close>

lemma same_procs_wf:
  assumes "sys_wf sys" "same_procs sys sys'"
  shows "sys_wf sys'"
proof -
  note W = sys_wfD [OF assms(1)]
  have k: "vm_kept (sys_vm sys) (sys_vm sys')" and c: "sys_cont sys' = sys_cont sys"
    using assms(2) by (simp_all add: same_procs_def)
  note shape = disk_shape_eqD
  have d: "disk_shape (mmu_disk (vm_mmu (sys_vm sys'))) = disk_shape (mmu_disk (vm_mmu (sys_vm sys)))"
      "vm_psize (sys_vm sys') = vm_psize (sys_vm sys)" "vm_inv (sys_vm sys')"
    using k by (simp_all add: vm_kept_def)
  have ps: "sys_page_size sys' = sys_page_size sys"
    using vm_psize_bound [OF d(3)] vm_psize_bound [OF W(4)] d(2) by metis
  have "sys_inv sys'" by (rule kept_sys_inv [OF W(1) k]) (simp_all add: c)
  moreover have "mail_wf sys'" using W(2) unfolding mail_wf_def c d(2) .
  moreover have "sizes_ok sys'"
    by (rule sizes_ok_cong [OF W(3)]) (use shape [OF d(1)] c ps in \<open>simp_all\<close>)
  ultimately show ?thesis by (simp add: sys_wf_def)
qed

lemma job_only_wf: "sys_wf (sys\<lparr>sys_job := j\<rparr>) = sys_wf sys" "sys_wf (sys\<lparr>sys_out := out\<rparr>) = sys_wf sys"
  by (simp_all add: whole mail_wf_def sizes_ok_def)

lemma say_wf [simp]: "sys_wf (say t sys) = sys_wf sys"
  by (simp add: say_def job_only_wf)

lemma sent_wf [simp]: "sys_wf (sent pid err sys) = sys_wf sys"
  by (cases err) (simp_all add: sent_def)

text \<open>Another mail box for a live process.\<close>

lemma mailed_wf:
  assumes "sys_wf sys" "live_slot (pc_list (sys_cont sys)) i" "queue_inv q"
    and "list_all (post_wf (vm_psize (sys_vm sys))) (queue_list q)"
  shows "sys_wf (mailed sys i q)"
proof -
  note W = sys_wfD [OF assms(1)]
  note M = mailed_facts [OF W(1) assms(2,3)]
  have "list_all (post_wf (vm_psize (sys_vm (mailed sys i q)))) (mail_of (sys_cont (mailed sys i q)) j)"
    if "live_slot (pc_list (sys_cont (mailed sys i q))) j" for j
    using that W(2) assms(4) M(3) M(5) [of j] unfolding M(2,7) mail_wf_def by (cases "j = i") auto
  then have "mail_wf (mailed sys i q)" by (simp add: mail_wf_def)
  moreover have "sizes_ok (mailed sys i q)"
    by (rule sizes_ok_cong [OF W(3)]) (simp_all add: mailed_def)
  ultimately show ?thesis using M(1) by (simp add: sys_wf_def)
qed

subsection \<open>Requests\<close>

lemma offset_in_page:
  assumes "k < 31"
  shows "unat (va_offset (make_virt_addr a (2 ^ k) pid)) < 2 ^ k"
proof -
  let ?w = "take_bit k (word_of_int a) :: u32"
  have "and (word_of_int a :: u32) (not (not (mask k))) = ?w" by (simp add: take_bit_eq_mask)
  then have o: "va_offset (make_virt_addr a (2 ^ k) pid) = ?w"
    using assms by (simp add: make_virt_addr_def offset_from_address_def offset_mask_def page_mask_pow)
  have "unat ?w = take_bit k (unat (word_of_int a :: u32))" by (simp add: unsigned_take_bit_eq)
  also have "\<dots> < 2 ^ k" by simp
  finally show ?thesis unfolding o .
qed

lemma send_post_wf:
  assumes "sys_wf sys" "post_wf (vm_psize (sys_vm sys)) (create_post func args nargs)"
    and "send_post sys pid func args nargs = Inr (err, sys')"
  shows "sys_wf sys'"
proof -
  define w :: u32 where "w = word_of_int pid"
  let ?c = "sys_cont sys" and ?post = "create_post func args nargs"
  note W = sys_wfD [OF assms(1)]
  obtain c' where c': "compose_mail ?c w ?post = Inr (err, c')" "sys' = sent pid err (sys\<lparr>sys_cont := c'\<rparr>)"
    using assms(3) unfolding send_post_sent w_def by (auto simp: rbind_eq_Inr)
  show ?thesis
  proof (cases "live_slot (pc_list ?c) (unat w) \<and> \<not> prc_del (pc_list ?c ! unat w)")
    case True
    then obtain q where q: "compose_mail ?c w ?post = Inr (ecSuccess, upd_slot (unat w) (\<lambda>p. p\<lparr>prc_mail := Some q\<rparr>) ?c)"
        "queue_inv q" "queue_list q = mail_of ?c (unat w) @ [?post]"
      using compose_mail_live [OF W(5), of w ?post] by blast
    have "sys' = mailed sys (unat w) q" using c' q(1) by (simp add: mailed_def sent_def)
    then show ?thesis
      using mailed_wf [OF assms(1) _ q(2), of "unat w"] True W(2) q(3) assms(2) by (auto simp: mail_wf_def)
  next
    case False
    have "c' = ?c"
    proof (cases "w > pc_max_num_of_proc ?c \<or> w = pc_max_num_of_proc ?c")
      case True
      then show ?thesis using compose_mail_none(1,4) [OF W(5), of w ?post] c'(1) by auto
    next
      case in_range: False
      then have "w < pc_max_num_of_proc ?c" using linorder_neqE by blast
      then have "unat w < length (pc_list ?c)" using pc_invD(2) [OF W(5)] by (simp add: word_less_nat_alt)
      then show ?thesis using False compose_mail_none(2,3) [OF W(5), of w ?post] c'(1) by auto
    qed
    then show ?thesis using assms(1) c'(2) sent_wf by simp
  qed
qed

lemma requests_wf:
  assumes wf: "sys_wf sys" and n: "n < 2 ^ 31" and off: "off < 2 ^ 31"
  shows "read_process sys a pid n = Inr (err, sys') \<Longrightarrow> sys_wf sys'"
    "loop_read_process sys a pid off n = Inr (err, sys') \<Longrightarrow> sys_wf sys'"
    "read_to_file_process sys a pid n f = Inr (err, sys') \<Longrightarrow> sys_wf sys'"
    "loop_read_to_file_process sys a pid off n f = Inr (err, sys') \<Longrightarrow> sys_wf sys'"
    "write_process sys a pid s = Inr (err, sys') \<Longrightarrow> sys_wf sys'"
    "loop_write_process sys a pid c off n = Inr (err, sys') \<Longrightarrow> sys_wf sys'"
proof -
  obtain k where k: "k < 31" "sys_page_size sys = 2 ^ k" using sys_wfD(3) [OF wf] by (auto simp: sizes_ok_def)
  have "vm_psize (sys_vm sys) = 2 ^ k" using k(2) by (simp add: nat_power_eq)
  then have a: "addr_ok (vm_psize (sys_vm sys)) (PAddr (make_virt_addr a (sys_page_size sys) pid))"
    using offset_in_page [OF k(1), of a pid] k(2) by (simp add: addr_ok_def nat_power_eq)
  note S = send_post_wf [OF wf]
  show "read_process sys a pid n = Inr (err, sys') \<Longrightarrow> sys_wf sys'"
    unfolding read_process_def by (rule S) (use a n in \<open>simp_all add: post_wf.simps create_post_def num_ok_def\<close>)
  show "loop_read_process sys a pid off n = Inr (err, sys') \<Longrightarrow> sys_wf sys'"
    unfolding loop_read_process_def by (rule S) (use a n off in \<open>simp_all add: post_wf.simps create_post_def num_ok_def\<close>)
  show "read_to_file_process sys a pid n f = Inr (err, sys') \<Longrightarrow> sys_wf sys'"
    unfolding read_to_file_process_def by (rule S) (use a n in \<open>simp_all add: post_wf.simps create_post_def num_ok_def\<close>)
  show "loop_read_to_file_process sys a pid off n f = Inr (err, sys') \<Longrightarrow> sys_wf sys'"
    unfolding loop_read_to_file_process_def by (rule S) (use a n off in \<open>simp_all add: post_wf.simps create_post_def num_ok_def\<close>)
  show "write_process sys a pid s = Inr (err, sys') \<Longrightarrow> sys_wf sys'"
    unfolding write_process_def by (rule S) (use a in \<open>simp_all add: post_wf.simps create_post_def num_ok_def\<close>)
  show "loop_write_process sys a pid c off n = Inr (err, sys') \<Longrightarrow> sys_wf sys'"
    unfolding loop_write_process_def by (rule S) (use a n off in \<open>simp_all add: post_wf.simps create_post_def num_ok_def\<close>)
qed

subsection \<open>Processes\<close>

lemma dealloc_wf:
  assumes wf: "sys_wf sys" and live: "live_slot (pc_list (sys_cont sys)) (unat pid)"
    and r: "process_dealloc off sys pid = Inr (ec, sys')"
  shows "sys_wf sys'"
proof -
  let ?c = "sys_cont sys" let ?i = "unat pid" let ?p = "pc_list ?c ! ?i"
  note W = sys_wfD [OF wf]
  have i: "?i < length (pc_list ?c)" using live by (simp add: live_slot_def)
  have pid: "word_of_int (int ?i) = pid" by simp
  have p: "prc_del ?p" "prc_thrd_arg ?p \<noteq> None"
    using r pc_proc_inv [OF W(5) i] by (auto simp: process_dealloc_def rbind_eq_Inr Let_def)
  obtain m where m: "process_dealloc off sys pid = Inr (ecSuccess,
        sys\<lparr>sys_vm := (sys_vm sys)\<lparr>vm_mmu := m\<rparr>, sys_cont := upd_slot ?i gone ?c\<rparr>)"
      "sys_inv (sys\<lparr>sys_vm := (sys_vm sys)\<lparr>vm_mmu := m\<rparr>, sys_cont := upd_slot ?i gone ?c\<rparr>)"
      "mmu_mem m = mmu_mem (vm_mmu (sys_vm sys))"
      "d_npages (mmu_disk m) = d_npages (mmu_disk (vm_mmu (sys_vm sys)))"
    using process_dealloc_ok [OF W(1) live p, of off] unfolding pid by blast
  have s': "sys' = sys\<lparr>sys_vm := (sys_vm sys)\<lparr>vm_mmu := m\<rparr>, sys_cont := upd_slot ?i gone ?c\<rparr>" using r m(1) by simp
  have live': "live_slot (pc_list (sys_cont sys')) j \<Longrightarrow> j \<noteq> ?i \<and> live_slot (pc_list ?c) j" for j
    using live_slot_upd [OF i, of "gone ?p" j] by (auto simp: s' gone_def split: if_splits)
  have "mail_of (sys_cont sys') j = mail_of ?c j" if "j \<noteq> ?i" for j
    using that by (simp add: s' mail_of_def)
  then have "mail_wf sys'" using W(2) live' by (auto simp: mail_wf_def) (simp_all add: s' m(3))
  moreover have "disk_bsize (mmu_disk m) = disk_bsize (mmu_disk (vm_mmu (sys_vm sys)))"
    using m(2) pc_invD(7) [OF W(5)] by (simp add: sys_inv_def pc_inv_def)
  then have "sizes_ok sys'" by (intro sizes_ok_cong [OF W(3)]) (simp_all add: s' m(3,4))
  ultimately show ?thesis using m(2) by (simp add: sys_wf_def s')
qed

lemma process_func_wf:
  assumes wf: "sys_wf sys" and live: "live_slot (pc_list (sys_cont sys)) (unat pid)"
    and r: "process_func off fo pid sys = Inr (stop, sys')"
  shows "sys_wf sys'" "\<not> stop \<Longrightarrow> live_slot (pc_list (sys_cont sys')) (unat pid)"
proof -
  let ?c = "sys_cont sys" let ?i = "unat pid"
  note W = sys_wfD [OF wf]
  obtain post rest where mail: "mail_of ?c ?i = post # rest"
    using r process_func_no_mail [OF W(5) live, of off fo] by (cases "mail_of ?c ?i") auto
  obtain q where q: "process_func off fo pid sys = process_switch off fo (mailed sys ?i q) pid post"
      "queue_inv q" "queue_list q = rest"
    using process_func_mail [OF W(5) live mail, of off fo] unfolding mailed_def by blast
  have good: "list_all (post_wf (vm_psize (sys_vm sys))) (post # rest)" using W(2) live mail by (metis mail_wf_def)
  have wf1: "sys_wf (mailed sys ?i q)" by (rule mailed_wf [OF wf live q(2)]) (use good q(3) in simp)
  have live1: "live_slot (pc_list (sys_cont (mailed sys ?i q))) ?i"
    using mailed_facts(2) [OF W(1) live q(2)] live by simp
  have vm: "sys_vm (mailed sys ?i q) = sys_vm sys" by (simp add: mailed_def)
  have r': "process_switch off fo (mailed sys ?i q) pid post = Inr (stop, sys')" using r q(1) by simp
  have "sys_wf sys' \<and> (\<not> stop \<longrightarrow> live_slot (pc_list (sys_cont sys')) ?i)"
  proof (cases "po_func post = fcDel")
    case True
    then obtain ec where "process_dealloc off (mailed sys ?i q) pid = Inr (ec, sys')" "stop"
      using r' by (auto simp: process_switch_def rbind_eq_Inr)
    then show ?thesis using dealloc_wf [OF wf1 live1] by simp
  next
    case False
    have "same_procs (mailed sys ?i q) sys'"
      using decoders_safe [OF _ _ False r'] W(4) good unfolding vm by simp
    then show ?thesis using same_procs_wf [OF wf1] live1 by (simp add: same_procs_def)
  qed
  then show "sys_wf sys'" "\<not> stop \<Longrightarrow> live_slot (pc_list (sys_cont sys')) ?i" by blast+
qed

lemma await_delete_wf:
  "sys_wf sys \<Longrightarrow> live_slot (pc_list (sys_cont sys)) (unat pid) \<Longrightarrow> await_delete k off fo pid sys = Inr sys' \<Longrightarrow> sys_wf sys'"
proof (induction k arbitrary: sys)
  case (Suc k)
  obtain stop s1 where s1: "process_func off fo pid sys = Inr (stop, s1)"
      "if stop then s1 = sys' else await_delete k off fo pid s1 = Inr sys'"
    using Suc.prems(3) by (auto simp: rbind_eq_Inr pc_proc_def split: if_splits option.splits)
  note P = process_func_wf [OF Suc.prems(1,2) s1(1)]
  show ?case using s1(2) P Suc.IH [of s1] by (cases stop) auto
qed simp

lemma process_destroy_wf:
  assumes wf: "sys_wf sys" and r: "process_destroy off fo sys pid = Inr (ec, sys')"
  shows "sys_wf sys'"
proof -
  let ?c = "sys_cont sys" let ?i = "unat pid"
  note W = sys_wfD [OF wf]
  note N = process_destroy_none [OF W(1), of pid off fo]
  consider "length (pc_list ?c) \<le> ?i" | "?i < length (pc_list ?c)" "\<not> live_slot (pc_list ?c) ?i" | "live_slot (pc_list ?c) ?i"
    by linarith
  then show ?thesis
  proof cases
    case 3
    have i: "?i < length (pc_list ?c)" using 3 by (simp add: live_slot_def)
    let ?post = "create_post fcDel [] 0"
    have inr: "\<not> pc_max_num_of_proc ?c \<le> pid" using i pc_invD(2) [OF W(5)] by (simp add: word_le_nat_alt)
    have junk: "\<not> prc_junk (pc_list ?c ! ?i)" using 3 by (simp add: live_slot_def)
    note mtx = pc_invD(4) [OF W(5)]
    obtain err c1 c2 s1 where s: "compose_mail ?c pid ?post = Inr (err, c1)" "pc_upd pid (\<lambda>p. p\<lparr>prc_del := True\<rparr>) c1 = Inr c2"
        "await_delete (Suc (case prc_mail (pc_list ?c ! ?i) of None \<Rightarrow> 0 | Some q \<Rightarrow> nat (queue_size q))) off fo pid
           (sys\<lparr>sys_cont := c2\<lparr>pc_mutex := False\<rparr>\<rparr>) = Inr s1"
        "sys' = s1\<lparr>sys_cont := (sys_cont s1)\<lparr>pc_mutex := False\<rparr>\<rparr>" "\<not> pc_mutex (sys_cont s1)"
      using r mtx inr junk pc_proc_inv [OF W(5) i]
      by (auto simp: process_destroy_def Let_def rbind_eq_Inr mutex_run
          split: if_splits simp del: await_delete.simps)
    obtain q where q: "c1 = upd_slot ?i (\<lambda>p. p\<lparr>prc_mail := Some q\<rparr>) ?c" "queue_inv q"
        "list_all (post_wf (vm_psize (sys_vm sys))) (queue_list q)"
    proof (cases "prc_del (pc_list ?c ! ?i)")
      case True
      obtain q where q: "prc_mail (pc_list ?c ! ?i) = Some q" "queue_inv q"
        using live_slotD [OF W(5) 3] by (auto simp: slot_ok_def)
      have "(pc_list ?c ! ?i)\<lparr>prc_mail := Some q\<rparr> = pc_list ?c ! ?i" using q(1) by simp
      then have "upd_slot ?i (\<lambda>p. p\<lparr>prc_mail := Some q\<rparr>) ?c = ?c"
        unfolding upd_slot_def by (simp flip: pc_invD(1) [OF W(5)])
      moreover have "list_all (post_wf (vm_psize (sys_vm sys))) (queue_list q)"
        using W(2) 3 q(1) by (auto simp: mail_wf_def mail_of_def split: option.splits)
      ultimately show thesis using that [of q] s(1) compose_mail_none(3) [OF W(5) 3 True, of ?post] q(2) by simp
    next
      case False
      obtain q where "compose_mail ?c pid ?post = Inr (ecSuccess, upd_slot ?i (\<lambda>p. p\<lparr>prc_mail := Some q\<rparr>) ?c)"
          "queue_inv q" "queue_list q = mail_of ?c ?i @ [?post]"
        using compose_mail_live [OF W(5) 3 False, of ?post] by blast
      moreover have "post_wf (vm_psize (sys_vm sys)) ?post" by (simp add: post_wf.simps create_post_def)
      ultimately show thesis using that [of q] s(1) W(2) 3 by (simp add: mail_wf_def)
    qed
    have wf1: "sys_wf (mailed sys ?i q)" by (rule mailed_wf [OF wf 3 q(2,3)])
    note W1 = sys_wfD [OF wf1]
    have c1: "sys_cont (mailed sys ?i q) = c1" "sys_vm (mailed sys ?i q) = sys_vm sys" by (simp_all add: mailed_def q(1))
    have i1: "?i < length (pc_list c1)" using i by (simp add: q(1))
    have live1: "live_slot (pc_list c1) ?i" using mailed_facts(2) [OF W(1) 3 q(2)] 3 c1(1) by metis
    have c2: "c2 = upd_slot ?i (\<lambda>p. p\<lparr>prc_del := True\<rparr>) c1"
      using s(2) pc_upd_inv [OF W1(5) [unfolded c1(1)] i1] by simp
    let ?s2 = "sys\<lparr>sys_cont := c2\<rparr>"
    note D = pc_inv_slot [OF W1(5) [unfolded c1(1)] i1, of "\<lambda>p. p\<lparr>prc_del := True\<rparr>"]
    have ok: "slot_ok (pc_blk c1) ?i ((pc_list c1 ! ?i)\<lparr>prc_del := True\<rparr>)"
      using pc_invD(8) [OF W1(5) [unfolded c1(1)] live1] by (simp add: slot_ok_def block_of_def)
    have inv2: "pc_inv (vm_mmu (sys_vm sys)) c2" "live_slot (pc_list c2) = live_slot (pc_list c1)"
      unfolding c2 using D ok c1(2) by simp_all
    have "mail_of c2 j = mail_of c1 j" for j using i1 by (cases "j = ?i") (simp_all add: c2 mail_of_def)
    then have "mail_wf ?s2" using W1(2) inv2(2) c1 by (simp add: mail_wf_def)
    moreover have "sizes_ok ?s2" by (rule sizes_ok_cong [OF W(3)]) (simp_all add: c2 q(1))
    ultimately have wf2: "sys_wf ?s2" using inv2(1) W(4) by (simp add: whole)
    have same: "c2\<lparr>pc_mutex := False\<rparr> = c2" using mtx by (simp add: c2 q(1))
    have "sys_wf s1" using await_delete_wf [OF wf2 _ s(3) [unfolded same]] live1 inv2(2) by simp
    moreover have "sys' = s1" using s(4,5) by simp
    ultimately show ?thesis by simp
  qed (use N r wf in auto)
qed

subsection \<open>Creation\<close>

lemma slots_and_blocks:
  assumes fits: "length (pc_list (sys_cont sys)) \<le> disk_nblocks (mmu_disk (vm_mmu (sys_vm sys)))"
    and free: "j < length (pc_list (sys_cont sys))" "\<not> live_slot (pc_list (sys_cont sys)) j"
  obtains i k where "i < length (pc_list (sys_cont sys))" "\<not> live_slot (pc_list (sys_cont sys)) i"
    "\<And>n. n < i \<Longrightarrow> live_slot (pc_list (sys_cont sys)) n"
    "k < disk_nblocks (mmu_disk (vm_mmu (sys_vm sys)))" "k \<notin> used_blocks (pc_blk (sys_cont sys)) (pc_list (sys_cont sys))"
    "\<And>n. n < k \<Longrightarrow> n \<in> used_blocks (pc_blk (sys_cont sys)) (pc_list (sys_cont sys))"
proof -
  let ?ps = "pc_list (sys_cont sys)" let ?K = "used_blocks (pc_blk (sys_cont sys)) ?ps"
  let ?N = "disk_nblocks (mmu_disk (vm_mmu (sys_vm sys)))"
  let ?L = "{n. live_slot ?ps n}"
  obtain i where i: "\<not> live_slot ?ps i" "i \<le> j" "\<And>n. n < i \<Longrightarrow> live_slot ?ps n"
    using ex_least_nat_le [of "\<lambda>n. \<not> live_slot ?ps n" j] free(2) by blast
  have sub: "?L \<subseteq> {..<length ?ps} - {j}" using free(2) by (auto simp: live_slot_def)
  have "card ?L \<le> card ({..<length ?ps} - {j})" by (rule card_mono [OF _ sub]) simp
  moreover have "?K = (\<lambda>n. block_of (pc_blk (sys_cont sys)) (?ps ! n)) ` ?L" by (auto simp: used_blocks_def)
  moreover have fin: "finite ?L" using finite_subset [OF sub] by simp
  ultimately have "card ?K \<le> length ?ps - 1" using card_image_le [OF fin] free(1) by (metis (no_types, lifting) card_Diff_singleton card_lessThan finite_lessThan le_trans lessThan_iff)
  moreover have "length ?ps \<le> ?N" "0 < length ?ps" using fits free(1) by auto
  ultimately have "card ?K < ?N" by linarith
  then have "card ?K < card {..<?N}" by simp
  then have "\<exists>n < ?N. n \<notin> ?K" by (metis card_mono finite_lessThan \<open>?K = _ ` ?L\<close> fin finite_imageI lessThan_iff not_less subsetI)
  then obtain n where n: "n < ?N" "n \<notin> ?K" by blast
  obtain k where "k \<notin> ?K" "k \<le> n" "\<And>m. m < k \<Longrightarrow> m \<in> ?K"
    using ex_least_nat_le [of "\<lambda>m. m \<notin> ?K" n] n(2) by blast
  then show thesis using that [of i k] i free(1) n(1) by simp
qed

text \<open>The message for the new process \<open>i\<close>.\<close>

definition created :: "nat \<Rightarrow> byte list option \<times> byte list" where
  "created i = (None, ascii ''Process with id '' @ fmt_u (word_of_int (int i)) @ ascii '' was created'' @ [10])"

lemma create_process_wf:
  assumes wf: "sys_wf sys" and oom: "\<And>n. \<not> oom n"
  shows "\<exists>pid sys'. create_process off oom sys = Inr (pid, sys') \<and> sys_wf sys' \<and>
           (if pid < 0 then sys_vm sys' = sys_vm sys \<and> sys_cont sys' = sys_cont sys \<and> (\<forall>i < length (pc_list (sys_cont sys)). live_slot (pc_list (sys_cont sys)) i)
            else (\<exists>i. pid = int i \<and> i < length (pc_list (sys_cont sys)) \<and> \<not> live_slot (pc_list (sys_cont sys)) i \<and>
                   live_slot (pc_list (sys_cont sys')) = (\<lambda>j. j = i \<or> live_slot (pc_list (sys_cont sys)) j) \<and> mail_of (sys_cont sys') i = [] \<and>
                   (\<forall>j < i. live_slot (pc_list (sys_cont sys)) j) \<and> \<not> prc_del (pc_list (sys_cont sys') ! i) \<and>
                   pc_blk (sys_cont sys') = pc_blk (sys_cont sys) \<and> sys_job sys' = sys_job sys \<and>
                   vm_psize (sys_vm sys') = vm_psize (sys_vm sys) \<and> sys_out sys' = sys_out sys @ [created i]))"
proof (cases "\<forall>i < length (pc_list (sys_cont sys)). live_slot (pc_list (sys_cont sys)) i")
  case True
  note W = sys_wfD [OF wf]
  have "init_process off oom (vm_mmu (sys_vm sys)) (sys_cont sys) = Inr (- 1, vm_mmu (sys_vm sys), sys_cont sys)"
    by (rule init_process_no_slot [OF W(5)]) (use True in blast)
  then have "create_process off oom sys =
      Inr (- 1, say (ascii ''ERR: A process could not be created: error-'' @ fmt_d (- 1) @ [10]) sys)" (is "_ = Inr (_, ?s)")
    by (simp add: create_process_def)
  then show ?thesis using True wf by (intro exI [of _ "- 1"] exI [of _ ?s]) simp
next
  case False
  let ?c = "sys_cont sys"
  note W = sys_wfD [OF wf]
  obtain i k where ik: "i < length (pc_list ?c)" "\<not> live_slot (pc_list ?c) i" "\<And>n. n < i \<Longrightarrow> live_slot (pc_list ?c) n"
      "k < disk_nblocks (mmu_disk (vm_mmu (sys_vm sys)))" "k \<notin> used_blocks (pc_blk ?c) (pc_list ?c)"
      "\<And>n. n < k \<Longrightarrow> n \<in> used_blocks (pc_blk ?c) (pc_list ?c)"
    using slots_and_blocks [of sys] W(3) False unfolding sizes_ok_def by metis
  obtain sys' mail where s: "create_process off oom sys = Inr (int i, sys')" "sys_inv sys'"
      "pc_list (sys_cont sys') = (pc_list ?c)[i := new_slot i (int (k * pc_blk ?c)) mail]"
      "queue_inv mail" "queue_list mail = []" "pc_blk (sys_cont sys') = pc_blk ?c"
      "mmu_mem (vm_mmu (sys_vm sys')) = mmu_mem (vm_mmu (sys_vm sys))"
      "d_npages (mmu_disk (vm_mmu (sys_vm sys'))) = d_npages (mmu_disk (vm_mmu (sys_vm sys)))"
      "sys_job sys' = sys_job sys" "sys_out sys' = sys_out sys @ [created i]"
    using create_process_ok [OF W(1), of oom i k off] oom ik unfolding created_def by blast
  have del: "\<not> prc_del (pc_list (sys_cont sys') ! i)" using ik(1) by (simp add: s(3) new_slot_def zero_process_def)
  have nj: "\<not> prc_junk (new_slot i (int (k * pc_blk ?c)) mail)" using new_slot_ok(2) [OF s(4) pc_invD(5) [OF W(5)]] .
  have mail: "mail_of (sys_cont sys') j = (if j = i then [] else mail_of ?c j)" for j
    using ik(1) s(5) by (simp add: mail_of_def s(3) new_slot_def)
  have live: "live_slot (pc_list (sys_cont sys')) j = (j = i \<or> live_slot (pc_list ?c) j)" for j
    unfolding s(3) live_slot_upd [OF ik(1)] using nj by simp
  have "mail_wf sys'" using W(2) by (simp add: mail_wf_def mail live s(7))
  moreover have "sizes_ok sys'"
  proof (rule sizes_ok_cong [OF W(3)])
    have "pc_inv (vm_mmu (sys_vm sys')) (sys_cont sys')" using s(2) by (simp add: sys_inv_def)
    then show "disk_bsize (mmu_disk (vm_mmu (sys_vm sys'))) = disk_bsize (mmu_disk (vm_mmu (sys_vm sys)))"
      using pc_invD(7) s(6) W(5) by metis
  qed (simp_all add: s)
  ultimately have "sys_wf sys'" using s(2) by (simp add: sys_wf_def)
  then show ?thesis using s(1,6,7,9,10) ik live mail del by (intro exI [of _ "int i"] exI [of _ sys']) auto
qed

text \<open>
  What becomes of the request, on a disk of any size: the first free slot gets the first free block; without a slot
  there is an error code; without a block \<^verbatim>\<open>init_process\<close> frees what it may not free.
\<close>

lemma create_process_outcome:
  assumes inv: "sys_inv sys" and oom: "\<And>n. \<not> oom n"
  defines "ps \<equiv> pc_list (sys_cont sys)" and "d \<equiv> mmu_disk (vm_mmu (sys_vm sys))"
  shows "case find (\<lambda>i. \<not> live_slot ps i) [0..<length ps] of
      None \<Rightarrow> \<exists>sys'. create_process off oom sys = Inr (- 1, sys') \<and> sys_vm sys' = sys_vm sys \<and> sys_cont sys' = sys_cont sys
    | Some i \<Rightarrow>
        if used_blocks (pc_blk (sys_cont sys)) ps \<noteq> {..<disk_nblocks d} then
          \<exists>sys'. create_process off oom sys = Inr (int i, sys') \<and> sys_inv sys' \<and>
             (\<forall>j. live_slot (pc_list (sys_cont sys')) j \<longleftrightarrow> j = i \<or> live_slot ps j)
        else if disk_pages d mod disk_bsize d = 0 \<and> d_npages d mod 8 = 0 then create_process off oom sys = Inl OutOfBounds
        else if i = 0 then \<exists>sys'. create_process off oom sys = Inr (- 2, sys') \<and> pc_processes (sys_cont sys') = None
        else create_process off oom sys = Inl BadFree"
proof (cases "find (\<lambda>i. \<not> live_slot ps i) [0..<length ps]")
  case None
  have "init_process off oom (vm_mmu (sys_vm sys)) (sys_cont sys) = Inr (- 1, vm_mmu (sys_vm sys), sys_cont sys)"
    by (rule init_process_no_slot) (use inv None in \<open>auto simp: sys_inv_def ps_def find_None_iff\<close>)
  then show ?thesis using None by (simp add: create_process_def)
next
  case (Some i)
  let ?K = "used_blocks (pc_blk (sys_cont sys)) ps"
  have C: "pc_inv (vm_mmu (sys_vm sys)) (sys_cont sys)" "disk_inv d"
    using inv mmu_invD(2) by (auto simp: sys_inv_def vm_inv_def d_def)
  have i: "i < length ps" "\<not> live_slot ps i" "\<And>j. j < i \<Longrightarrow> live_slot ps j"
    using Some by (auto simp: find_Some_iff)
  show ?thesis
  proof (cases "?K = {..<disk_nblocks d}")
    case True
    from init_process_no_block [OF C(2) [unfolded d_def] C(1) i [unfolded ps_def] True [unfolded ps_def d_def], of off oom]
    show ?thesis using Some True by (auto simp: create_process_def d_def split: if_splits)
  next
    case False
    have "?K \<subseteq> {..<disk_nblocks d}" using pc_invD(10) [OF C(1)] by (simp add: disk_blocks_def ps_def d_def)
    then obtain n where n: "n < disk_nblocks d" "n \<notin> ?K" using False by auto
    obtain k where k: "k \<notin> ?K" "k \<le> n" "\<And>j. j < k \<Longrightarrow> j \<in> ?K"
      using ex_least_nat_le [of "\<lambda>j. j \<notin> ?K" n] n(2) by blast
    obtain sys' mail where s: "create_process off oom sys = Inr (int i, sys')" "sys_inv sys'"
        "pc_list (sys_cont sys') = ps[i := new_slot i (int (k * pc_blk (sys_cont sys))) mail]" "queue_inv mail"
      using create_process_ok [OF inv, of oom i k off] oom i k n(1) unfolding ps_def d_def by force
    have "live_slot (pc_list (sys_cont sys')) j \<longleftrightarrow> j = i \<or> live_slot ps j" for j
      unfolding s(3) live_slot_upd [OF i(1)] using new_slot_ok(2) [OF s(4) pc_invD(5) [OF C(1)]] by simp
    then show ?thesis using Some False s(1,2) by auto
  qed
qed

text \<open>With a block for every slot there is a block when there is a slot.\<close>

lemma block_left:
  assumes "length (pc_list (sys_cont sys)) \<le> disk_nblocks (mmu_disk (vm_mmu (sys_vm sys)))"
    and "i < length (pc_list (sys_cont sys))" "\<not> live_slot (pc_list (sys_cont sys)) i"
  shows "used_blocks (pc_blk (sys_cont sys)) (pc_list (sys_cont sys)) \<noteq> {..<disk_nblocks (mmu_disk (vm_mmu (sys_vm sys)))}"
proof -
  obtain k where "k < disk_nblocks (mmu_disk (vm_mmu (sys_vm sys)))"
      "k \<notin> used_blocks (pc_blk (sys_cont sys)) (pc_list (sys_cont sys))"
    by (rule slots_and_blocks [OF assms])
  then show ?thesis by auto
qed

text \<open>Starting the thread touches the thread of the slot only.\<close>

definition start_slot :: "procid_t \<Rightarrow> (unit, procid_t) worker_thread_t \<Rightarrow> proc_cont_t \<Rightarrow> proc_cont_t" where
  "start_slot pid t = upd_slot (unat pid) (\<lambda>p. p\<lparr>prc_thrd_arg := Some pid, prc_thrd := t\<rparr>)"

lemma worker_thread_start_free:
  assumes "wt_lock th = rw_free"
  shows "\<exists>ec t. worker_thread_start_impl rc th arg file line = Inr (ec, t) \<and> wt_lock t = rw_free \<and> (rc = 0 \<longrightarrow> wt_running t)"
  using assms by (cases "posix_errcode rc = ecSuccess") (auto simp: worker_thread_start_impl_def set_running_def Let_def)

lemma process_start_slot:
  assumes c: "pc_inv m c" and live: "live_slot (pc_list c) (unat pid)"
  shows "\<exists>ec t. process_start rc c pid = Inr (ec, start_slot pid t c) \<and> wt_lock t = rw_free \<and> (rc = 0 \<longrightarrow> wt_running t)"
proof -
  let ?i = "unat pid" let ?p = "pc_list c ! ?i"
  have i: "?i < length (pc_list c)" using live by (simp add: live_slot_def)
  have lock: "wt_lock (prc_thrd ?p) = rw_free" using pc_invD(8) [OF c live] by (simp add: slot_ok_def)
  let ?c1 = "upd_slot ?i (\<lambda>p. p\<lparr>prc_thrd_arg := Some pid\<rparr>) c"
  have up: "pc_upd pid (\<lambda>p. p\<lparr>prc_thrd_arg := Some pid\<rparr>) c = Inr ?c1" by (rule pc_upd_inv [OF c i])
  have c1: "pc_processes ?c1 = Some (pc_list ?c1)" by (simp add: upd_slot_def)
  have i1: "?i < length (pc_list ?c1)" using i by simp
  obtain ec t where t: "worker_thread_start_impl rc (prc_thrd (pc_list ?c1 ! ?i)) pid ''vmsim/pcb.c'' 125 = Inr (ec, t)"
      "wt_lock t = rw_free" "rc = 0 \<longrightarrow> wt_running t"
    using worker_thread_start_free [of "prc_thrd (pc_list ?c1 ! ?i)" rc pid "''vmsim/pcb.c''" 125] lock i by auto
  have "pc_upd pid (\<lambda>p. p\<lparr>prc_thrd := t\<rparr>) ?c1 = Inr (start_slot pid t c)"
    using pc_upd_at [OF c1 i1, of "\<lambda>p. p\<lparr>prc_thrd := t\<rparr>"] i by (simp add: upd_slot_def start_slot_def)
  then show ?thesis using t by (auto simp: process_start_def up pc_proc_at [OF c1 i1])
qed

lemma start_slot_facts:
  assumes wf: "sys_wf sys" and live: "live_slot (pc_list (sys_cont sys)) (unat pid)" and t: "wt_lock t = rw_free"
  shows "sys_wf (sys\<lparr>sys_cont := start_slot pid t (sys_cont sys)\<rparr>)"
    "live_slot (pc_list (start_slot pid t (sys_cont sys))) = live_slot (pc_list (sys_cont sys))"
    "mail_of (start_slot pid t (sys_cont sys)) j = mail_of (sys_cont sys) j"
    "prc_del (pc_list (start_slot pid t (sys_cont sys)) ! j) = prc_del (pc_list (sys_cont sys) ! j)"
    "pc_blk (start_slot pid t (sys_cont sys)) = pc_blk (sys_cont sys)"
    "wt_running t \<Longrightarrow> has_thread (pc_list (start_slot pid t (sys_cont sys)) ! unat pid)"
proof -
  let ?c = "sys_cont sys" let ?i = "unat pid" let ?p = "pc_list ?c ! ?i"
  let ?f = "\<lambda>p. p\<lparr>prc_thrd_arg := Some pid, prc_thrd := t\<rparr>"
  note W = sys_wfD [OF wf]
  have i: "?i < length (pc_list ?c)" using live by (simp add: live_slot_def)
  note S = pc_inv_slot [OF W(5) i, of ?f]
  have "slot_ok (pc_blk ?c) ?i (?f ?p)"
    using pc_invD(8) [OF W(5) live] t by (simp add: slot_ok_def block_of_def)
  then have inv: "pc_inv (vm_mmu (sys_vm sys)) (start_slot pid t ?c)"
      "live_slot (pc_list (start_slot pid t ?c)) = live_slot (pc_list ?c)"
    using S by (simp_all add: start_slot_def)
  have mail: "mail_of (start_slot pid t ?c) j = mail_of ?c j" for j
    using i by (cases "j = ?i") (simp_all add: start_slot_def mail_of_def)
  have blk: "pc_blk (start_slot pid t ?c) = pc_blk ?c" by (simp add: start_slot_def)
  have "mail_wf (sys\<lparr>sys_cont := start_slot pid t ?c\<rparr>)" using W(2) inv(2) mail by (simp add: mail_wf_def)
  moreover have "sizes_ok (sys\<lparr>sys_cont := start_slot pid t ?c\<rparr>)"
    by (rule sizes_ok_cong [OF W(3)]) (simp_all add: start_slot_def)
  ultimately show "sys_wf (sys\<lparr>sys_cont := start_slot pid t ?c\<rparr>)" using inv(1) W(4) by (simp add: whole)
  show "live_slot (pc_list (start_slot pid t ?c)) = live_slot (pc_list ?c)" by (rule inv(2))
  show "mail_of (start_slot pid t ?c) j = mail_of ?c j" by (rule mail)
  show "prc_del (pc_list (start_slot pid t ?c) ! j) = prc_del (pc_list ?c ! j)"
    using i by (cases "j = ?i") (simp_all add: start_slot_def)
  show "pc_blk (start_slot pid t ?c) = pc_blk ?c" by (rule blk)
  show "wt_running t \<Longrightarrow> has_thread (pc_list (start_slot pid t ?c) ! ?i)"
    using i by (simp add: start_slot_def has_thread_def worker_thread_is_running_def)
qed

lemma process_start_wf:
  assumes wf: "sys_wf sys" and live: "live_slot (pc_list (sys_cont sys)) (unat pid)"
    and r: "process_start rc (sys_cont sys) pid = Inr (ec, c)"
  shows "sys_wf (sys\<lparr>sys_cont := c\<rparr>)"
  using process_start_slot [OF sys_wfD(5) [OF wf] live, of rc] r start_slot_facts(1) [OF wf live] by auto

end
