(* ===== verification/Ui_Invariant.thy ===== *)
theory Ui_Invariant
  imports Ui Sys_Invariant
begin

text \<open>
  The program as a system of threads: the user interface handles commands, and whenever it waits
  (and between two commands) the threads of the processes serve their mail in any order. Every
  state that can be reached is a good one.
\<close>

subsection \<open>The threads of the processes\<close>

text \<open>The thread of a live process takes one piece of mail.\<close>

inductive serve_step :: "u32 \<Rightarrow> bool \<Rightarrow> sys_t \<Rightarrow> sys_t \<Rightarrow> bool" for off fo where
  serve: "live_slot (pc_list (sys_cont s)) (unat pid) \<Longrightarrow> process_func off fo pid s = Inr (stop, s') \<Longrightarrow>
    serve_step off fo s s'"

inductive_cases serve_stepE: "serve_step off fo s s'"

lemma serve_step_wf: "serve_step off fo s s' \<Longrightarrow> sys_wf s \<Longrightarrow> sys_wf s'"
  by (elim serve_stepE) (rule process_func_wf(1))

lemma serve_steps_wf: "(serve_step off fo)\<^sup>*\<^sup>* s s' \<Longrightarrow> sys_wf s \<Longrightarrow> sys_wf s'"
  by (induction rule: rtranclp_induct) (auto intro: serve_step_wf)

text \<open>What the surroundings may do: the other threads only serve mail, memory is there.\<close>

definition world_ok :: "world_t \<Rightarrow> bool" where
  "world_ok w \<longleftrightarrow> (\<forall>n. \<not> wo_oom w n) \<and>
     (\<forall>s s'. wo_others w s = Inr s' \<longrightarrow> (serve_step (wo_off w) (wo_fopen w))\<^sup>*\<^sup>* s s')"

subsection \<open>Commands\<close>

definition ui_wf :: "ui_t \<Rightarrow> bool" where
  "ui_wf ui \<longleftrightarrow> sys_wf (ui_sys ui)"

declare ui_wf_def [whole]

lemma put_sys_simps [simp]:
  "ui_sys (put_sys s ui) = s" "put_sys (ui_sys ui) ui = ui" "put_sys s (put_sys s' ui) = put_sys s ui"
  "app_initialized (ui_app (put_sys s ui)) = app_initialized (ui_app ui)" "ui_level (put_sys s ui) = ui_level ui"
  by (simp_all add: put_sys_def)

lemma ui_wf_put [simp]: "ui_wf (put_sys s ui) = sys_wf s"
  by (simp add: ui_wf_def)

lemma ui_wf_say [simp]: "ui_wf (ui_say t ui) = ui_wf ui" "ui_wf (ui\<lparr>ui_level := l\<rparr>) = ui_wf ui"
  by (simp_all add: ui_say_def ui_wf_def)

lemma run_others_wf:
  assumes "world_ok w" "ui_wf ui" "run_others w ui = Inr ui'"
  shows "ui_wf ui'"
proof -
  obtain s where s: "wo_others w (ui_sys ui) = Inr s" "ui' = put_sys s ui"
    using assms(3) by (auto simp: run_others_def rbind_eq_Inr)
  then have "(serve_step (wo_off w) (wo_fopen w))\<^sup>*\<^sup>* (ui_sys ui) s" using assms(1) by (simp add: world_ok_def)
  then show ?thesis using serve_steps_wf assms(2) s(2) by (simp add: ui_wf_def)
qed

lemma ui_signal_wf: "ui_wf ui \<Longrightarrow> ui_signal ui = Inr ui' \<Longrightarrow> ui_wf ui'"
  by (auto simp: ui_signal_def rbind_eq_Inr job_only_wf ui_wf_def)

lemma ui_wait_wf: "world_ok w \<Longrightarrow> ui_wf ui \<Longrightarrow> ui_wait w ui = Inr ui' \<Longrightarrow> ui_wf ui'"
  by (auto simp: ui_wait_def rbind_eq_Inr job_only_wf ui_wf_def dest!: run_others_wf [unfolded ui_wf_def])

lemma do_create_process_wf:
  assumes "world_ok w" "ui_wf ui" "do_create_process w cmd ui = Inr (r, ui')"
  shows "ui_wf ui'"
proof (cases "app_initialized (ui_app ui)")
  case True
  have wf: "sys_wf (ui_sys ui)" using assms(2) by (simp add: ui_wf_def)
  obtain pid s where s: "create_process (wo_off w) (wo_oom w) (ui_sys ui) = Inr (pid, s)" "sys_wf s"
      "0 \<le> pid \<Longrightarrow> \<exists>i. pid = int i \<and> i < length (pc_list (sys_cont (ui_sys ui))) \<and> live_slot (pc_list (sys_cont s)) i"
    using create_process_wf [OF wf, of "wo_oom w" "wo_off w"] assms(1) by (fastforce simp: world_ok_def)
  show ?thesis
  proof (cases "pid < 0")
    case True
    then show ?thesis using assms(3) s \<open>app_initialized _\<close> by (auto simp: do_create_process_def)
  next
    case False
    then obtain i where i: "pid = int i" "i < length (pc_list (sys_cont (ui_sys ui)))" "live_slot (pc_list (sys_cont s)) i"
      using s(3) by auto
    have "unat (word_of_int pid :: u32) = i" unfolding i(1) using pid_word [OF sys_wfD(1) [OF wf] i(2)] .
    then show ?thesis
      using assms(3) s(1) False \<open>app_initialized _\<close> process_start_wf [OF s(2), of "word_of_int pid"] i(3)
      by (auto simp: do_create_process_def rbind_eq_Inr)
  qed
qed (use assms in \<open>simp add: do_create_process_def\<close>)

lemma do_del_process_wf: "ui_wf ui \<Longrightarrow> do_del_process w cmd ui = Inr (r, ui') \<Longrightarrow> ui_wf ui'"
  by (auto simp: do_del_process_def del_process_def rbind_eq_Inr ui_wf_def split: if_splits option.splits
      intro: process_destroy_wf) (auto simp: ui_say_def)

lemma sint_bound: "sint (w :: u32) < 2 ^ 31"
  using sint_lt [of w] by simp

lemma asked_wf: "asked ui r = Inr (b, ui') \<Longrightarrow> (\<And>err s. r = Inr (err, s) \<Longrightarrow> sys_wf s) \<Longrightarrow> ui_wf ui'"
  by (auto simp: asked_def rbind_eq_Inr)

lemma refuse_wf: "refuse ui m = Inr (b, ui') \<Longrightarrow> ui_wf ui \<Longrightarrow> ui_wf ui'"
  by (auto simp: refuse_def)

lemma do_requests_wf:
  assumes "ui_wf ui"
  shows "do_read cmd ui = Inr (r, ui') \<Longrightarrow> ui_wf ui'"
    "do_loop_read cmd ui = Inr (r, ui') \<Longrightarrow> ui_wf ui'"
    "do_read_to_file cmd ui = Inr (r, ui') \<Longrightarrow> ui_wf ui'"
    "do_loop_read_to_file cmd ui = Inr (r, ui') \<Longrightarrow> ui_wf ui'"
    "do_write cmd ui = Inr (r, ui') \<Longrightarrow> ui_wf ui'"
    "do_loop_write cmd ui = Inr (r, ui') \<Longrightarrow> ui_wf ui'"
proof -
  have wf: "sys_wf (ui_sys ui)" using assms by (simp add: ui_wf_def)
  note R = requests_wf [OF wf sint_bound sint_bound]
  note S = R(1) [THEN asked_wf [rotated]] R(2) [THEN asked_wf [rotated]] R(3) [THEN asked_wf [rotated]]
    R(4) [THEN asked_wf [rotated]] R(5) [THEN asked_wf [rotated]] R(6) [THEN asked_wf [rotated]]
  show "do_read cmd ui = Inr (r, ui') \<Longrightarrow> ui_wf ui'"
    using assms by (auto simp: do_read_def split: if_splits list.splits prod.splits dest: refuse_wf intro: S)
  show "do_loop_read cmd ui = Inr (r, ui') \<Longrightarrow> ui_wf ui'"
    using assms by (auto simp: do_loop_read_def split: if_splits list.splits prod.splits dest: refuse_wf intro: S)
  show "do_read_to_file cmd ui = Inr (r, ui') \<Longrightarrow> ui_wf ui'"
    using assms by (auto simp: do_read_to_file_def split: if_splits list.splits prod.splits dest: refuse_wf intro: S)
  show "do_loop_read_to_file cmd ui = Inr (r, ui') \<Longrightarrow> ui_wf ui'"
    using assms by (auto simp: do_loop_read_to_file_def split: if_splits list.splits prod.splits dest: refuse_wf intro: S)
  show "do_write cmd ui = Inr (r, ui') \<Longrightarrow> ui_wf ui'"
    using assms by (auto simp: do_write_def split: if_splits list.splits prod.splits dest: refuse_wf intro: S)
  show "do_loop_write cmd ui = Inr (r, ui') \<Longrightarrow> ui_wf ui'"
    using assms by (auto simp: do_loop_write_def split: if_splits list.splits prod.splits dest: refuse_wf intro: S)
qed

subsection \<open>Dumps\<close>

lemma shown_wf: "ui_wf ui \<Longrightarrow> shown ui t = Inr (r, ui') \<Longrightarrow> ui_wf ui'"
  by (auto simp: shown_def rbind_eq_Inr)

lemma mmu_get_stats_inv: "mmu_inv m \<Longrightarrow> mmu_get_stats m = Inr (mmu_stats m, m)"
  using mmu_invD(9) [of m] by (cases m) (simp add: mmu_get_stats_def)

lemma do_hit_rate_wf:
  assumes "ui_wf ui" "do_hit_rate w ui = Inr (r, ui')"
  shows "ui_wf ui'"
proof -
  have "mmu_inv (vm_mmu (sys_vm (ui_sys ui)))" using assms(1) by (simp add: whole)
  note m = mmu_get_stats_inv [OF this]
  have same: "(ui_sys ui)\<lparr>sys_vm := (sys_vm (ui_sys ui))\<lparr>vm_mmu := vm_mmu (sys_vm (ui_sys ui))\<rparr>\<rparr> = ui_sys ui" by simp
  show ?thesis
    using assms by (auto simp: do_hit_rate_def print_hit_rate_def m rbind_eq_Inr same split: if_splits)
qed

lemma dumps_wf:
  assumes "ui_wf ui"
  shows "do_print_MM ui = Inr (r, ui') \<Longrightarrow> ui_wf ui'" "do_print_MMU_table ui = Inr (r, ui') \<Longrightarrow> ui_wf ui'"
    "do_print_registers ui = Inr (r, ui') \<Longrightarrow> ui_wf ui'" "do_print_HAT ui = Inr (r, ui') \<Longrightarrow> ui_wf ui'"
    "do_monitor w ui = (r, ui') \<Longrightarrow> ui_wf ui'" "do_no_monitor w ui = (r, ui') \<Longrightarrow> ui_wf ui'"
    "do_debug_mode w ui = (r, ui') \<Longrightarrow> ui_wf ui'"
  using assms
  by (auto simp: do_print_MM_def do_print_MMU_table_def do_print_registers_def do_print_HAT_def
      do_monitor_def do_no_monitor_def do_debug_mode_def Let_def split: if_splits prod.splits dest: shown_wf)

subsection \<open>The command handler\<close>

definition keeps_wf :: "(ui_cmd_t \<Rightarrow> ui_t \<Rightarrow> (bool \<times> ui_t) res) \<Rightarrow> bool" where
  "keeps_wf handler \<longleftrightarrow> (\<forall>cmd u r u'. ui_wf u \<longrightarrow> handler cmd u = Inr (r, u') \<longrightarrow> ui_wf u')"

lemma batch_loop_wf:
  assumes h: "keeps_wf handler"
  shows "ui_wf ui \<Longrightarrow> batch_loop k handler f ui = Inr (r, ui') \<Longrightarrow> ui_wf ui'"
proof (induction k arbitrary: f ui)
  case (Suc k)
  show ?case
  proof (cases "fgets (max_cmd_len + 1 + filename_max) f")
    case None
    then show ?thesis using Suc.prems by simp
  next
    case (Some lf)
    then obtain line f' where lf: "fgets (max_cmd_len + 1 + filename_max) f = Some (line, f')" by (cases lf) auto
    obtain cmd go u where u: "handler cmd ui = Inr (go, u)" "if go then batch_loop k handler f' u = Inr (r, ui') else u = ui'"
      using Suc.prems(2) lf by (auto simp: rbind_eq_Inr split: if_splits)
    have wf: "ui_wf u" using h Suc.prems(1) u(1) by (auto simp: keeps_wf_def)
    show ?thesis using u(2) wf Suc.IH [OF wf] by (cases go) auto
  qed
qed simp

lemma signalled_wf: "signalled r = Inr (a, b, c, ui') \<Longrightarrow> (\<And>x u. r = Inr (x, u) \<Longrightarrow> ui_wf u) \<Longrightarrow> ui_wf ui'"
  by (auto simp: signalled_def rbind_eq_Inr intro: ui_signal_wf)

lemma run_command_wf:
  assumes w: "world_ok w" and wf: "ui_wf ui"
    and h: "keeps_wf handler"
    and r: "run_command handler w cmd ui = Inr (a, b, c, ui')"
  shows "ui_wf ui'"
proof -
  have batch: "ui_wf u" if "do_batch_file handler w cmd ui = Inr (x, u)" for x u
    using that wf batch_loop_wf [OF h wf] by (auto simp: do_batch_file_def simp del: batch_loop.simps split: if_splits option.splits)
  note D = dumps_wf [OF wf] do_hit_rate_wf [OF wf] do_requests_wf [OF wf] do_del_process_wf [OF wf] do_create_process_wf [OF w wf]
  show ?thesis
    using r wf unfolding run_command_def Let_def
    by (auto simp: rbind_eq_Inr split: if_splits dest: D batch dest!: signalled_wf intro: D) 
qed

lemma command_handler_wf:
  assumes w: "world_ok w"
  shows "ui_wf ui \<Longrightarrow> command_handler k w cmd ui = Inr (r, ui') \<Longrightarrow> ui_wf ui'"
proof (induction k arbitrary: cmd ui r ui')
  case (Suc k)
  obtain u0 a b c u1 u2 where u: "run_others w ui = Inr u0"
      "run_command (\<lambda>c u. command_handler k w c u) w cmd u0 = Inr (a, b, c, u1)"
      "(if \<not> c then ui_signal u1 else Inr u1) = Inr u2" "(if b then ui_wait w u2 else Inr u2) = Inr ui'"
    using Suc.prems(2) by (auto simp: rbind_eq_Inr)
  have "keeps_wf (\<lambda>c u. command_handler k w c u)" unfolding keeps_wf_def using Suc.IH by blast
  then have "ui_wf u1" by (rule run_command_wf [OF w run_others_wf [OF w Suc.prems(1) u(1)] _ u(2)])
  then have "ui_wf u2" using u(3) ui_signal_wf by (auto split: if_splits)
  then show ?case using u(4) ui_wait_wf [OF w] by (auto split: if_splits)
qed simp

subsection \<open>Reachable states\<close>

text \<open>The states of the program from \<open>ui0\<close> on: any commands, in between any mail served.\<close>

inductive reachable :: "world_t \<Rightarrow> ui_t \<Rightarrow> ui_t \<Rightarrow> bool" for w ui0 where
  start: "reachable w ui0 ui0"
| command: "reachable w ui0 ui \<Longrightarrow> command_handler k w cmd ui = Inr (go, ui') \<Longrightarrow> reachable w ui0 ui'"
| served: "reachable w ui0 ui \<Longrightarrow> serve_step (wo_off w) (wo_fopen w) (ui_sys ui) sys \<Longrightarrow> reachable w ui0 (put_sys sys ui)"

lemma reachable_wf:
  assumes "reachable w ui0 ui" "world_ok w" "ui_wf ui0"
  shows "ui_wf ui"
  using assms(1)
proof (induction rule: reachable.induct)
  case (command ui k cmd go ui')
  then show ?case using command_handler_wf [OF assms(2)] by blast
next
  case (served ui sys)
  then show ?case using serve_step_wf by (simp add: ui_wf_def)
qed (rule assms(3))

text \<open>The state after \<^verbatim>\<open>load_app_data\<close> and \<^verbatim>\<open>init_job_done\<close>.\<close>

definition config_fits :: "config_t \<Rightarrow> bool" where
  "config_fits cf \<longleftrightarrow> config_ok cf \<and> unat (cf_nproc cf) * unat (cf_n_proc_pages cf) \<le> unat (cf_n_page_disk cf) \<and>
     (\<exists>k < 31. unat (cf_page_size cf) = 2 ^ k)"

definition started :: "app_data_t \<Rightarrow> ui_t" where
  "started app = \<lparr>ui_app = app\<lparr>app_sys := (app_sys app)\<lparr>sys_job := init_job_done\<rparr>\<rparr>, ui_level = lvError\<rparr>"

lemma started_wf:
  assumes "config_fits cf" "env_ok env"
  shows "\<exists>app'. load_config env cf app = Inr (True, app') \<and> app_initialized app' \<and> ui_wf (started app') \<and>
           sys_out (app_sys app') = sys_out (app_sys app) \<and>
           length (pc_list (sys_cont (app_sys app'))) = unat (cf_nproc cf) \<and>
           vm_psize (sys_vm (app_sys app')) = unat (cf_page_size cf) \<and>
           pc_blk (sys_cont (app_sys app')) = unat (cf_n_proc_pages cf) \<and>
           (\<forall>i. \<not> live_slot (pc_list (sys_cont (app_sys app'))) i)"
proof -
  have ok: "config_ok cf" using assms(1) by (simp add: config_fits_def)
  obtain app' where app': "load_config env cf app = Inr (True, app')" "app_initialized app'" "sys_inv (app_sys app')"
      "sys_out (app_sys app') = sys_out (app_sys app)"
      "vm_psize (sys_vm (app_sys app')) = unat (cf_page_size cf)"
      "disk_pages (mmu_disk (vm_mmu (sys_vm (app_sys app')))) = unat (cf_n_page_disk cf)"
      "pc_blk (sys_cont (app_sys app')) = unat (cf_n_proc_pages cf)"
      "length (pc_list (sys_cont (app_sys app'))) = unat (cf_nproc cf)"
      "\<forall>i. \<not> live_slot (pc_list (sys_cont (app_sys app'))) i"
    using load_config_ok [OF ok assms(2)] by blast
  let ?s = "app_sys app'"
  have I: "vm_inv (sys_vm ?s)" "pc_inv (vm_mmu (sys_vm ?s)) (sys_cont ?s)" using app'(3) by (simp_all add: sys_inv_def)
  have "unat (cf_nproc cf) \<le> unat (cf_n_page_disk cf) div unat (cf_n_proc_pages cf)"
    using assms(1) pc_invD(5) [OF I(2)] app'(7) by (simp add: config_fits_def less_eq_div_iff_mult_less_eq)
  then have blocks: "length (pc_list (sys_cont ?s)) \<le> disk_nblocks (mmu_disk (vm_mmu (sys_vm ?s)))"
    unfolding disk_nblocks_def pc_invD(7) [OF I(2)] app'(6,7,8) .
  obtain k where k: "k < 31" "unat (cf_page_size cf) = 2 ^ k" using assms(1) by (auto simp: config_fits_def)
  have "sys_page_size ?s = int (2 ^ k)" using vm_psize_bound [OF I(1)] unfolding app'(5) k(2) by blast
  then have "sizes_ok ?s" using blocks k(1) by (auto simp: sizes_ok_def)
  moreover have "mail_wf ?s" using app'(9) by (simp add: mail_wf_def)
  ultimately have "ui_wf (started app')" using app'(3) by (simp add: ui_wf_def started_def job_only_wf sys_wf_def [of ?s])
  then show ?thesis using app' by blast
qed

lemma main_loop_wf:
  assumes w: "world_ok w"
  shows "ui_wf ui \<Longrightarrow> main_loop n k w input ui = Inr ui' \<Longrightarrow> ui_wf ui'"
proof (induction n arbitrary: input ui)
  case (Suc n)
  obtain cmd input' go u where u: "command_handler k w cmd (ui_say (ascii ''>'') ui) = Inr (go, u)"
      "if go then main_loop n k w input' u = Inr ui' else u = ui'"
    using Suc.prems(2) by (auto simp: rbind_eq_Inr split: if_splits)
  have "ui_wf u" using command_handler_wf [OF w _ u(1)] Suc.prems(1) by simp
  then show ?case using u(2) Suc.IH by (cases go) auto
qed simp

end
