(* ===== verification/Ui_Session.thy ===== *)
theory Ui_Session
  imports Ui_Invariant
begin

text \<open>
  Sessions: commands typed one after the other, with a process that serves each request while the
  user interface goes on. The session behaves like the plain jobs on a plain memory.
\<close>

subsection \<open>Commands for jobs\<close>

definition line :: "string \<Rightarrow> byte list list \<Rightarrow> ui_cmd_t" where
  "line c args = \<lparr>cmd_command = ascii c, cmd_param = spaced args\<rparr>"

definition num :: "nat \<Rightarrow> u32" where
  "num n = word_of_int (int n)"

definition fmt_nat :: "nat \<Rightarrow> byte list" where
  "fmt_nat n = fmt_u (num n)"

text \<open>The command that asks process \<open>i\<close> for a job.\<close>

fun typed :: "nat \<Rightarrow> job \<Rightarrow> ui_cmd_t" where
  "typed i (JRead a n) = line ''read'' [fmt_nat a, fmt_nat i, fmt_nat n]"
| "typed i (JLoopRead a off n) = line ''loopRead'' [fmt_nat a, fmt_nat i, fmt_nat off, fmt_nat n]"
| "typed i (JReadFile a n f) = line ''readToFile'' [fmt_nat a, fmt_nat i, fmt_nat n, f]"
| "typed i (JLoopReadFile a off n f) = line ''loopReadToFile'' [fmt_nat a, fmt_nat i, fmt_nat off, fmt_nat n, f]"
| "typed i (JWrite a s) = line ''write'' [fmt_nat a, fmt_nat i, s]"
| "typed i (JLoopWrite a x off n) = line ''loopWrite'' [fmt_nat a, fmt_nat i, [x], fmt_nat off, fmt_nat n]"

text \<open>The words of a job have no blanks.\<close>

fun job_words :: "job \<Rightarrow> bool" where
  "job_words (JReadFile a n f) = word_ok f"
| "job_words (JLoopReadFile a off n f) = word_ok f"
| "job_words (JWrite a s) = word_ok s"
| "job_words (JLoopWrite a x off n) = word_ok [x]"
| "job_words _ = True"

definition typed_ok :: "nat \<Rightarrow> job \<Rightarrow> bool" where
  "typed_ok i j \<longleftrightarrow> i < 2 ^ 31 \<and> job_words j \<and> (case job_range j of (a, off, n) \<Rightarrow> a < 2 ^ 31 \<and> off < 2 ^ 31 \<and> n < 2 ^ 31)"

lemma fmt_nat_facts [simp]: "word_ok (fmt_nat n)" "scan_u (fmt_nat n) = Some (num n)"
  unfolding fmt_nat_def by (rule fmt_u_word, rule scan_fmt_u)

lemma tokens_line [simp]: "list_all word_ok args \<Longrightarrow> tokens (cmd_param (line c args)) = args"
  by (simp add: line_def tokens_spaced)

lemma spaced_Nil: "list_all word_ok (t # ts) \<Longrightarrow> spaced (t # ts) \<noteq> []"
  by (cases ts) (auto simp: word_ok_def)

lemma param_line [simp]: "list_all word_ok (t # ts) \<Longrightarrow> cmd_param (line c (t # ts)) \<noteq> []"
  using spaced_Nil by (simp add: line_def)

lemma command_line [simp]: "cmd_command (line c args) = ascii c"
  by (simp add: line_def)

lemma sint_num: "n < 2 ^ 31 \<Longrightarrow> sint (num n) = int n"
  unfolding num_def by (rule slot_word(2))

lemma read_nums_fmt:
  "read_nums 2 (fmt_nat a # fmt_nat b # ts) = ([num a, num b], ts)"
  "read_nums 3 (fmt_nat a # fmt_nat b # fmt_nat c # ts) = ([num a, num b, num c], ts)"
  "read_nums 4 (fmt_nat a # fmt_nat b # fmt_nat c # fmt_nat d # ts) = ([num a, num b, num c, num d], ts)"
  by (simp_all add: eval_nat_numeral)

text \<open>Typing the command makes the request.\<close>

lemma do_typed_read:
  assumes "app_initialized (ui_app ui)" "i < 2 ^ 31" "a < 2 ^ 31" "off < 2 ^ 31" "n < 2 ^ 31"
  shows "do_read (typed i (JRead a n)) ui = asked ui (issue (ui_sys ui) (int i) (JRead a n))"
    "do_loop_read (typed i (JLoopRead a off n)) ui = asked ui (issue (ui_sys ui) (int i) (JLoopRead a off n))"
    "word_ok f \<Longrightarrow> do_read_to_file (typed i (JReadFile a n f)) ui = asked ui (issue (ui_sys ui) (int i) (JReadFile a n f))"
    "word_ok f \<Longrightarrow> do_loop_read_to_file (typed i (JLoopReadFile a off n f)) ui =
       asked ui (issue (ui_sys ui) (int i) (JLoopReadFile a off n f))"
    "word_ok f \<Longrightarrow> do_write (typed i (JWrite a f)) ui = asked ui (issue (ui_sys ui) (int i) (JWrite a f))"
    "word_ok [x] \<Longrightarrow> do_loop_write (typed i (JLoopWrite a x off n)) ui =
       asked ui (issue (ui_sys ui) (int i) (JLoopWrite a x off n))"
  using assms(1) sint_num [OF assms(2)] sint_num [OF assms(3)] sint_num [OF assms(4)] sint_num [OF assms(5)]
  by (simp_all add: do_read_def do_loop_read_def do_read_to_file_def do_loop_read_to_file_def do_write_def
      do_loop_write_def read_nums_fmt)

lemma dispatch:
  "cmd_command cmd = ascii ''read'' \<Longrightarrow> run_command h w cmd ui = rbind (do_read cmd ui) (\<lambda>(r, ui1). Inr (True, True, r, ui1))"
  "cmd_command cmd = ascii ''loopRead'' \<Longrightarrow>
     run_command h w cmd ui = rbind (do_loop_read cmd ui) (\<lambda>(r, ui1). Inr (True, True, r, ui1))"
  "cmd_command cmd = ascii ''readToFile'' \<Longrightarrow>
     run_command h w cmd ui = rbind (do_read_to_file cmd ui) (\<lambda>(r, ui1). Inr (True, True, r, ui1))"
  "cmd_command cmd = ascii ''loopReadToFile'' \<Longrightarrow>
     run_command h w cmd ui = rbind (do_loop_read_to_file cmd ui) (\<lambda>(r, ui1). Inr (True, True, r, ui1))"
  "cmd_command cmd = ascii ''write'' \<Longrightarrow> run_command h w cmd ui = rbind (do_write cmd ui) (\<lambda>(r, ui1). Inr (True, True, r, ui1))"
  "cmd_command cmd = ascii ''loopWrite'' \<Longrightarrow>
     run_command h w cmd ui = rbind (do_loop_write cmd ui) (\<lambda>(r, ui1). Inr (True, True, r, ui1))"
  "cmd_command cmd = ascii ''exit'' \<Longrightarrow> run_command h w cmd ui = Inr (False, False, True, ui)"
  by (simp_all add: run_command_def)

lemma typed_commands:
  "cmd_command (typed i (JRead a n)) = ascii ''read''" "cmd_command (typed i (JLoopRead a off n)) = ascii ''loopRead''"
  "cmd_command (typed i (JReadFile a n f)) = ascii ''readToFile''"
  "cmd_command (typed i (JLoopReadFile a off n f)) = ascii ''loopReadToFile''"
  "cmd_command (typed i (JWrite a s)) = ascii ''write''" "cmd_command (typed i (JLoopWrite a x off n)) = ascii ''loopWrite''"
  by simp_all

lemma do_typed:
  assumes "app_initialized (ui_app ui)" "typed_ok i j"
  shows "run_command h w (typed i j) ui =
     rbind (asked ui (issue (ui_sys ui) (int i) j)) (\<lambda>(r, ui1). Inr (True, True, r, ui1))"
proof -
  have i: "i < 2 ^ 31" using assms(2) by (simp add: typed_ok_def)
  obtain a off n where r: "job_range j = (a, off, n)" by (cases "job_range j")
  then have n: "a < 2 ^ 31" "off < 2 ^ 31" "n < 2 ^ 31" "job_words j" using assms(2) by (simp_all add: typed_ok_def)
  note T = do_typed_read [OF assms(1) i n(1-3)]
  show ?thesis
  proof (cases j)
    case (JRead a' n')
    then show ?thesis using r T(1) unfolding dispatch(1) [OF typed_commands(1)] JRead by simp
  next
    case (JLoopRead a' off' n')
    then show ?thesis using r T(2) unfolding dispatch(2) [OF typed_commands(2)] JLoopRead by simp
  next
    case (JReadFile a' n' f)
    then show ?thesis using r n(4) T(3) [of f] unfolding dispatch(3) [OF typed_commands(3)] JReadFile by simp
  next
    case (JLoopReadFile a' off' n' f)
    then show ?thesis using r n(4) T(4) [of f] unfolding dispatch(4) [OF typed_commands(4)] JLoopReadFile by simp
  next
    case (JWrite a' s)
    then show ?thesis using r n(4) T(5) [of s] unfolding dispatch(5) [OF typed_commands(5)] JWrite by simp
  next
    case (JLoopWrite a' x off' n')
    then show ?thesis using r n(4) T(6) [of x] unfolding dispatch(6) [OF typed_commands(6)] JLoopWrite by simp
  qed
qed

subsection \<open>A process that serves what it is asked\<close>

text \<open>The thread of process \<open>i\<close> has mail, and it serves a piece of it once the interface holds the mutex of the handshake.\<close>

definition has_work :: "nat \<Rightarrow> sys_t \<Rightarrow> bool" where
  "has_work i s \<longleftrightarrow> live_slot (pc_list (sys_cont s)) i \<and> has_thread (pc_list (sys_cont s) ! i) \<and>
     mail_of (sys_cont s) i \<noteq> [] \<and> job_mutex (sys_job s)"

definition serve_asked :: "u32 \<Rightarrow> bool \<Rightarrow> nat \<Rightarrow> sys_t \<Rightarrow> sys_t res" where
  "serve_asked off fo i s =
     (if has_work i s then rbind (process_func off fo (word_of_int (int i)) s) (\<lambda>(_, s'). Inr s') else Inr s)"

text \<open>
  The schedules in which the thread is patient: whenever it could run it serves one piece of mail or lets it lie, as it
  likes, but never before the interface has begun to wait; and it is not left out when the interface has asked for a second
  job, as \<^verbatim>\<open>wait_job_done\<close> then waits for the thread to unlock the mutex.
\<close>

definition patient :: "world_t \<Rightarrow> nat \<Rightarrow> bool" where
  "patient w i \<longleftrightarrow> (\<forall>s. wo_others w s = serve_asked (wo_off w) (wo_fopen w) i s \<or>
     wo_others w s = Inr s \<and> (has_work i s \<longrightarrow> length (mail_of (sys_cont s) i) = 1))"

lemma patient_idle: "patient w i \<Longrightarrow> \<not> has_work i s \<Longrightarrow> wo_others w s = Inr s"
  unfolding patient_def serve_asked_def by (metis (full_types))

lemma patient_pressed:
  "patient w i \<Longrightarrow> has_work i s \<Longrightarrow> 1 < length (mail_of (sys_cont s) i) \<Longrightarrow>
   wo_others w s = serve_asked (wo_off w) (wo_fopen w) i s"
  by (auto simp: patient_def dest: spec [of _ s])

lemma patient_serve_asked: "wo_others w = serve_asked (wo_off w) (wo_fopen w) i \<Longrightarrow> patient w i"
  by (simp add: patient_def)

text \<open>The process is there, started and not about to go.\<close>

definition seated :: "nat \<Rightarrow> ui_t \<Rightarrow> bool" where
  "seated i ui \<longleftrightarrow> app_initialized (ui_app ui) \<and> ui_wf ui \<and> live_slot (pc_list (sys_cont (ui_sys ui))) i \<and>
     \<not> prc_del (pc_list (sys_cont (ui_sys ui)) ! i) \<and> has_thread (pc_list (sys_cont (ui_sys ui)) ! i)"

definition quiet :: "nat \<Rightarrow> ui_t \<Rightarrow> bool" where
  "quiet i ui \<longleftrightarrow> seated i ui \<and> mail_of (sys_cont (ui_sys ui)) i = [] \<and> sys_job (ui_sys ui) = job_is_done"

definition busy :: "nat \<Rightarrow> job \<Rightarrow> ui_t \<Rightarrow> bool" where
  "busy i j ui \<longleftrightarrow> seated i ui \<and>
     mail_of (sys_cont (ui_sys ui)) i = [job_post (vm_psize (sys_vm (ui_sys ui))) (num i) j] \<and>
     sys_job (ui_sys ui) = \<lparr>job_done = False, job_mutex = True\<rparr>"

text \<open>The bytes of memory a process has.\<close>

definition mem_size :: "ui_t \<Rightarrow> nat" where
  "mem_size ui = pc_blk (sys_cont (ui_sys ui)) * vm_psize (sys_vm (ui_sys ui))"

abbreviation ui_live :: "ui_t \<Rightarrow> nat \<Rightarrow> bool" where
  "ui_live ui \<equiv> live_slot (pc_list (sys_cont (ui_sys ui)))"

definition same_memory :: "ui_t \<Rightarrow> ui_t \<Rightarrow> bool" where
  "same_memory ui ui' \<longleftrightarrow> cells (sys_vm (ui_sys ui')) = cells (sys_vm (ui_sys ui)) \<and>
     vm_psize (sys_vm (ui_sys ui')) = vm_psize (sys_vm (ui_sys ui)) \<and> mem_size ui' = mem_size ui \<and> ui_live ui' = ui_live ui"

lemma issue_wf:
  assumes wf: "sys_wf s" and j: "typed_ok i j" and r: "issue s pid j = Inr (err, s')"
  shows "sys_wf s'"
proof -
  obtain a off n where rng: "job_range j = (a, off, n)" by (cases "job_range j")
  have b: "int n < 2 ^ 31" "int off < 2 ^ 31" "int 0 < 2 ^ 31" using j rng by (auto simp: typed_ok_def)
  note R = requests_wf [OF wf b(1,2)] requests_wf [OF wf b(1) b(3)] requests_wf(5) [OF wf b(3) b(3)]
  show ?thesis using r rng by (cases j) (auto intro: R)
qed

text \<open>A request is one more post in the mail box.\<close>

lemma issue_mails:
  assumes seat: "seated i ui" and j: "typed_ok i j"
  obtains q where "issue (ui_sys ui) (int i) j = Inr (ecSuccess, mailed (ui_sys ui) i q)" "queue_inv q"
    "queue_list q = mail_of (sys_cont (ui_sys ui)) i @ [job_post (vm_psize (sys_vm (ui_sys ui))) (num i) j]"
    "sys_wf (mailed (ui_sys ui) i q)"
proof -
  let ?s = "ui_sys ui" let ?c = "sys_cont ?s"
  have Q: "sys_wf ?s" "live_slot (pc_list ?c) i" "\<not> prc_del (pc_list ?c ! i)"
    using seat by (simp_all add: seated_def ui_wf_def)
  note W = sys_wfD [OF Q(1)]
  obtain m where m: "m < 31" "sys_page_size ?s = 2 ^ m" using W(3) by (auto simp: sizes_ok_def)
  have a: "job_start j < 2 ^ 31" using j by (auto simp: typed_ok_def split: prod.splits)
  obtain q where q: "issue ?s (int i) j = Inr (ecSuccess, mailed ?s i q)" "queue_inv q"
      "queue_list q = mail_of ?c i @ [job_post (vm_psize (sys_vm ?s)) (num i) j]"
    using issue_ok [OF W(1) Q(2,3) m(2,1) a] by (auto simp: num_def)
  show thesis by (rule that [OF q issue_wf [OF Q(1) j q(1)]])
qed

abbreviation job_awaited :: job_t where
  "job_awaited \<equiv> \<lparr>job_done = False, job_mutex = True\<rparr>"

lemma wait_after_done: "wait_job_done job_is_done = Inr job_awaited"
  by (simp add: wait_job_done_def mutex_run)

lemma handler_typed:
  assumes "app_initialized (ui_app ui)" "typed_ok i j" "run_others w ui = Inr ui"
    and "issue (ui_sys ui) (int i) j = Inr (ecSuccess, s)" "wo_others w s = Inr s'" "sys_job s' = job_is_done"
  shows "command_handler (Suc k) w (typed i j) ui = Inr (True, put_sys (s'\<lparr>sys_job := job_awaited\<rparr>) ui)"
  using assms(3-6)
  by (simp add: do_typed [OF assms(1,2)] asked_def ui_wait_def run_others_def wait_after_done del: typed.simps issue.simps)

lemma issue_round:
  assumes q: "quiet i ui" and j: "typed_ok i j" and w: "patient w i"
  shows "\<exists>ui'. command_handler (Suc k) w (typed i j) ui = Inr (True, ui') \<and> busy i j ui' \<and> same_memory ui ui' \<and>
           sys_out (ui_sys ui') = sys_out (ui_sys ui)"
proof -
  let ?s = "ui_sys ui" let ?c = "sys_cont ?s"
  have Q: "app_initialized (ui_app ui)" "sys_wf ?s" "live_slot (pc_list ?c) i" "\<not> prc_del (pc_list ?c ! i)" "mail_of ?c i = []"
      "sys_job ?s = job_is_done" "has_thread (pc_list ?c ! i)" and seat: "seated i ui"
    using q by (simp_all add: quiet_def seated_def ui_wf_def)
  obtain q where q: "issue ?s (int i) j = Inr (ecSuccess, mailed ?s i q)" "queue_inv q"
      "queue_list q = [job_post (vm_psize (sys_vm ?s)) (num i) j]" "sys_wf (mailed ?s i q)"
    using issue_mails [OF seat j] Q(5) by auto
  let ?m = "mailed ?s i q" let ?r = "?m\<lparr>sys_job := job_awaited\<rparr>"
  note M = mailed_facts [OF sys_wfD(1) [OF Q(2)] Q(3) q(2)]
  have others1: "run_others w ui = Inr ui" using patient_idle [OF w, of ?s] Q(5) by (simp add: run_others_def has_work_def)
  have others2: "wo_others w ?m = Inr ?m" using patient_idle [OF w, of ?m] Q(6) M(8) by (simp add: has_work_def)
  have run: "command_handler (Suc k) w (typed i j) ui = Inr (True, put_sys ?r ui)"
    by (rule handler_typed [OF Q(1) j others1 q(1) others2]) (simp add: M(8) Q(6))
  have wf: "sys_wf ?r" unfolding job_only_wf by (rule q(4))
  have "busy i j (put_sys ?r ui)"
    unfolding busy_def seated_def using Q(1,3,4,7) wf M(2,3,7) M(6,10) [of i] q(3) by simp
  moreover have "same_memory ui (put_sys ?r ui)"
    by (simp add: same_memory_def mem_size_def M(2,4,7))
  ultimately show ?thesis using run M(9) by (intro exI [of _ "put_sys ?r ui"]) simp
qed

end
