(* ===== verification/Command_Text.thy ===== *)
theory Command_Text
  imports Ui
begin

text \<open>
  Commands as text: what \<^verbatim>\<open>get_command\<close> reads from the standard input and what
  \<^verbatim>\<open>do_batch_file\<close> reads from a file is the command that was written there, and running a batch
  file is running its commands one after the other.
\<close>

subsection \<open>Writing a command\<close>

definition cmd_text :: "ui_cmd_t \<Rightarrow> byte list" where
  "cmd_text c = cmd_command c @ (if cmd_param c = [] then [] else 32 # cmd_param c) @ [10]"

definition name_ok :: "byte list \<Rightarrow> bool" where
  "name_ok s \<longleftrightarrow> s \<noteq> [] \<and> length s \<le> max_cmd_len \<and> list_all (\<lambda>x. \<not> isspace x \<and> x \<noteq> 0) s"

definition param_ok :: "byte list \<Rightarrow> bool" where
  "param_ok s \<longleftrightarrow> length s + 1 < filename_max \<and> list_all (\<lambda>x. x \<noteq> 10 \<and> x \<noteq> 0) s"

definition cmd_ok :: "ui_cmd_t \<Rightarrow> bool" where
  "cmd_ok c \<longleftrightarrow> name_ok (cmd_command c) \<and> param_ok (cmd_param c)"

subsection \<open>Lines\<close>

lemma take_line_newline:
  "list_all (\<lambda>x. x \<noteq> 10) p \<Longrightarrow> length p < n \<Longrightarrow> take_line n (p @ 10 # rest) = (p @ [10], rest)"
proof (induction p arbitrary: n)
  case Nil
  then show ?case by (cases n) simp_all
next
  case (Cons x p)
  then show ?case by (cases n) simp_all
qed

lemma fgets_newline:
  assumes "list_all (\<lambda>x. x \<noteq> 10) p" "length p + 1 < n"
  shows "fgets n (p @ 10 # rest) = Some (p @ [10], rest)"
  using assms take_line_newline [of p "n - 1" rest] by (simp add: fgets_def)

lemma cstr_line: "list_all (\<lambda>x. x \<noteq> 0) p \<Longrightarrow> cstr (p @ [10]) = p @ [10]"
  by (simp add: cstr_def takeWhile_append list_all_iff takeWhile_eq_all_conv)

lemma strip_param_facts: "strip_param (p @ [10]) = p" "list_all (\<lambda>x. x \<noteq> 10) p \<Longrightarrow> strip_param p = p"
  by (auto simp: strip_param_def list_all_iff)

lemma strip_line: "strip_newline (p @ [10]) = Inr p"
  by (simp add: strip_newline_def strip_param_facts)

lemma strip_none: "p \<noteq> [] \<Longrightarrow> list_all (\<lambda>x. x \<noteq> 10) p \<Longrightarrow> strip_newline p = Inr p"
  by (simp add: strip_newline_def strip_param_facts)

lemma name_facts:
  assumes "name_ok c"
  shows "list_all (\<lambda>x. x \<noteq> 10) c" "list_all (\<lambda>x. x \<noteq> 0) c" "c \<noteq> []" "length c \<le> max_cmd_len" "cstr c = c"
  using assms by (auto simp: name_ok_def list_all_iff isspace_def cstr_def takeWhile_eq_all_conv)

lemma param_facts:
  assumes "param_ok p"
  shows "list_all (\<lambda>x. x \<noteq> 10) p" "list_all (\<lambda>x. x \<noteq> 0) p" "length p + 1 < filename_max"
  using assms by (auto simp: param_ok_def list_all_iff)

lemma scan_name:
  assumes "name_ok c" "s = [] \<or> isspace (hd s)"
  shows "scan_word max_cmd_len (c @ s) = c" "dropWhile isspace (c @ s) = c @ s"
proof -
  obtain x c' where c: "c = x # c'" "\<not> isspace x" using assms(1) by (cases c) (auto simp: name_ok_def)
  have all: "\<And>y. y \<in> set c \<Longrightarrow> \<not> isspace y" using assms(1) by (auto simp: name_ok_def list_all_iff)
  show skip: "dropWhile isspace (c @ s) = c @ s" using c by simp
  have "takeWhile (\<lambda>y. \<not> isspace y) (c @ s) = c" using all assms(2) by (cases s) (simp_all add: takeWhile_append takeWhile_eq_all_conv)
  then show "scan_word max_cmd_len (c @ s) = c" using name_facts(4) [OF assms(1)] by (simp add: scan_word_def skip)
qed

subsection \<open>Reading it back\<close>

lemma isspace_newline [simp]: "isspace 10" "isspace 32"
  by (simp_all add: isspace_def)

lemma get_command_text:
  assumes "cmd_ok c"
  shows "get_command (cmd_text c @ rest) = Inr (c, rest)"
proof -
  have c: "name_ok (cmd_command c)" and p: "param_ok (cmd_param c)" using assms by (simp_all add: cmd_ok_def)
  note C = name_facts [OF c] and P = param_facts [OF p]
  show ?thesis
  proof (cases "cmd_param c = []")
    case True
    then have t: "cmd_text c @ rest = cmd_command c @ 10 # rest" by (simp add: cmd_text_def)
    note S = scan_name [OF c, of "10 # rest"]
    have "get_command (cmd_text c @ rest) = Inr (\<lparr>cmd_command = cmd_command c, cmd_param = []\<rparr>, rest)"
      unfolding t get_command_def by (simp add: S C(5))
    then show ?thesis using True by (cases c) simp
  next
    case False
    define q where "q = cmd_param c @ 10 # rest"
    have t: "cmd_text c @ rest = cmd_command c @ 32 # q" using False by (simp add: cmd_text_def q_def)
    note S = scan_name [OF c, of "32 # q"]
    have q: "fgets filename_max q = Some (cmd_param c @ [10], rest)"
      unfolding q_def by (rule fgets_newline [OF P(1,3)])
    have "get_command (cmd_text c @ rest) = Inr (\<lparr>cmd_command = cmd_command c, cmd_param = cmd_param c\<rparr>, rest)"
      unfolding t get_command_def by (simp add: S C(5) q cstr_line [OF P(2)] strip_param_facts)
    then show ?thesis by (cases c) simp
  qed
qed

lemma batch_command_text:
  assumes "cmd_ok c"
  shows "batch_command (cmd_text c) = Inr c"
proof -
  have c: "name_ok (cmd_command c)" and p: "param_ok (cmd_param c)" using assms by (simp_all add: cmd_ok_def)
  note C = name_facts [OF c] and P = param_facts [OF p]
  show ?thesis
  proof (cases "cmd_param c = []")
    case True
    then have t: "cmd_text c = cmd_command c @ [10]" by (simp add: cmd_text_def)
    have "scan_word max_cmd_len (cmd_command c) = cmd_command c" using scan_name(1) [OF c, of "[]"] by simp
    then have "batch_command (cmd_text c) = Inr \<lparr>cmd_command = cmd_command c, cmd_param = []\<rparr>"
      by (simp add: batch_command_def t cstr_line [OF C(2)] strip_line strip_none [OF C(3,1)])
    then show ?thesis using True by (cases c) simp
  next
    case False
    have t: "cmd_text c = (cmd_command c @ 32 # cmd_param c) @ [10]" using False by (simp add: cmd_text_def)
    have z: "list_all (\<lambda>x. x \<noteq> 0) (cmd_command c @ 32 # cmd_param c)" using C(2) P(2) by simp
    have "scan_word max_cmd_len (cmd_command c @ 32 # cmd_param c) = cmd_command c" using scan_name(1) [OF c] by simp
    then have "batch_command (cmd_text c) = Inr \<lparr>cmd_command = cmd_command c, cmd_param = cmd_param c\<rparr>"
      using P(3) by (simp add: batch_command_def t cstr_line [OF z, simplified] strip_line [of "_ @ 32 # _", simplified]
          strip_none [OF C(3,1)] strip_param_facts(2) [OF P(1)])
    then show ?thesis by (cases c) simp
  qed
qed

lemma cmd_text_fgets:
  assumes "cmd_ok c"
  shows "fgets (max_cmd_len + 1 + filename_max) (cmd_text c @ rest) = Some (cmd_text c, rest)"
proof -
  have c: "name_ok (cmd_command c)" and p: "param_ok (cmd_param c)" using assms by (simp_all add: cmd_ok_def)
  define q where "q = cmd_command c @ (if cmd_param c = [] then [] else 32 # cmd_param c)"
  have q: "list_all (\<lambda>x. x \<noteq> 10) q" "length q + 1 < max_cmd_len + 1 + filename_max"
    using name_facts [OF c] param_facts [OF p] by (auto simp: q_def)
  show ?thesis using fgets_newline [OF q] by (simp add: cmd_text_def q_def)
qed

subsection \<open>One command after the other\<close>

primrec run_cmds :: "(ui_cmd_t \<Rightarrow> ui_t \<Rightarrow> (bool \<times> ui_t) res) \<Rightarrow> ui_cmd_t list \<Rightarrow> ui_t \<Rightarrow> (bool \<times> ui_t) res" where
  "run_cmds handler [] ui = Inr (True, ui)"
| "run_cmds handler (c # cs) ui =
     rbind (handler c ui) (\<lambda>(not_done, ui1). if not_done then run_cmds handler cs ui1 else Inr (False, ui1))"

lemma batch_loop_text:
  assumes "list_all cmd_ok cs" "length cs \<le> k"
  shows "batch_loop (Suc k) handler (concat (map cmd_text cs)) ui = run_cmds handler cs ui"
  using assms
proof (induction cs arbitrary: k ui)
  case Nil
  then show ?case by (simp add: fgets_def)
next
  case (Cons c cs)
  obtain k' where k: "k = Suc k'" using Cons.prems(2) by (cases k) auto
  note F = cmd_text_fgets [of c "concat (map cmd_text cs)"]
  have "batch_loop (Suc k') handler (concat (map cmd_text cs)) u = run_cmds handler cs u" for u
    by (rule Cons.IH) (use Cons.prems k in simp_all)
  then show ?case unfolding k batch_loop.simps(2) [of "Suc k'"] using Cons.prems(1) F batch_command_text [of c]
    by (cases "handler c ui") (auto simp del: batch_loop.simps)
qed

lemma cmd_text_not_Nil: "cmd_text c \<noteq> []"
  by (simp add: cmd_text_def)

lemma length_texts: "length cs \<le> length (concat (map cmd_text cs))"
proof (induction cs)
  case (Cons c cs)
  then show ?case using cmd_text_not_Nil [of c] by (cases "cmd_text c") simp_all
qed simp

lemma do_batch_file_text:
  assumes "app_initialized (ui_app ui)" "wo_file w (cmd_param cmd) = Some (concat (map cmd_text cs))" "list_all cmd_ok cs"
  shows "do_batch_file handler w cmd ui = run_cmds handler cs ui"
  using assms batch_loop_text [OF assms(3) length_texts] by (simp add: do_batch_file_def del: batch_loop.simps)

subsection \<open>Lines that are not commands\<close>

text \<open>A line of blanks in a batch file leaves the command empty.\<close>

lemma no_word: "list_all isspace l \<Longrightarrow> dropWhile isspace l = [] \<and> scan_word n l = []"
  by (simp add: scan_word_def list_all_iff flip: dropWhile_eq_Nil_conv)

lemma batch_blank_line:
  assumes "list_all isspace l" "list_all (\<lambda>x. x \<noteq> 0) l"
  shows "batch_command (l @ [10]) = Inl OutOfBounds"
proof -
  have "cstr (l @ [10]) = l @ [10]" by (rule cstr_line [OF assms(2)])
  then show ?thesis using no_word [OF assms(1)]
    by (auto simp: batch_command_def strip_line strip_newline_def [of "[]"])
qed

text \<open>The one blank after a command does no harm.\<close>

lemma batch_trailing_blank:
  assumes "name_ok c"
  shows "batch_command (c @ [32, 10]) = Inr \<lparr>cmd_command = c, cmd_param = []\<rparr>"
proof -
  note C = name_facts [OF assms]
  have "cstr ((c @ [32]) @ [10]) = (c @ [32]) @ [10]" by (rule cstr_line) (use C(2) in simp)
  moreover have "scan_word max_cmd_len (c @ [32]) = c" by (rule scan_name(1) [OF assms]) simp
  moreover have "strip_newline ((c @ [32]) @ [10]) = Inr (c @ [32])" by (rule strip_line)
  ultimately show ?thesis
    by (simp add: batch_command_def filename_max_def strip_none [OF C(3,1)] strip_param_def [of "[]"])
qed

text \<open>The end of the input: with nothing but blanks left the command is empty; the last command needs no newline.\<close>

lemma get_command_eof: "list_all isspace l \<Longrightarrow> get_command l = Inr (\<lparr>cmd_command = [], cmd_param = []\<rparr>, [])"
  by (simp add: get_command_def no_word fgets_def cstr_def)

lemma get_command_unended:
  assumes "name_ok c"
  shows "get_command c = Inr (\<lparr>cmd_command = c, cmd_param = []\<rparr>, [])"
  using scan_name [OF assms, of "[]"] name_facts(5) [OF assms] by (simp add: get_command_def fgets_def)

text \<open>An empty command is no command: it is answered, and the program goes on.\<close>

lemma empty_command:
  assumes "command_handler k w \<lparr>cmd_command = [], cmd_param = p\<rparr> ui = Inr (go, ui')"
  shows go
proof -
  obtain k' where k: "k = Suc k'" using assms by (cases k) auto
  have "run_command h w \<lparr>cmd_command = [], cmd_param = p\<rparr> u =
      Inr (True, True, False, ui_say (ascii ''Wrong input, please type again'' @ nl) u)" for h u
    by (simp add: run_command_def ascii_def)
  then show ?thesis using assms unfolding k by (auto simp: rbind_eq_Inr)
qed

lemma run_cmds_append:
  "run_cmds handler (cs @ ds) ui =
     rbind (run_cmds handler cs ui) (\<lambda>(go, ui1). if go then run_cmds handler ds ui1 else Inr (False, ui1))"
proof (induction cs arbitrary: ui)
  case (Cons c cs)
  show ?case
  proof (cases "handler c ui")
    case (Inr p)
    then obtain go u where "handler c ui = Inr (go, u)" by (cases p) simp
    then show ?thesis using Cons by simp
  qed simp
qed simp

text \<open>Typed or from a file, the commands are the same; typed ones have a prompt each.\<close>

definition prompted :: "(ui_cmd_t \<Rightarrow> ui_t \<Rightarrow> (bool \<times> ui_t) res) \<Rightarrow> ui_cmd_t \<Rightarrow> ui_t \<Rightarrow> (bool \<times> ui_t) res" where
  "prompted handler c ui = handler c (ui_say (ascii ''>'') ui)"

lemma main_loop_text:
  assumes "list_all cmd_ok cs" "length cs \<le> n"
  shows "main_loop n k w (concat (map cmd_text cs) @ rest) ui =
           rbind (run_cmds (prompted (command_handler k w)) cs ui)
             (\<lambda>(go, u). if go then main_loop (n - length cs) k w rest u else Inr u)"
  using assms
proof (induction cs arbitrary: n ui)
  case (Cons c cs)
  obtain m where n: "n = Suc m" "length cs \<le> m" using Cons.prems(2) by (cases n) auto
  have get: "get_command (concat (map cmd_text (c # cs)) @ rest) = Inr (c, concat (map cmd_text cs) @ rest)"
    using Cons.prems(1) get_command_text [of c] by simp
  have IH: "main_loop m k w (concat (map cmd_text cs) @ rest) u =
      rbind (run_cmds (prompted (command_handler k w)) cs u)
        (\<lambda>(go, u). if go then main_loop (m - length cs) k w rest u else Inr u)" for u
    by (rule Cons.IH) (use Cons.prems n in simp_all)
  have len: "n - length (c # cs) = m - length cs" using n by simp
  have P: "prompted (command_handler k w) c ui = command_handler k w c (ui_say (ascii ''>'') ui)" by (simp add: prompted_def)
  show ?case
  proof (cases "command_handler k w c (ui_say (ascii ''>'') ui)")
    case (Inl e)
    then show ?thesis by (simp add: n get P del: concat.simps list.map)
  next
    case (Inr p)
    then obtain go u where "command_handler k w c (ui_say (ascii ''>'') ui) = Inr (go, u)" by (cases p) simp
    then show ?thesis using IH unfolding len by (cases go) (simp_all add: n get P del: concat.simps list.map)
  qed
qed simp

end
