(* ===== verification/Shutdown.thy ===== *)
theory Shutdown
  imports Process_Delete
begin

text \<open>
  \<^verbatim>\<open>free_app_data\<close> of \<^verbatim>\<open>util/app_util.c\<close>: with idle processes only, every process is destroyed and
  everything is given back.
\<close>

lemma dead_slot_upd:
  assumes "i < length ps" "prc_junk p"
  shows "live_slot (ps[i := p]) j \<longleftrightarrow> j \<noteq> i \<and> live_slot ps j"
  using live_slot_upd [OF assms(1), of p j] assms(2) by auto

lemma destroy_all_ok:
  assumes "sys_inv sys" "n + p = length (pc_list (sys_cont sys))"
    and "\<And>j. live_slot (pc_list (sys_cont sys)) j \<Longrightarrow> p \<le> j \<and> idle_proc sys j"
  shows "\<exists>sys'. destroy_all n (word_of_int (int p)) off fo sys = Inr sys' \<and> sys_inv sys' \<and>
           (\<forall>j. \<not> live_slot (pc_list (sys_cont sys')) j) \<and> sys_out sys' = sys_out sys"
  using assms
proof (induction n arbitrary: p sys)
  case 0
  then have "\<not> live_slot (pc_list (sys_cont sys)) j" for j by (auto simp: live_slot_def dest!: 0(3))
  then show ?case using 0 by simp
next
  case (Suc n)
  let ?w = "word_of_int (int p) :: u32" let ?c = "sys_cont sys"
  have p: "p < length (pc_list ?c)" using Suc.prems(2) by simp
  have w: "unat ?w = p" by (rule pid_word [OF Suc.prems(1) p])
  have next_w: "?w + 1 = word_of_int (int (Suc p))" by (simp add: add.commute)
  show ?case
  proof (cases "live_slot (pc_list ?c) p")
    case True
    then have idle: "idle_proc sys p" using Suc.prems(3) by blast
    obtain m q where r: "process_destroy off fo sys ?w = Inr (ecSuccess,
          sys\<lparr>sys_vm := (sys_vm sys)\<lparr>vm_mmu := m\<rparr>, sys_cont := upd_slot p (\<lambda>p. gone (marked q p)) ?c\<rparr>)"
        "sys_inv (sys\<lparr>sys_vm := (sys_vm sys)\<lparr>vm_mmu := m\<rparr>, sys_cont := upd_slot p (\<lambda>p. gone (marked q p)) ?c\<rparr>)"
      using process_destroy_ok [OF Suc.prems(1) idle, of off fo] by blast
    let ?s = "sys\<lparr>sys_vm := (sys_vm sys)\<lparr>vm_mmu := m\<rparr>, sys_cont := upd_slot p (\<lambda>p. gone (marked q p)) ?c\<rparr>"
    have list: "pc_list (sys_cont ?s) = (pc_list ?c)[p := gone (marked q (pc_list ?c ! p))]" by simp
    have junk: "prc_junk (gone (marked q (pc_list ?c ! p)))" by (simp add: gone_def)
    have "Suc p \<le> j \<and> idle_proc ?s j" if "live_slot (pc_list (sys_cont ?s)) j" for j
    proof -
      have j: "j \<noteq> p" "live_slot (pc_list ?c) j" using that unfolding list dead_slot_upd [OF p junk] by blast+
      then have "p \<le> j" "idle_proc sys j" using Suc.prems(3) by blast+
      then show ?thesis using j that by (simp add: idle_proc_def mail_of_def)
    qed
    then obtain sys' where "destroy_all n (word_of_int (int (Suc p))) off fo ?s = Inr sys'" "sys_inv sys'"
        "\<forall>j. \<not> live_slot (pc_list (sys_cont sys')) j" "sys_out sys' = sys_out ?s"
      using Suc.IH [of ?s "Suc p"] r(2) Suc.prems(2) by auto
    then show ?thesis using r(1) unfolding destroy_all.simps next_w by (intro exI [of _ sys']) simp
  next
    case False
    have "unat ?w < length (pc_list ?c)" "\<not> live_slot (pc_list ?c) (unat ?w)" unfolding w by (rule p, rule False)
    then have "process_destroy off fo sys ?w = Inr (ecNotFound, sys)" by (rule process_destroy_none(2) [OF Suc.prems(1)])
    moreover have "Suc p \<le> j \<and> idle_proc sys j" if "live_slot (pc_list ?c) j" for j
      using Suc.prems(3) [OF that] that False by (cases "j = p") auto
    then obtain sys' where "destroy_all n (word_of_int (int (Suc p))) off fo sys = Inr sys'" "sys_inv sys'"
        "\<forall>j. \<not> live_slot (pc_list (sys_cont sys')) j" "sys_out sys' = sys_out sys"
      using Suc.IH [of sys "Suc p"] Suc.prems(1,2) by auto
    ultimately show ?thesis unfolding destroy_all.simps next_w by simp
  qed
qed

lemma all_junk_loop_dead:
  assumes "pc_inv m c" "\<forall>j. \<not> live_slot (pc_list c) j"
  shows "n + p = length (pc_list c) \<Longrightarrow> all_junk_loop n (word_of_int (int p)) c = Inr True"
proof (induction n arbitrary: p)
  case (Suc n)
  have p: "p < length (pc_list c)" using Suc.prems by simp
  then have w: "unat (word_of_int (int p) :: u32) = p" using slot_word(1) [of p] pc_invD(3) [OF assms(1)] by simp
  have "pc_proc c (word_of_int (int p)) = Inr (pc_list c ! p)"
    using pc_proc_inv [OF assms(1), of "word_of_int (int p)"] p unfolding w by simp
  moreover have "prc_junk (pc_list c ! p)" using assms(2) p by (auto simp: live_slot_def)
  moreover have next_w: "(word_of_int (int p) :: u32) + 1 = word_of_int (int (Suc p))" by (simp add: add.commute)
  moreover have "all_junk_loop n (word_of_int (int (Suc p))) c = Inr True" using Suc.IH [of "Suc p"] Suc.prems by simp
  ultimately show ?case unfolding all_junk_loop.simps next_w by simp
qed simp

lemma mmu_destroy_ok:
  assumes "mmu_inv m" "mmu_lock m = rw_free"
  shows "\<exists>m'. mmu_destroy m = Inr m' \<and> mmu_mem m' = mmu_mem m \<and> mmu_disk m' = mmu_disk m"
proof -
  obtain dm where "map_destroy (mmu_disk_map m) = Inr dm" using map_destroy_inv [OF mmu_invD(4) [OF assms(1)]] by blast
  then show ?thesis using ipt_destroy_ok [OF mmu_invD(3) [OF assms(1)]] mmu_invD(9) [OF assms(1)] assms(2)
    by (simp add: mmu_destroy_def)
qed

lemma free_app_data_rest:
  assumes s: "destroy_all (unat (pc_max_num_of_proc (sys_cont (app_sys app)))) 0 off fo (app_sys app) = Inr s" "sys_inv s"
      "\<forall>j. \<not> live_slot (pc_list (sys_cont s)) j"
  shows "free_app_data off fo app = Inr (None, sys_out s)"
proof -
  have I: "mmu_inv (vm_mmu (sys_vm s))" "mmu_lock (vm_mmu (sys_vm s)) = rw_free" "prm_idle (vm_prm (sys_vm s))"
      "pc_inv (vm_mmu (sys_vm s)) (sys_cont s)"
    using s(2) by (simp_all add: whole)
  obtain m where m: "mmu_destroy (vm_mmu (sys_vm s)) = Inr m" "mmu_mem m = mmu_mem (vm_mmu (sys_vm s))"
      "mmu_disk m = mmu_disk (vm_mmu (sys_vm s))"
    using mmu_destroy_ok [OF I(1,2)] by blast
  have "queue_size (prm_queue (vm_prm (sys_vm s))) = 0"
    using I(3) fq.count_ok [of "prm_queue (vm_prm (sys_vm s))"] by (simp add: prm_idle_def)
  then have prm: "\<exists>r. prm_destroy (vm_prm (sys_vm s)) = Inr r" by (simp add: prm_destroy_def queue_size_def)
  have mm: "\<exists>r. mm_destroy (mmu_mem m) = Inr r"
    using mmu_invD(1) [OF I(1)] unfolding m(2) by (simp add: mm_destroy_def mm_inv_def)
  have disk: "\<exists>r. disk_destroy (mmu_disk m) = Inr r"
    using mmu_invD(2) [OF I(1)] unfolding m(3) by (simp add: disk_destroy_def disk_inv_def)
  have cont: "proc_cont_destroy (Some (sys_cont s)) = Inr (ecSuccess, None)"
    using all_junk_loop_dead [OF I(4) s(3), of _ 0] pc_invD(2) [OF I(4)] by (simp add: proc_cont_destroy_def)
  show ?thesis using s(1) prm m(1) mm disk cont by (auto simp: free_app_data_def)
qed

lemma free_app_data_ok:
  assumes inv: "sys_inv (app_sys app)" and idle: "\<And>j. live_slot (pc_list (sys_cont (app_sys app))) j \<Longrightarrow> idle_proc (app_sys app) j"
  shows "free_app_data off fo app = Inr (None, sys_out (app_sys app))"
proof -
  have "pc_inv (vm_mmu (sys_vm (app_sys app))) (sys_cont (app_sys app))" using inv by (simp add: sys_inv_def)
  then obtain s where "destroy_all (unat (pc_max_num_of_proc (sys_cont (app_sys app)))) 0 off fo (app_sys app) = Inr s" "sys_inv s"
      "\<forall>j. \<not> live_slot (pc_list (sys_cont s)) j" "sys_out s = sys_out (app_sys app)"
    using destroy_all_ok [OF inv, of _ 0 off fo] idle pc_invD(2) by fastforce
  then show ?thesis using free_app_data_rest by metis
qed

text \<open>With one process, that still has a job to do.\<close>

lemma free_app_data_busy:
  assumes inv: "sys_inv (app_sys app)" and live: "live_slot (pc_list (sys_cont (app_sys app))) = (\<lambda>k. k = 0)"
    and p: "\<not> prc_del (pc_list (sys_cont (app_sys app)) ! 0)" "has_thread (pc_list (sys_cont (app_sys app)) ! 0)"
    and mail: "mail_of (sys_cont (app_sys app)) 0 = [job_post (vm_psize (sys_vm (app_sys app))) 0 j]"
    and job: "job_mutex (sys_job (app_sys app))"
      "job_ok (pc_blk (sys_cont (app_sys app)) * vm_psize (sys_vm (app_sys app))) j"
    and fo: "fo \<or> job_sink j = None \<or> job_sink j = Some None"
  shows "\<exists>bs. free_app_data off fo app = Inr (None, sys_out (app_sys app) @ job_out j bs) \<and>
           (job_sink j \<noteq> None \<longrightarrow> job_reads 0 j (cells (sys_vm (app_sys app))) bs)"
proof -
  let ?s = "app_sys app"
  have c: "pc_inv (vm_mmu (sys_vm ?s)) (sys_cont ?s)" using inv by (simp add: sys_inv_def)
  have l0: "live_slot (pc_list (sys_cont ?s)) 0" by (simp add: live)
  then obtain n where n: "length (pc_list (sys_cont ?s)) = Suc n" by (cases "pc_list (sys_cont ?s)") (auto simp: live_slot_def)
  have w0: "word_of_int (int 0) = (0 :: u32)" by simp
  obtain s1 bs where s1: "process_destroy off fo ?s 0 = Inr (ecSuccess, s1)" "sys_inv s1"
      "\<forall>k. live_slot (pc_list (sys_cont s1)) k \<longleftrightarrow> k \<noteq> 0 \<and> live_slot (pc_list (sys_cont ?s)) k"
      "length (pc_list (sys_cont s1)) = length (pc_list (sys_cont ?s))"
      "sys_out s1 = sys_out ?s @ job_out j bs" "job_sink j \<noteq> None \<longrightarrow> job_reads 0 j (cells (sys_vm ?s)) bs"
    using process_destroy_busy [OF inv l0 p _ job fo, unfolded w0, OF mail, of off] by blast
  have none: "\<not> live_slot (pc_list (sys_cont s1)) k" for k unfolding s1(3) [rule_format, of k] live by blast
  obtain s2 where s2: "destroy_all n (word_of_int (int 1)) off fo s1 = Inr s2" "sys_inv s2"
      "\<forall>k. \<not> live_slot (pc_list (sys_cont s2)) k" "sys_out s2 = sys_out s1"
    using destroy_all_ok [OF s1(2), of n 1 off fo] none s1(4) n by auto
  have "destroy_all (unat (pc_max_num_of_proc (sys_cont ?s))) 0 off fo ?s = Inr s2"
    using s1(1) s2(1) n pc_invD(2) [OF c] by simp
  from free_app_data_rest [OF this s2(2,3)] show ?thesis unfolding s2(4) s1(5) using s1(6) by blast
qed

end
