(* ===== verification/Session.thy ===== *)
theory Session
  imports Ui_Session Command_Text Shutdown
begin

text \<open>
  A whole session: the text of any number of requests, typed at the prompt, behaves like the plain
  jobs done one after the other on a plain array of bytes.
\<close>

subsection \<open>The process does what it was asked\<close>

definition sink_ok :: "bool \<Rightarrow> job \<Rightarrow> bool" where
  "sink_ok fo j \<longleftrightarrow> fo \<or> job_sink j = None \<or> job_sink j = Some None"

abbreviation ui_cells :: "ui_t \<Rightarrow> procid_t \<times> nat \<rightharpoonup> byte" where
  "ui_cells ui \<equiv> cells (sys_vm (ui_sys ui))"

abbreviation ui_psize :: "ui_t \<Rightarrow> nat" where
  "ui_psize ui \<equiv> vm_psize (sys_vm (ui_sys ui))"

text \<open>What serving job \<open>j\<close> of process \<open>i\<close> makes of a state; \<open>bs\<close> are the bytes read.\<close>

definition done_job :: "nat \<Rightarrow> job \<Rightarrow> byte list \<Rightarrow> ui_t \<Rightarrow> ui_t \<Rightarrow> bool" where
  "done_job i j bs ui ui' \<longleftrightarrow>
     sys_out (ui_sys ui') = sys_out (ui_sys ui) @ job_out j bs \<and>
     job_put (ui_psize ui) (num i) j (ui_cells ui) \<subseteq>\<^sub>m ui_cells ui' \<and>
     (job_sink j \<noteq> None \<longrightarrow> job_reads (num i) j (ui_cells ui) bs) \<and>
     ui_psize ui' = ui_psize ui \<and> mem_size ui' = mem_size ui \<and> ui_live ui' = ui_live ui"

lemma serve_first:
  assumes seat: "seated i ui" and mail: "mail_of (sys_cont (ui_sys ui)) i = job_post (ui_psize ui) (num i) j # rest"
    and mutex: "job_mutex (sys_job (ui_sys ui))" and j: "job_ok (mem_size ui) j" "sink_ok fo j"
  shows "\<exists>s bs. serve_asked off fo i (ui_sys ui) = Inr s \<and> seated i (put_sys s ui) \<and> mail_of (sys_cont s) i = rest \<and>
           sys_job s = job_is_done \<and> done_job i j bs ui (put_sys s ui)"
proof -
  let ?s = "ui_sys ui" let ?c = "sys_cont ?s"
  have B: "app_initialized (ui_app ui)" "sys_wf ?s" "live_slot (pc_list ?c) i" "\<not> prc_del (pc_list ?c ! i)"
      "has_thread (pc_list ?c ! i)"
    using seat by (simp_all add: seated_def ui_wf_def)
  note W = sys_wfD [OF B(2)]
  have ok: "job_ok (pc_blk ?c * vm_psize (sys_vm ?s)) j" using j(1) by (simp add: mem_size_def)
  obtain q bs vm where q: "process_func off fo (num i) ?s = Inr (False, job_result (mailed ?s i q) j bs vm)"
      "queue_inv q" "queue_list q = rest" "job_served ?s (num i) j bs vm"
    using serve_mail [OF W(1) B(3) mail _ mutex ok, of fo off] j(2) unfolding num_def sink_ok_def by blast
  let ?r = "job_result (mailed ?s i q) j bs vm"
  note M = mailed_facts [OF W(1) B(3) q(2)]
  have R: "sys_cont ?r = sys_cont (mailed ?s i q)" "sys_vm ?r = vm" "sys_job ?r = job_is_done"
      "sys_out ?r = sys_out ?s @ job_out j bs"
    using M(9) by (simp_all add: job_result_def)
  have serve: "serve_asked off fo i ?s = Inr ?r"
    using B(3,5) mail mutex q(1) by (simp add: serve_asked_def has_work_def num_def)
  have "unat (num i) = i" unfolding num_def using pid_word [OF W(1)] B(3) by (simp add: live_slot_def)
  then have "serve_step off fo ?s ?r" using serve_step.serve [OF _ q(1)] B(3) by simp
  then have wf: "sys_wf ?r" using serve_step_wf B(2) by blast
  have V: "vm_psize vm = vm_psize (sys_vm ?s)" using q(4) by (simp add: job_served_def vm_kept_def)
  have "seated i (put_sys ?r ui)"
    unfolding seated_def using B(1,3,4,5) wf M(2,3) M(6,10) [of i] R by simp
  moreover have "done_job i j bs ui (put_sys ?r ui)"
    using q(4) V M(2,4) R by (simp add: done_job_def job_served_def mem_size_def)
  moreover have "mail_of (sys_cont ?r) i = rest" using M(3) q(3) R(1) by simp
  ultimately show ?thesis using serve R(3) by blast
qed

lemma serve_round:
  assumes b: "busy i j ui" and j: "job_ok (mem_size ui) j" "sink_ok (wo_fopen w) j" and w: "patient w i"
  shows "run_others w ui = Inr ui \<or> (\<exists>ui' bs. run_others w ui = Inr ui' \<and> quiet i ui' \<and> done_job i j bs ui ui')"
proof -
  have B: "seated i ui" "mail_of (sys_cont (ui_sys ui)) i = [job_post (ui_psize ui) (num i) j]" "job_mutex (sys_job (ui_sys ui))"
    using b by (simp_all add: busy_def)
  obtain s bs where "serve_asked (wo_off w) (wo_fopen w) i (ui_sys ui) = Inr s" "seated i (put_sys s ui)" "mail_of (sys_cont s) i = []"
      "sys_job s = job_is_done" "done_job i j bs ui (put_sys s ui)"
    using serve_first [OF B j, of "wo_off w"] by blast
  moreover have "wo_others w (ui_sys ui) = serve_asked (wo_off w) (wo_fopen w) i (ui_sys ui) \<or> wo_others w (ui_sys ui) = Inr (ui_sys ui)"
    using w by (auto simp: patient_def)
  ultimately show ?thesis by (auto simp: run_others_def quiet_def)
qed

subsection \<open>Plain sessions\<close>

abbreviation prompt :: "byte list option \<times> byte list" where
  "prompt \<equiv> (None, ascii ''>'')"

text \<open>
  Jobs on a plain array of bytes, of which \<open>A\<close> is known before and \<open>B\<close> after. The output of a job
  follows the prompt for the next command.
\<close>

inductive plain :: "nat \<Rightarrow> procid_t \<Rightarrow> (procid_t \<times> nat \<rightharpoonup> byte) \<Rightarrow> job list \<Rightarrow> (byte list option \<times> byte list) list \<Rightarrow>
    (procid_t \<times> nat \<rightharpoonup> byte) \<Rightarrow> bool" for ps pid where
  none: "plain ps pid A [] [] A"
| job: "(job_sink j \<noteq> None \<longrightarrow> job_reads pid j A bs) \<Longrightarrow> plain ps pid (job_put ps pid j A) js out B \<Longrightarrow>
    plain ps pid A (j # js) (prompt # job_out j bs @ out) B"

inductive_cases plain_NilE: "plain ps pid A [] out B"
inductive_cases plain_ConsE: "plain ps pid A (j # js) out B"

lemma job_put_mono: "A \<subseteq>\<^sub>m A' \<Longrightarrow> job_put ps pid j A \<subseteq>\<^sub>m job_put ps pid j A'"
  by (cases j) (auto simp: map_le_def map_add_def dom_def split: option.splits)

lemma job_reads_mono: "A \<subseteq>\<^sub>m A' \<Longrightarrow> job_reads pid j A' bs \<Longrightarrow> job_reads pid j A bs"
  using map_le_Some by (fastforce simp: job_reads_def)

text \<open>Less may be known of the memory.\<close>

lemma plain_mono: "plain ps pid A' js out B' \<Longrightarrow> A \<subseteq>\<^sub>m A' \<Longrightarrow> \<exists>B. plain ps pid A js out B \<and> B \<subseteq>\<^sub>m B'"
proof (induction arbitrary: A rule: plain.induct)
  case (none A')
  then show ?case using plain.none by blast
next
  case (job j A' bs js out B')
  obtain B where "plain ps pid (job_put ps pid j A) js out B" "B \<subseteq>\<^sub>m B'"
    using job.IH job_put_mono [OF job.prems] by blast
  then show ?case using job.hyps(1) job_reads_mono [OF job.prems] by (meson plain.job)
qed

text \<open>A text that fits a page is read back.\<close>

lemma plain_write_read:
  assumes "plain ps pid A [JWrite a s, JRead a (length s)] out B" "length s \<le> ps"
  shows "out = [prompt, prompt, (None, print_bytes s)]"
proof -
  obtain bs where bs: "job_reads pid (JRead a (length s)) (A ++ text_at pid a s) bs"
      "out = [prompt, prompt, (None, print_bytes bs)]"
    using assms by (auto elim!: plain_ConsE plain_NilE simp: job_out_def)
  have "(A ++ text_at pid a s) (pid, a + i) = Some (s ! i)" if "i < length s" for i
    using that by (simp add: map_add_def text_at_def)
  then have "bs = s" using bs(1) by (intro nth_equalityI) (simp_all add: job_reads_def)
  then show ?thesis using bs(2) by simp
qed

subsection \<open>Typing the jobs\<close>

definition session_ok :: "bool \<Rightarrow> nat \<Rightarrow> nat \<Rightarrow> job \<Rightarrow> bool" where
  "session_ok fo N i j \<longleftrightarrow> typed_ok i j \<and> cmd_ok (typed i j) \<and> job_ok N j \<and> sink_ok fo j"

text \<open>The command of a job fits a line when its text does.\<close>

fun job_text :: "job \<Rightarrow> byte list" where
  "job_text (JReadFile a n f) = f"
| "job_text (JLoopReadFile a off n f) = f"
| "job_text (JWrite a s) = s"
| "job_text (JLoopWrite a x off n) = [x]"
| "job_text _ = []"

lemma fmt_nat_line: "list_all (\<lambda>x. x \<noteq> 10 \<and> x \<noteq> 0) (fmt_nat n)" "length (fmt_nat n) \<le> 10"
proof -
  show "length (fmt_nat n) \<le> 10" unfolding fmt_nat_def by (rule fmt_u_length)
  have "list_all isdigit (fmt_nat n)" unfolding fmt_nat_def fmt_u_def by (rule number_list(1))
  then show "list_all (\<lambda>x. x \<noteq> 10 \<and> x \<noteq> 0) (fmt_nat n)"
    using isdigit_facts by (auto simp: list_all_iff isdigit_def word_le_nat_alt)
qed

lemma line_cmd_ok:
  assumes "name_ok (ascii c)" "list_all (list_all (\<lambda>x. x \<noteq> 10 \<and> x \<noteq> 0)) args"
    and "sum_list (map (\<lambda>t. Suc (length t)) args) < 4095"
  shows "cmd_ok (line c args)"
  using assms spaced_all [of "\<lambda>x. x \<noteq> 10 \<and> x \<noteq> 0" args] spaced_length [of args]
  by (simp add: cmd_ok_def line_def param_ok_def filename_max_def)

lemma typed_cmd_ok:
  assumes "list_all (\<lambda>x. x \<noteq> 10 \<and> x \<noteq> 0) (job_text j)" "length (job_text j) \<le> 4000"
  shows "cmd_ok (typed i j)"
proof -
  have names: "name_ok (ascii c)" if "c \<in> {''read'', ''loopRead'', ''readToFile'', ''loopReadToFile'', ''write'', ''loopWrite''}" for c
    using that by (auto simp: name_ok_def ascii_def isspace_def max_cmd_len_def of_char_def)
  note L = fmt_nat_line(2)
  show ?thesis
  proof (cases j)
    case (JRead a n)
    show ?thesis unfolding JRead typed.simps
      by (rule line_cmd_ok) (use assms names L [of a] L [of n] L [of i] JRead in \<open>simp_all add: fmt_nat_line(1)\<close>)
  next
    case (JLoopRead a off n)
    show ?thesis unfolding JLoopRead typed.simps
      by (rule line_cmd_ok) (use assms names L [of a] L [of off] L [of n] L [of i] JLoopRead in \<open>simp_all add: fmt_nat_line(1)\<close>)
  next
    case (JReadFile a n f)
    show ?thesis unfolding JReadFile typed.simps
      by (rule line_cmd_ok) (use assms names L [of a] L [of n] L [of i] JReadFile in \<open>simp_all add: fmt_nat_line(1)\<close>)
  next
    case (JLoopReadFile a off n f)
    show ?thesis unfolding JLoopReadFile typed.simps
      by (rule line_cmd_ok) (use assms names L [of a] L [of off] L [of n] L [of i] JLoopReadFile in \<open>simp_all add: fmt_nat_line(1)\<close>)
  next
    case (JWrite a s)
    show ?thesis unfolding JWrite typed.simps
      by (rule line_cmd_ok) (use assms names L [of a] L [of i] JWrite in \<open>simp_all add: fmt_nat_line(1)\<close>)
  next
    case (JLoopWrite a x off n)
    show ?thesis unfolding JLoopWrite typed.simps
      by (rule line_cmd_ok) (use assms names L [of a] L [of off] L [of n] L [of i] JLoopWrite in \<open>simp_all add: fmt_nat_line(1)\<close>)
  qed
qed

lemma say_quiet [simp]: "quiet i (ui_say t ui) = quiet i ui" "busy i j (ui_say t ui) = busy i j ui"
    "seated i (ui_say t ui) = seated i ui" "mem_size (ui_say t ui) = mem_size ui" "ui_live (ui_say t ui) = ui_live ui" "same_memory (ui_say t ui) ui' = same_memory ui ui'"
    "sys_out (ui_sys (ui_say t ui)) = sys_out (ui_sys ui) @ [(None, t)]"
    "sys_vm (ui_sys (ui_say t ui)) = sys_vm (ui_sys ui)" "sys_cont (ui_sys (ui_say t ui)) = sys_cont (ui_sys ui)"
  by (simp_all add: ui_say_def quiet_def busy_def seated_def mem_size_def same_memory_def ui_wf_def)

abbreviation exit_cmd :: ui_cmd_t where
  "exit_cmd \<equiv> line ''exit'' []"

definition job_texts :: "nat \<Rightarrow> job list \<Rightarrow> byte list" where
  "job_texts i js = concat (map (\<lambda>j. cmd_text (typed i j)) js) @ cmd_text exit_cmd"

lemma exit_text: "get_command (cmd_text exit_cmd @ rest) = Inr (exit_cmd, rest)"
proof (rule get_command_text)
  show "cmd_ok exit_cmd"
    by (simp add: cmd_ok_def name_ok_def param_ok_def line_def ascii_def isspace_def max_cmd_len_def filename_max_def of_char_def)
qed

lemma quiet_others: "quiet i u \<Longrightarrow> patient w i \<Longrightarrow> run_others w u = Inr u"
  using patient_idle [of w i "ui_sys u"] by (simp add: quiet_def run_others_def has_work_def)

text \<open>
  A request waits while the next command is read. It is served before that one starts, or when the interface waits for
  the next job, or, after the last command, when the process is deleted.
\<close>

lemma issue_round_busy:
  assumes b: "busy i j ui" and j: "job_ok (mem_size ui) j" "sink_ok (wo_fopen w) j" and j': "typed_ok i j'"
    and w: "patient w i" and others: "run_others w ui = Inr ui"
  shows "\<exists>ui' bs. command_handler (Suc k) w (typed i j') ui = Inr (True, ui') \<and> busy i j' ui' \<and> done_job i j bs ui ui'"
proof -
  let ?s = "ui_sys ui" let ?c = "sys_cont ?s"
  have seat: "seated i ui" and B: "app_initialized (ui_app ui)" "sys_wf ?s" "live_slot (pc_list ?c) i"
      "mail_of ?c i = [job_post (ui_psize ui) (num i) j]" "sys_job ?s = job_awaited" "has_thread (pc_list ?c ! i)"
      "\<not> prc_del (pc_list ?c ! i)"
    using b by (simp_all add: busy_def seated_def ui_wf_def)
  obtain q where q: "issue ?s (int i) j' = Inr (ecSuccess, mailed ?s i q)" "queue_inv q"
      "queue_list q = mail_of ?c i @ [job_post (ui_psize ui) (num i) j']" "sys_wf (mailed ?s i q)"
    by (rule issue_mails [OF seat j'])
  let ?m = "mailed ?s i q" let ?u = "put_sys ?m ui"
  note M = mailed_facts [OF sys_wfD(1) [OF B(2)] B(3) q(2)]
  have U: "seated i ?u" "mail_of (sys_cont (ui_sys ?u)) i = job_post (ui_psize ?u) (num i) j # [job_post (ui_psize ui) (num i) j']"
      "job_mutex (sys_job (ui_sys ?u))" "job_ok (mem_size ?u) j"
    using B q(3,4) j(1) M(2,3,4,7,8) M(6,10) [of i] by (simp_all add: seated_def mem_size_def)
  obtain s bs where s: "serve_asked (wo_off w) (wo_fopen w) i ?m = Inr s" "seated i (put_sys s ui)"
      "mail_of (sys_cont s) i = [job_post (ui_psize ui) (num i) j']" "sys_job s = job_is_done"
      "done_job i j bs ?u (put_sys s ui)"
    using serve_first [OF U j(2), of "wo_off w"] by auto
  have "has_work i ?m" "1 < length (mail_of (sys_cont ?m) i)"
    using U(1-3) by (simp_all add: has_work_def seated_def)
  then have "wo_others w ?m = Inr s" using patient_pressed [OF w] s(1) by simp
  then have run: "command_handler (Suc k) w (typed i j') ui = Inr (True, put_sys (s\<lparr>sys_job := job_awaited\<rparr>) ui)"
    by (rule handler_typed [OF B(1) j' others q(1) _ s(4)])
  have "mem_size ?u = mem_size ui" "mem_size (put_sys (s\<lparr>sys_job := job_awaited\<rparr>) ui) = mem_size (put_sys s ui)"
    by (simp_all add: mem_size_def M(4,7))
  then have "done_job i j bs ui (put_sys (s\<lparr>sys_job := job_awaited\<rparr>) ui)"
    using s(5) M(2,7,9) by (simp add: done_job_def)
  moreover from this have "ui_psize (put_sys s ui) = ui_psize ui" by (simp add: done_job_def)
  then have "busy i j' (put_sys (s\<lparr>sys_job := job_awaited\<rparr>) ui)"
    using s(2,3) by (simp add: busy_def seated_def ui_wf_def job_only_wf)
  ultimately show ?thesis using run by blast
qed

lemma next_round:
  assumes b: "busy i j ui" and j: "job_ok (mem_size ui) j" "sink_ok (wo_fopen w) j" and j': "typed_ok i j'" and w: "patient w i"
  shows "\<exists>ui' bs. command_handler (Suc k) w (typed i j') ui = Inr (True, ui') \<and> busy i j' ui' \<and> done_job i j bs ui ui'"
  using serve_round [OF b j w]
proof
  assume "run_others w ui = Inr ui"
  then show ?thesis by (rule issue_round_busy [OF b j j' w])
next
  assume "\<exists>ui' bs. run_others w ui = Inr ui' \<and> quiet i ui' \<and> done_job i j bs ui ui'"
  then obtain u0 bs where u0: "run_others w ui = Inr u0" "quiet i u0" "done_job i j bs ui u0" by blast
  obtain u1 where u1: "command_handler (Suc k) w (typed i j') u0 = Inr (True, u1)" "busy i j' u1" "same_memory u0 u1"
      "sys_out (ui_sys u1) = sys_out (ui_sys u0)"
    using issue_round [OF u0(2) j' w] by blast
  have "command_handler (Suc k) w (typed i j') ui = Inr (True, u1)"
    using u1(1) u0(1) quiet_others [OF u0(2) w] by (simp del: typed.simps)
  moreover have "done_job i j bs ui u1" using u0(3) u1(3,4) by (simp add: done_job_def same_memory_def)
  ultimately show ?thesis using u1(2) by blast
qed

text \<open>How a session of the first process ends: nothing is left, and all jobs have been done.\<close>

definition ends_with :: "world_t \<Rightarrow> ui_t res \<Rightarrow> (byte list option \<times> byte list) list \<Rightarrow> bool" where
  "ends_with w r out \<longleftrightarrow> (\<exists>ui. r = Inr ui \<and> app_initialized (ui_app ui) \<and>
     free_app_data (wo_off w) (wo_fopen w) (ui_app ui) = Inr (None, out))"

lemma quiet_idle: "quiet i ui \<Longrightarrow> idle_proc (ui_sys ui) i"
  by (simp add: quiet_def seated_def idle_proc_def)

lemma quiet_ends:
  assumes "quiet 0 ui" "ui_live ui = (\<lambda>k. k = 0)"
  shows "ends_with w (Inr ui) (sys_out (ui_sys ui))"
proof -
  have "sys_inv (ui_sys ui)" using assms(1) by (simp add: quiet_def seated_def whole)
  moreover have "idle_proc (ui_sys ui) j" if "ui_live ui j" for j using that quiet_idle [OF assms(1)] assms(2) by simp
  ultimately have "free_app_data (wo_off w) (wo_fopen w) (ui_app ui) = Inr (None, sys_out (ui_sys ui))"
    by (rule free_app_data_ok)
  then show ?thesis using assms(1) by (simp add: ends_with_def quiet_def seated_def)
qed

lemma last_round:
  assumes b: "busy 0 j ui" and j: "job_ok (mem_size ui) j" "sink_ok (wo_fopen w) j" and w: "patient w 0"
    and live: "ui_live ui = (\<lambda>k. k = 0)"
  shows "\<exists>bs. ends_with w (run_others w ui) (sys_out (ui_sys ui) @ job_out j bs) \<and>
           (job_sink j \<noteq> None \<longrightarrow> job_reads 0 j (ui_cells ui) bs)"
  using serve_round [OF b j w]
proof
  assume "run_others w ui = Inr ui"
  moreover have "sys_inv (ui_sys ui)" "app_initialized (ui_app ui)" using b by (simp_all add: busy_def seated_def whole)
  ultimately show ?thesis
    using free_app_data_busy [of "ui_app ui" j "wo_fopen w" "wo_off w"] b j live
    by (auto simp: busy_def seated_def num_def mem_size_def sink_ok_def ends_with_def)
next
  assume "\<exists>ui' bs. run_others w ui = Inr ui' \<and> quiet 0 ui' \<and> done_job 0 j bs ui ui'"
  then obtain u0 bs where u0: "run_others w ui = Inr u0" "quiet 0 u0" "done_job 0 j bs ui u0" by blast
  have "ui_live u0 = (\<lambda>k. k = 0)" using u0(3) live by (simp add: done_job_def)
  then show ?thesis using quiet_ends [OF u0(2), of w] u0(1,3) by (auto simp: done_job_def num_def)
qed

lemma session_busy:
  assumes w: "patient w 0"
  shows "busy 0 j ui \<Longrightarrow> list_all (session_ok (wo_fopen w) (mem_size ui) 0) (j # js) \<Longrightarrow> length js < n \<Longrightarrow>
    ui_live ui = (\<lambda>k. k = 0) \<Longrightarrow>
    \<exists>out B. ends_with w (main_loop n (Suc k) w (job_texts 0 js) ui) (sys_out (ui_sys ui) @ out) \<and>
      plain (ui_psize ui) 0 (ui_cells ui) (j # js) out B"
proof (induction js arbitrary: j ui n)
  case Nil
  let ?u = "ui_say (ascii ''>'') ui"
  obtain m where n: "n = Suc m" using Nil.prems(3) by (cases n) auto
  have b: "busy 0 j ?u" "job_ok (mem_size ?u) j" "sink_ok (wo_fopen w) j"
    using Nil.prems(1,2) by (simp_all add: session_ok_def)
  obtain bs where bs: "ends_with w (run_others w ?u) (sys_out (ui_sys ?u) @ job_out j bs)"
      "job_sink j \<noteq> None \<longrightarrow> job_reads 0 j (ui_cells ui) bs"
    using last_round [OF b w] Nil.prems(4) by auto
  obtain u0 where u0: "run_others w ?u = Inr u0" using bs(1) by (auto simp: ends_with_def)
  have "get_command (job_texts 0 []) = Inr (exit_cmd, [])" using exit_text [of "[]"] by (simp add: job_texts_def)
  then have run: "main_loop n (Suc k) w (job_texts 0 []) ui = run_others w ?u"
    using u0 by (simp add: n dispatch(7))
  have "plain (ui_psize ui) 0 (ui_cells ui) [j] (prompt # job_out j bs @ []) (job_put (ui_psize ui) 0 j (ui_cells ui))"
    using bs(2) by (intro plain.job plain.none)
  then show ?case using bs(1) unfolding run by fastforce
next
  case (Cons j' js)
  let ?u = "ui_say (ascii ''>'') ui"
  obtain m where n: "n = Suc m" "length js < m" using Cons.prems(3) by (cases n) auto
  have b: "busy 0 j ?u" "job_ok (mem_size ?u) j" "sink_ok (wo_fopen w) j"
    using Cons.prems(1,2) by (simp_all add: session_ok_def)
  have j': "typed_ok 0 j'" "cmd_ok (typed 0 j')" using Cons.prems(2) by (simp_all add: session_ok_def)
  obtain u1 bs where u1: "command_handler (Suc k) w (typed 0 j') ?u = Inr (True, u1)" "busy 0 j' u1" "done_job 0 j bs ?u u1"
    using next_round [OF b j'(1) w] by blast
  have D: "sys_out (ui_sys u1) = sys_out (ui_sys ui) @ prompt # job_out j bs" "mem_size u1 = mem_size ui"
      "ui_psize u1 = ui_psize ui" "ui_live u1 = (\<lambda>k. k = 0)"
      "job_put (ui_psize ui) 0 j (ui_cells ui) \<subseteq>\<^sub>m ui_cells u1" "job_sink j \<noteq> None \<longrightarrow> job_reads 0 j (ui_cells ui) bs"
    using u1(3) Cons.prems(4) by (simp_all add: done_job_def num_def)
  have "list_all (session_ok (wo_fopen w) (mem_size u1) 0) (j' # js)" using Cons.prems(2) D(2) by simp
  then obtain out B where r: "ends_with w (main_loop m (Suc k) w (job_texts 0 js) u1) (sys_out (ui_sys u1) @ out)"
      "plain (ui_psize u1) 0 (ui_cells u1) (j' # js) out B"
    using Cons.IH [OF u1(2) _ n(2) D(4)] by blast
  have "get_command (job_texts 0 (j' # js)) = Inr (typed 0 j', job_texts 0 js)"
    using get_command_text [OF j'(2)] by (simp add: job_texts_def)
  then have run: "main_loop n (Suc k) w (job_texts 0 (j' # js)) ui = main_loop m (Suc k) w (job_texts 0 js) u1"
    using u1(1) by (simp add: n del: command_handler.simps)
  obtain B' where B': "plain (ui_psize ui) 0 (job_put (ui_psize ui) 0 j (ui_cells ui)) (j' # js) out B'"
    using plain_mono [OF r(2) D(5)] unfolding D(3) by blast
  have "plain (ui_psize ui) 0 (ui_cells ui) (j # j' # js) (prompt # job_out j bs @ out) B'"
    using D(6) B' by (intro plain.job) simp_all
  then show ?case using r(1) unfolding run D(1) by fastforce
qed

lemma session_quiet:
  assumes w: "patient w 0" and q: "quiet 0 ui" and live: "ui_live ui = (\<lambda>k. k = 0)"
    and js: "list_all (session_ok (wo_fopen w) (mem_size ui) 0) js" and n: "length js < n"
  shows "\<exists>out B. ends_with w (main_loop n (Suc k) w (job_texts 0 js) ui) (sys_out (ui_sys ui) @ prompt # out) \<and>
      plain (ui_psize ui) 0 (ui_cells ui) js out B"
proof (cases js)
  case Nil
  let ?u = "ui_say (ascii ''>'') ui"
  obtain m where m: "n = Suc m" using n by (cases n) auto
  have "get_command (job_texts 0 []) = Inr (exit_cmd, [])" using exit_text [of "[]"] by (simp add: job_texts_def)
  then have "main_loop n (Suc k) w (job_texts 0 js) ui = Inr ?u"
    using quiet_others [of 0 ?u, OF _ w] q by (simp add: Nil m dispatch(7))
  moreover have "ends_with w (Inr ?u) (sys_out (ui_sys ui) @ [prompt])" using quiet_ends [of ?u w] q live by simp
  ultimately show ?thesis using plain.none Nil by fastforce
next
  case (Cons j js')
  let ?u = "ui_say (ascii ''>'') ui"
  obtain m where m: "n = Suc m" "length js' < m" using n Cons by (cases n) auto
  have j: "typed_ok 0 j" "cmd_ok (typed 0 j)" using js Cons by (simp_all add: session_ok_def)
  have q': "quiet 0 ?u" using q by simp
  obtain u1 where u1: "command_handler (Suc k) w (typed 0 j) ?u = Inr (True, u1)" "busy 0 j u1" "same_memory ?u u1"
      "sys_out (ui_sys u1) = sys_out (ui_sys ?u)"
    using issue_round [OF q' j(1) w] by blast
  have same: "mem_size u1 = mem_size ui" "ui_psize u1 = ui_psize ui" "ui_cells u1 = ui_cells ui" "ui_live u1 = (\<lambda>k. k = 0)"
    using u1(3) live by (simp_all add: same_memory_def)
  have "list_all (session_ok (wo_fopen w) (mem_size u1) 0) (j # js')" using js same(1) Cons by simp
  from session_busy [OF w u1(2) this m(2) same(4), of k] obtain out B where
    r: "ends_with w (main_loop m (Suc k) w (job_texts 0 js') u1) (sys_out (ui_sys u1) @ out)"
      "plain (ui_psize ui) 0 (ui_cells ui) (j # js') out B"
    unfolding same by blast
  have "get_command (job_texts 0 js) = Inr (typed 0 j, job_texts 0 js')"
    using get_command_text [OF j(2)] by (simp add: job_texts_def Cons)
  then have run: "main_loop n (Suc k) w (job_texts 0 js) ui = main_loop m (Suc k) w (job_texts 0 js') u1"
    using u1(1) by (simp add: m del: command_handler.simps)
  have "sys_out (ui_sys u1) @ out = sys_out (ui_sys ui) @ prompt # out" using u1(4) by simp
  then show ?thesis using r Cons unfolding run by auto
qed

end
