(* ===== verification/Program.thy ===== *)
theory Program
  imports Session Shutdown
begin

text \<open>
  The whole program, \<^verbatim>\<open>main\<close> of \<^verbatim>\<open>vmsim/ui_app.c\<close>: from the bytes of the configuration file and of
  the standard input to the bytes of the output.
\<close>

definition create_cmd :: ui_cmd_t where
  "create_cmd = line ''createProcess'' []"

lemma create_cmd_ok: "cmd_ok create_cmd"
  by (simp add: create_cmd_def cmd_ok_def name_ok_def param_ok_def line_def ascii_def isspace_def max_cmd_len_def
      filename_max_def of_char_def)

lemma dispatch_create:
  "run_command h w create_cmd ui = rbind (do_create_process w create_cmd ui) (\<lambda>(r, ui1). Inr (True, False, r, ui1))"
  by (simp add: run_command_def create_cmd_def)

text \<open>The first process gets slot 0.\<close>

lemma first_process:
  assumes ui: "app_initialized (ui_app ui)" "ui_wf ui" "sys_job (ui_sys ui) = job_is_done" "\<And>j. \<not> ui_live ui j"
      "0 < length (pc_list (sys_cont (ui_sys ui)))"
    and w: "patient w 0" "\<And>n. \<not> wo_oom w n" "wo_start w = 0"
  shows "\<exists>u. command_handler (Suc k) w create_cmd ui = Inr (True, u) \<and> quiet 0 u \<and>
           sys_out (ui_sys u) = sys_out (ui_sys ui) @ [created 0] \<and> mem_size u = mem_size ui \<and>
           ui_psize u = ui_psize ui \<and> ui_live u = (\<lambda>j. j = 0)"
proof -
  have wf: "sys_wf (ui_sys ui)" using ui(2) by (simp add: ui_wf_def)
  have others: "run_others w ui = Inr ui"
    using patient_idle [OF w(1), of "ui_sys ui"] ui(4) by (simp add: run_others_def has_work_def)
  obtain pid s where s: "create_process (wo_off w) (wo_oom w) (ui_sys ui) = Inr (pid, s)" "sys_wf s"
      "if pid < 0 then sys_vm s = sys_vm (ui_sys ui) \<and> sys_cont s = sys_cont (ui_sys ui) \<and>
           (\<forall>i < length (pc_list (sys_cont (ui_sys ui))). ui_live ui i)
       else \<exists>i. pid = int i \<and> i < length (pc_list (sys_cont (ui_sys ui))) \<and> \<not> ui_live ui i \<and>
           live_slot (pc_list (sys_cont s)) = (\<lambda>j. j = i \<or> ui_live ui j) \<and> mail_of (sys_cont s) i = [] \<and>
           (\<forall>j < i. ui_live ui j) \<and> \<not> prc_del (pc_list (sys_cont s) ! i) \<and>
           pc_blk (sys_cont s) = pc_blk (sys_cont (ui_sys ui)) \<and> sys_job s = sys_job (ui_sys ui) \<and>
           vm_psize (sys_vm s) = ui_psize ui \<and> sys_out s = sys_out (ui_sys ui) @ [created i]"
    using create_process_wf [OF wf, of "wo_oom w" "wo_off w"] w(2) by blast
  have "\<not> pid < 0" using s(3) ui(4) ui(5) by (metis (full_types))
  then obtain i where i: "pid = int i" "\<forall>j < i. ui_live ui j" "live_slot (pc_list (sys_cont s)) = (\<lambda>j. j = i \<or> ui_live ui j)"
      "mail_of (sys_cont s) i = []" "\<not> prc_del (pc_list (sys_cont s) ! i)" "pc_blk (sys_cont s) = pc_blk (sys_cont (ui_sys ui))"
      "sys_job s = sys_job (ui_sys ui)" "vm_psize (sys_vm s) = ui_psize ui" "sys_out s = sys_out (ui_sys ui) @ [created i]"
    using s(3) by auto
  have zero: "i = 0" using i(2) ui(4) by blast
  have live: "live_slot (pc_list (sys_cont s)) = (\<lambda>j. j = 0)" using i(3) ui(4) zero by simp
  have "live_slot (pc_list (sys_cont s)) (unat (0 :: u32))" by (simp add: live)
  then obtain ec t where t: "process_start (wo_start w) (sys_cont s) 0 = Inr (ec, start_slot 0 t (sys_cont s))" "wt_lock t = rw_free" "wt_running t"
    using process_start_slot [OF sys_wfD(5) [OF s(2)]] w(3) by blast
  note F = start_slot_facts [OF s(2) \<open>live_slot (pc_list (sys_cont s)) (unat 0)\<close> t(2)]
  let ?s = "s\<lparr>sys_cont := start_slot 0 t (sys_cont s)\<rparr>"
  have "do_create_process w create_cmd ui = Inr (True, put_sys ?s ui)"
    using ui(1) s(1) t(1) i(1) zero by (simp add: do_create_process_def)
  then have "command_handler (Suc k) w create_cmd ui = Inr (True, put_sys ?s ui)"
    using others by (simp add: dispatch_create)
  moreover have "quiet 0 (put_sys ?s ui)"
    unfolding quiet_def seated_def using ui(1,3) F(1,2,3,4) F(6) t(3) i(4,5,7) live zero by (simp add: F(3,4))
  moreover have "sys_out ?s = sys_out (ui_sys ui) @ [created 0]" using i(9) zero by simp
  moreover have "mem_size (put_sys ?s ui) = mem_size ui" using F(5) i(6,8) by (simp add: mem_size_def)
  moreover have "ui_live (put_sys ?s ui) = (\<lambda>j. j = 0)" using F(2) live by simp
  ultimately show ?thesis using i(8) by (intro exI [of _ "put_sys ?s ui"]) simp
qed

text \<open>What a process finds before anything is written is not said.\<close>

lemma plain_unknown: "plain ps pid A js out B \<Longrightarrow> \<exists>B'. plain ps pid Map.empty js out B' \<and> B' \<subseteq>\<^sub>m B"
  by (rule plain_mono) simp_all

definition goodbye :: "byte list option \<times> byte list" where
  "goodbye = (None, ascii ''VMSim has finished. Have a nice day! =)'' @ nl)"

lemma program_ok:
  assumes cf: "config_fits cf" "0 < unat (cf_nproc cf)" and env: "env_ok env" and app: "\<not> app_initialized app"
    and w: "patient w 0" "\<And>n. \<not> wo_oom w n" "wo_start w = 0"
    and js: "list_all (session_ok (wo_fopen w) (unat (cf_n_proc_pages cf) * unat (cf_page_size cf)) 0) js"
  shows "\<exists>out B. app_main 2 file_name env (Some (config_text cf)) junk (Suc k) w (cmd_text create_cmd @ job_texts 0 js) app =
           Inr (0, sys_out (app_sys app) @ [prompt, created 0, prompt] @ out @ [goodbye], None) \<and>
         plain (unat (cf_page_size cf)) 0 Map.empty js out B"
proof -
  obtain app' where L: "load_config env cf app = Inr (True, app')" "app_initialized app'" "ui_wf (started app')"
      "sys_out (app_sys app') = sys_out (app_sys app)"
      "length (pc_list (sys_cont (app_sys app'))) = unat (cf_nproc cf)" "vm_psize (sys_vm (app_sys app')) = unat (cf_page_size cf)"
      "pc_blk (sys_cont (app_sys app')) = unat (cf_n_proc_pages cf)" "\<forall>i. \<not> live_slot (pc_list (sys_cont (app_sys app'))) i"
    using started_wf [OF cf(1) env] by blast
  let ?input = "cmd_text create_cmd @ job_texts 0 js" and ?ui = "started app'" and ?ui1 = "ui_say (ascii ''>'') (started app')"
  have sys: "ui_sys ?ui = (app_sys app')\<lparr>sys_job := init_job_done\<rparr>" by (simp add: started_def)
  have U: "app_initialized (ui_app ?ui1)" "ui_wf ?ui1" "sys_job (ui_sys ?ui1) = job_is_done" "\<And>j. \<not> ui_live ?ui1 j"
      "0 < length (pc_list (sys_cont (ui_sys ?ui1)))"
  proof -
    show "ui_wf ?ui1" using L(3) by simp
    show "app_initialized (ui_app ?ui1)" using L(2) by (simp add: ui_say_def started_def)
  qed (use L(5,8) cf(2) in \<open>simp_all add: ui_say_def sys init_job_done_def\<close>)
  obtain u where u: "command_handler (Suc k) w create_cmd ?ui1 = Inr (True, u)" "quiet 0 u"
      "sys_out (ui_sys u) = sys_out (ui_sys ?ui1) @ [created 0]" "mem_size u = mem_size ?ui1" "ui_psize u = ui_psize ?ui1"
      "ui_live u = (\<lambda>j. j = 0)"
    using first_process [OF U w] by blast
  have size: "mem_size u = unat (cf_n_proc_pages cf) * unat (cf_page_size cf)" "ui_psize u = unat (cf_page_size cf)"
    unfolding u(4,5) using L(6,7) by (simp_all add: mem_size_def sys)
  have "length js < length ?input"
  proof -
    have "length js \<le> length (concat (map (\<lambda>j. cmd_text (typed 0 j)) js))"
      using length_texts [of "map (typed 0) js"] by (simp add: comp_def)
    then show ?thesis using cmd_text_not_Nil [of create_cmd] by (cases "cmd_text create_cmd") (simp_all add: job_texts_def)
  qed
  from session_quiet [OF w(1) u(2,6) js [folded size(1)] this, of k] obtain out B where
    r: "ends_with w (main_loop (length ?input) (Suc k) w (job_texts 0 js) u) (sys_out (ui_sys u) @ prompt # out)"
      "plain (unat (cf_page_size cf)) 0 (ui_cells u) js out B"
    unfolding size(2) by blast
  obtain ui' where ui': "main_loop (length ?input) (Suc k) w (job_texts 0 js) u = Inr ui'" "app_initialized (ui_app ui')"
      "free_app_data (wo_off w) (wo_fopen w) (ui_app ui') = Inr (None, sys_out (ui_sys u) @ prompt # out)"
    using r(1) by (auto simp: ends_with_def)
  have run: "main_loop (Suc (length ?input)) (Suc k) w ?input ?ui = Inr ui'"
    using ui'(1) u(1) get_command_text [OF create_cmd_ok, of "job_texts 0 js"] by (simp del: command_handler.simps)
  have out: "sys_out (ui_sys u) @ prompt # out = sys_out (app_sys app) @ [prompt, created 0, prompt] @ out"
    using u(3) L(4) by (simp add: sys)
  have "load_app_data env file_name (Some (config_text cf)) junk app = Inr (True, app')"
    using app L(1) by (simp add: load_app_data_def scan_config_text)
  then have "app_main 2 file_name env (Some (config_text cf)) junk (Suc k) w ?input app =
      Inr (0, sys_out (app_sys app) @ [prompt, created 0, prompt] @ out @ [goodbye], None)"
    using run ui'(2,3) out by (simp add: app_main_def started_def goodbye_def del: main_loop.simps)
  then show ?thesis using plain_unknown [OF r(2)] by auto
qed

lemma sim_main_ok:
  assumes "config_fits cf" "0 < unat (cf_nproc cf)" "env_ok env" "\<not> app_initialized app"
    and "patient w 0" "\<And>n. \<not> wo_oom w n" "wo_start w = 0"
    and "list_all (session_ok (wo_fopen w) (unat (cf_n_proc_pages cf) * unat (cf_page_size cf)) 0) js"
  shows "\<exists>out B. sim_main [program, file_name] env (Some (config_text cf)) junk (Suc k) w
             (cmd_text create_cmd @ job_texts 0 js) app =
           Inr (0, sys_out (app_sys app) @ [(None, greeting program file_name), prompt, created 0, prompt] @ out @ [goodbye], None) \<and>
         plain (unat (cf_page_size cf)) 0 Map.empty js out B"
  using program_ok [OF assms(1-3) _ assms(5-8), of "app\<lparr>app_sys := say (greeting program file_name) (app_sys app)\<rparr>" file_name junk k]
    assms(4) by (fastforce simp: sim_main_def)

end
