(* ===== verification/Ui_Fuel.thy ===== *)
theory Ui_Fuel
  imports Command_Text
begin

text \<open>
  The loops of the user interface and their fuel: as long as there is input, every command that is read takes bytes of
  it, so whatever the loop returns, it returns with a fuel above the length of the input; at the end of the input it never
  returns. A batch file ends, and a deeper nesting of batch files does not change a result. A batch file that runs itself
  never ends.
\<close>

subsection \<open>A command takes bytes\<close>

lemma take_line_shrinks: "length (snd (take_line n s)) \<le> length s"
proof (induction n arbitrary: s)
  case (Suc n)
  show ?case
  proof (cases s)
    case (Cons c t)
    then show ?thesis using Suc [of t] by (auto simp: Let_def split: prod.splits)
  qed simp
qed simp

lemma take_line_strict: "s \<noteq> [] \<Longrightarrow> 0 < n \<Longrightarrow> length (snd (take_line n s)) < length s"
proof (cases n; cases s)
  fix m c t assume "n = Suc m" "s = c # t"
  then show ?thesis using take_line_shrinks [of m t] by (auto simp: Let_def less_Suc_eq_le split: prod.splits)
qed simp_all

lemma fgets_shrinks: "fgets n s = Some (l, r) \<Longrightarrow> 1 < n \<Longrightarrow> length r < length s"
  using take_line_strict [of s "n - 1"] by (auto simp: fgets_def split: if_splits)

lemma get_command_shrinks:
  assumes "get_command input = Inr (cmd, rest)" "input \<noteq> []"
  shows "length rest < length input"
proof -
  define s where "s = dropWhile isspace input"
  define r where "r = drop (length (scan_word max_cmd_len s)) s"
  have len: "length r \<le> length input"
    using length_dropWhile_le [of isspace input] by (simp add: r_def s_def)
  show ?thesis
  proof (cases "r \<noteq> [] \<and> hd r = 10")
    case True
    then have "rest = tl r" using assms unfolding get_command_def Let_def s_def [symmetric] r_def [symmetric] by simp
    with True len show ?thesis by (cases r) simp_all
  next
    case False
    note C = assms(1) [unfolded get_command_def Let_def, folded s_def, folded r_def, unfolded if_not_P [OF False]]
    show ?thesis
    proof (cases "fgets filename_max (tl r)")
      case None
      then show ?thesis using C assms(2) by simp
    next
      case (Some p)
      then have "fgets filename_max (tl r) = Some (fst p, rest)" using C by (cases p) simp
      then have "length rest < length (tl r)" by (rule fgets_shrinks) (simp add: filename_max_def)
      with len show ?thesis by simp
    qed
  qed
qed

subsection \<open>Enough fuel\<close>

text \<open>With nothing left to read the loop of \<^verbatim>\<open>app_main\<close> goes on with empty commands, for ever.\<close>

lemma main_loop_eof: "list_all isspace input \<Longrightarrow> main_loop n k w input ui \<noteq> Inr ui'"
proof (induction n arbitrary: input ui)
  case (Suc n)
  have "main_loop n k w [] u \<noteq> Inr ui'" for u by (rule Suc.IH) simp
  then show ?case
    by (auto simp: get_command_eof [OF Suc.prems] rbind_eq_Inr dest: empty_command split: if_splits)
qed simp

text \<open>Until then every round takes a byte at least: what the loop returns, it returns within as many rounds.\<close>

lemma main_loop_fuel:
  "main_loop n k w input ui = Inr ui' \<Longrightarrow> length input < m \<Longrightarrow> main_loop m k w input ui = Inr ui'"
proof (induction n arbitrary: m input ui)
  case (Suc n)
  obtain m' where m: "m = Suc m'" using Suc.prems(2) by (cases m) auto
  have ne: "input \<noteq> []" using Suc.prems(1) main_loop_eof [of "[]" "Suc n"] by auto
  obtain cmd rest go u where u: "get_command input = Inr (cmd, rest)"
      "command_handler k w cmd (ui_say (ascii ''>'') ui) = Inr (go, u)"
      "if go then main_loop n k w rest u = Inr ui' else u = ui'"
    using Suc.prems(1) by (auto simp: rbind_eq_Inr split: if_splits)
  have "length rest < m'" using get_command_shrinks [OF u(1) ne] Suc.prems(2) m by simp
  then have "go \<Longrightarrow> main_loop m' k w rest u = Inr ui'" using Suc.IH u(3) by simp
  then show ?case using u m by (cases go) simp_all
qed simp

text \<open>More rounds change nothing once a result or a fault is there.\<close>

lemma main_loop_rounds:
  "main_loop n k w input ui \<noteq> Inl Diverges \<Longrightarrow> main_loop (n + j) k w input ui = main_loop n k w input ui"
proof (induction n arbitrary: input ui)
  case (Suc n)
  show ?case
  proof (cases "get_command input")
    case (Inr p)
    obtain cmd rest where p: "p = (cmd, rest)" by (cases p)
    show ?thesis
    proof (cases "command_handler k w cmd (ui_say (ascii ''>'') ui)")
      case (Inr q)
      then show ?thesis using Suc \<open>get_command input = Inr p\<close> p by (cases q) (auto split: if_splits)
    qed (use \<open>get_command input = Inr p\<close> p in simp)
  qed simp
qed simp

lemma batch_loop_fuel:
  "length f < n \<Longrightarrow> length f < m \<Longrightarrow> batch_loop n handler f ui = batch_loop m handler f ui"
proof (induction n arbitrary: m f ui)
  case (Suc n)
  then obtain m' where m: "m = Suc m'" by (cases m) auto
  have "batch_loop n handler f' u = batch_loop m' handler f' u"
    if "fgets (max_cmd_len + 1 + filename_max) f = Some (line, f')" for line f' u
    using Suc.IH [of f' m' u] fgets_shrinks [OF that] Suc.prems m by (simp add: filename_max_def)
  then show ?case unfolding m batch_loop.simps
    by (auto intro!: rbind_cong split: option.splits)
qed simp

subsection \<open>The nesting of batch files\<close>

type_synonym handler_t = "ui_cmd_t \<Rightarrow> ui_t \<Rightarrow> (bool \<times> ui_t) res"

definition settled :: "handler_t \<Rightarrow> handler_t \<Rightarrow> bool" where
  "settled h h' \<longleftrightarrow> (\<forall>c u. h c u \<noteq> Inl Diverges \<longrightarrow> h' c u = h c u)"

lemma settled_rbind:
  "rbind m f \<noteq> Inl Diverges \<Longrightarrow> (\<And>x. m = Inr x \<Longrightarrow> f x \<noteq> Inl Diverges \<Longrightarrow> f' x = f x) \<Longrightarrow> rbind m f' = rbind m f"
  by (cases m) auto

lemma settled_rbind_left:
  "rbind m f \<noteq> Inl Diverges \<Longrightarrow> (m \<noteq> Inl Diverges \<Longrightarrow> m' = m) \<Longrightarrow>
   (\<And>x. m = Inr x \<Longrightarrow> f x \<noteq> Inl Diverges \<Longrightarrow> f' x = f x) \<Longrightarrow> rbind m' f' = rbind m f"
  by (cases m) auto

lemma batch_loop_settled:
  assumes "settled h h'"
  shows "batch_loop n h f ui \<noteq> Inl Diverges \<Longrightarrow> batch_loop n h' f ui = batch_loop n h f ui"
proof (induction n arbitrary: f ui)
  case (Suc n)
  show ?case
  proof (cases "fgets (max_cmd_len + 1 + filename_max) f")
    case (Some p)
    obtain line f' where p: "p = (line, f')" by (cases p)
    show ?thesis
      using Suc.prems assms Suc.IH unfolding batch_loop.simps Some p option.case prod.case
      by (intro settled_rbind settled_rbind_left) (auto simp: settled_def split: prod.splits if_splits)
  qed simp
qed simp

lemma do_batch_file_settled:
  "settled h h' \<Longrightarrow> do_batch_file h w cmd ui \<noteq> Inl Diverges \<Longrightarrow> do_batch_file h' w cmd ui = do_batch_file h w cmd ui"
  by (auto simp: do_batch_file_def batch_loop_settled simp del: batch_loop.simps split: option.splits)

lemma dispatch_batch:
  "run_command h w cmd ui = (if cmd_command cmd = ascii ''batchFile''
     then rbind (do_batch_file h w cmd ui) (\<lambda>(r, ui1). Inr (r, True, False, ui1))
     else run_command (\<lambda>_ _. Inl Diverges) w cmd ui)"
proof (cases "cmd_command cmd = ascii ''batchFile''")
  case True
  then show ?thesis by (simp add: run_command_def)
next
  case False
  show ?thesis unfolding run_command_def Let_def if_not_P [OF False] by (rule refl)
qed

lemma run_command_settled:
  assumes "settled h h'" "run_command h w cmd ui \<noteq> Inl Diverges"
  shows "run_command h' w cmd ui = run_command h w cmd ui"
proof (cases "cmd_command cmd = ascii ''batchFile''")
  case True
  have "do_batch_file h w cmd ui \<noteq> Inl Diverges" using assms(2) True by (auto simp: dispatch_batch [of h])
  then show ?thesis using do_batch_file_settled [OF assms(1)] True
    by (simp add: dispatch_batch [of h] dispatch_batch [of h'])
next
  case False
  then show ?thesis by (simp add: dispatch_batch [of h] dispatch_batch [of h'])
qed

lemma command_handler_settled: "settled (command_handler k w) (command_handler (Suc k) w)"
proof (induction k)
  case (Suc k)
  show ?case unfolding settled_def
  proof (intro allI impI)
    fix c u assume r: "command_handler (Suc k) w c u \<noteq> Inl Diverges"
    have "run_command (\<lambda>c u. command_handler (Suc k) w c u) w c ui0 = run_command (\<lambda>c u. command_handler k w c u) w c ui0"
      if "run_command (\<lambda>c u. command_handler k w c u) w c ui0 \<noteq> Inl Diverges" for ui0
      using run_command_settled [OF Suc] that by simp
    then show "command_handler (Suc (Suc k)) w c u = command_handler (Suc k) w c u"
      using r unfolding command_handler.simps(2) [of "Suc k"] command_handler.simps(2) [of k]
      by (intro settled_rbind) (auto intro!: settled_rbind_left simp del: command_handler.simps)
  qed
qed (simp add: settled_def)

lemma settled_trans: "settled a b \<Longrightarrow> settled b c \<Longrightarrow> settled a c"
  by (auto simp: settled_def)

lemma command_handler_nesting: "settled (command_handler k w) (command_handler (k + j) w)"
proof (induction j)
  case (Suc j)
  then show ?case using settled_trans [OF Suc command_handler_settled [of "k + j"]] by (simp del: command_handler.simps)
qed (simp add: settled_def)

lemma main_loop_nesting:
  "main_loop n k w input ui \<noteq> Inl Diverges \<Longrightarrow> main_loop n (k + j) w input ui = main_loop n k w input ui"
proof (induction n arbitrary: input ui)
  case (Suc n)
  have h: "settled (command_handler k w) (command_handler (k + j) w)" by (rule command_handler_nesting)
  show ?case
    using Suc.prems h Suc.IH unfolding main_loop.simps
    by (intro settled_rbind) (auto intro!: settled_rbind_left simp: settled_def split: prod.splits if_splits)
qed simp

lemma sim_main_nesting:
  assumes "sim_main argv env file junk k w input app \<noteq> Inl Diverges"
  shows "sim_main argv env file junk (k + j) w input app = sim_main argv env file junk k w input app"
proof -
  have "app_main argc name env file junk (k + j) w input a = app_main argc name env file junk k w input a"
    if "app_main argc name env file junk k w input a \<noteq> Inl Diverges" for argc name a
    using that unfolding app_main_def
    by (auto intro!: settled_rbind settled_rbind_left main_loop_nesting simp: Let_def
        simp del: main_loop.simps split: prod.splits if_splits)
  then show ?thesis using assms unfolding sim_main_def
    by (auto intro!: settled_rbind_left split: list.splits)
qed

subsection \<open>A batch file that runs itself\<close>

lemma batch_file_diverges:
  assumes "cmd_ok cmd" "cmd_command cmd = ascii ''batchFile''" "wo_file w (cmd_param cmd) = Some (cmd_text cmd @ rest)"
    and "wo_others w (ui_sys ui) = Inr (ui_sys ui)" "app_initialized (ui_app ui)"
  shows "command_handler k w cmd ui = Inl Diverges"
proof (induction k)
  case (Suc k)
  have s: "run_others w ui = Inr ui" using assms(4) by (simp add: run_others_def put_sys_def)
  have "batch_loop (Suc n) (command_handler k w) (cmd_text cmd @ rest) ui = Inl Diverges" for n
    using batch_command_text [OF assms(1)] cmd_text_fgets [OF assms(1), of rest] Suc by simp
  then have "do_batch_file (command_handler k w) w cmd ui = Inl Diverges"
    using assms(3,5) by (simp add: do_batch_file_def del: batch_loop.simps)
  then have "run_command (\<lambda>c u. command_handler k w c u) w cmd ui = Inl Diverges"
    using assms(2) by (simp add: dispatch_batch)
  then show ?case using s by simp
qed simp

end
