(* ===== verification/Demo_Ui.thy ===== *)
theory Demo_Ui
  imports Demo Program Ui_Fuel
begin

text \<open>
  The demo of \<open>Demo\<close> behind its user interface: the state after the start, and after the command
  that creates process 0, whose thread serves what it is asked. Every file holds that command.
\<close>

definition demo_app :: app_data_t where
  "demo_app = state_of (load_config demo_env demo_config blank_app) blank_app"

definition demo_world :: world_t where
  "demo_world = \<lparr>wo_file = (\<lambda>_. Some (cmd_text create_cmd)), wo_fopen = True, wo_off = 0, wo_oom = (\<lambda>_. False), wo_start = 0, wo_tid = 1,
     wo_ratio = (\<lambda>_ _. []), wo_others = serve_asked 0 True 0\<rparr>"

definition demo_run :: ui_t where
  "demo_run = state_of (command_handler 1 demo_world create_cmd (started demo_app)) (started demo_app)"

lemma demo_config_fits: "config_fits demo_config"
  using demo_config_ok by (auto simp: config_fits_def demo_config_def intro!: exI [of _ 2])

lemma demo_app_facts:
  "load_config demo_env demo_config blank_app = Inr (True, demo_app)" "app_initialized demo_app" "ui_wf (started demo_app)"
  "length (pc_list (sys_cont (app_sys demo_app))) = 2" "vm_psize (sys_vm (app_sys demo_app)) = 4"
  "pc_blk (sys_cont (app_sys demo_app)) = 3" "\<not> live_slot (pc_list (sys_cont (app_sys demo_app))) i"
proof -
  obtain app where L: "load_config demo_env demo_config blank_app = Inr (True, app)" "app_initialized app" "ui_wf (started app)"
      "length (pc_list (sys_cont (app_sys app))) = 2" "vm_psize (sys_vm (app_sys app)) = 4"
      "pc_blk (sys_cont (app_sys app)) = 3" "\<forall>i. \<not> live_slot (pc_list (sys_cont (app_sys app))) i"
    using started_wf [OF demo_config_fits demo_env_ok, of blank_app] by (auto simp: demo_config_def)
  moreover have "demo_app = app" using L(1) by (simp add: demo_app_def)
  ultimately show "load_config demo_env demo_config blank_app = Inr (True, demo_app)" "app_initialized demo_app"
    "ui_wf (started demo_app)" "length (pc_list (sys_cont (app_sys demo_app))) = 2" "vm_psize (sys_vm (app_sys demo_app)) = 4"
    "pc_blk (sys_cont (app_sys demo_app)) = 3" "\<not> live_slot (pc_list (sys_cont (app_sys demo_app))) i" by simp_all
qed

lemma demo_world_facts [simp]:
  "patient demo_world 0" "\<not> wo_oom demo_world n" "wo_start demo_world = 0" "wo_fopen demo_world"
  by (simp_all add: demo_world_def patient_def)

lemma demo_run_facts:
  "command_handler 1 demo_world create_cmd (started demo_app) = Inr (True, demo_run)" "quiet 0 demo_run"
  "ui_psize demo_run = 4" "mem_size demo_run = 12" "ui_live demo_run = (\<lambda>j. j = 0)"
proof -
  have U: "app_initialized (ui_app (started demo_app))" "sys_job (ui_sys (started demo_app)) = job_is_done"
      "\<And>j. \<not> ui_live (started demo_app) j" "0 < length (pc_list (sys_cont (ui_sys (started demo_app))))"
    using demo_app_facts(2,4,7) by (simp_all add: started_def init_job_done_def)
  obtain u where u: "command_handler (Suc 0) demo_world create_cmd (started demo_app) = Inr (True, u)" "quiet 0 u"
      "mem_size u = mem_size (started demo_app)" "ui_psize u = ui_psize (started demo_app)" "ui_live u = (\<lambda>j. j = 0)"
    using first_process [OF U(1) demo_app_facts(3) U(2-4), of demo_world 0] by auto
  have "demo_run = u" using u(1) by (simp add: demo_run_def del: command_handler.simps)
  then show "command_handler 1 demo_world create_cmd (started demo_app) = Inr (True, demo_run)" "quiet 0 demo_run"
    "ui_psize demo_run = 4" "mem_size demo_run = 12" "ui_live demo_run = (\<lambda>j. j = 0)"
    using u demo_app_facts(5,6) by (simp_all add: mem_size_def started_def del: command_handler.simps)
qed

lemma demo_run_sys:
  "sys_wf (ui_sys demo_run)" "sys_inv (ui_sys demo_run)" "live_slot (pc_list (sys_cont (ui_sys demo_run))) 0"
  "pc_blk (sys_cont (ui_sys demo_run)) = 3"
proof -
  show wf: "sys_wf (ui_sys demo_run)" using demo_run_facts(2) by (simp add: quiet_def seated_def ui_wf_def)
  then show "sys_inv (ui_sys demo_run)" by (rule sys_wfD(1))
  show "live_slot (pc_list (sys_cont (ui_sys demo_run))) 0" using demo_run_facts(5) by simp
  show "pc_blk (sys_cont (ui_sys demo_run)) = 3" using demo_run_facts(3,4) by (simp add: mem_size_def)
qed

text \<open>The other threads of the demo only serve mail.\<close>

lemma serve_asked_steps:
  assumes "i < 2 ^ 31" "serve_asked off fo i s = Inr s'"
  shows "(serve_step off fo)\<^sup>*\<^sup>* s s'"
proof (cases "has_work i s")
  case True
  then obtain stop where r: "process_func off fo (word_of_int (int i)) s = Inr (stop, s')"
    using assms(2) by (auto simp: serve_asked_def rbind_eq_Inr)
  have "live_slot (pc_list (sys_cont s)) (unat (word_of_int (int i) :: u32))" unfolding slot_word(1) [OF assms(1)] using True by (simp add: has_work_def)
  then show ?thesis using serve_step.serve r by blast
next
  case False
  have "s' = s" using assms(2) unfolding serve_asked_def if_not_P [OF False] by simp
  then show ?thesis by simp
qed

lemma demo_world_ok: "world_ok demo_world"
  using serve_asked_steps [of 0 0 True] by (auto simp: world_ok_def demo_world_def)

text \<open>A world in which every file runs the file \<^verbatim>\<open>b\<close>.\<close>

definition self_cmd :: ui_cmd_t where
  "self_cmd = line ''batchFile'' [ascii ''b'']"

definition self_world :: world_t where
  "self_world = demo_world\<lparr>wo_file := (\<lambda>_. Some (cmd_text self_cmd))\<rparr>"

lemma self_cmd_facts: "cmd_ok self_cmd" "cmd_command self_cmd = ascii ''batchFile''"
  "wo_file self_world (cmd_param self_cmd) = Some (cmd_text self_cmd @ [])"
  by (simp_all add: self_cmd_def self_world_def cmd_ok_def name_ok_def param_ok_def line_def ascii_def isspace_def
      max_cmd_len_def filename_max_def of_char_def)

lemma self_world_idle: "wo_others self_world (ui_sys (started demo_app)) = Inr (ui_sys (started demo_app))"
  using demo_app_facts(7) by (simp add: self_world_def demo_world_def serve_asked_def has_work_def started_def)

end
