(* ===== verification/Defects.thy ===== *)
theory Defects
  imports Demo_Ui
begin

text \<open>
  What the model shows of the code that its authors did not mean: the dumps, the handshake with a
  thread that was asked for nothing, the parsing of a batch file, the arguments of the program, a page in
  a used frame, a process without a thread, and comments that say something else.
\<close>

subsection \<open>The dumps\<close>

text \<open>An entry that holds a page is shown as free.\<close>

lemma valid_entry_shown_free: "pd_valid (ie_page_data e) \<Longrightarrow> print_ipt_entry e = ascii ''(free)'' @ nl"
  by (simp add: print_ipt_entry_def Let_def)

lemma text_loop_cong:
  "(\<And>j. j < n \<Longrightarrow> f (i + int j) = g (i + int j)) \<Longrightarrow> text_loop n i f = text_loop n i g"
proof (induction n arbitrary: i)
  case (Suc n)
  have "f i = g i" using Suc.prems [of 0] by simp
  moreover have "text_loop n (i + 1) f = text_loop n (i + 1) g"
    by (rule Suc.IH) (use Suc.prems [of "Suc _"] in \<open>simp add: add.assoc\<close>)
  ultimately show ?case by simp
qed simp

text \<open>The dump of the memory shows as many bytes as there are pages; what comes after them does not matter.\<close>

lemma print_MM_first_bytes:
  assumes "length bs = length (mm_bytes mm)" "take (nat (mm_npages mm)) bs = take (nat (mm_npages mm)) (mm_bytes mm)"
  shows "print_MM (mm\<lparr>mm_bytes := bs\<rparr>) = print_MM mm"
proof -
  have "arr_get bs (int j) = arr_get (mm_bytes mm) (int j)" if "j < nat (mm_npages mm)" for j
  proof -
    have "bs ! j = mm_bytes mm ! j" using nth_take [OF that, of bs] nth_take [OF that, of "mm_bytes mm"] assms(2) by simp
    then show ?thesis using assms(1) by (simp add: arr_get_def)
  qed
  then show ?thesis unfolding print_MM_def
    by (auto intro!: rbind_cong text_loop_cong simp del: text_loop.simps)
qed

text \<open>Asking for the hit rate before anything was read or written.\<close>

lemma hit_rate_before_access:
  assumes "mmu_inv mmu" "st_nrefs (mmu_stats mmu) = 0"
  shows "print_hit_rate fmt mmu = Inl AssertFailed"
  using assms mmu_invD(9) [OF assms(1)] by (simp add: print_hit_rate_def mmu_get_stats_def)

subsection \<open>The handshake\<close>

text \<open>A command that nobody has to wait for signals a job that was never begun.\<close>

lemma signal_without_job:
  assumes "wo_others w (ui_sys ui) = Inr (ui_sys ui)" "sys_job (ui_sys ui) = init_job_done"
  shows "command_handler (Suc k) w (line ''monitor'' []) ui = Inl BadUnlock"
proof -
  have "run_others w ui = Inr ui" using assms(1) by (simp add: run_others_def put_sys_def)
  moreover obtain u where u: "do_monitor w ui = (True, u)" "sys_job (ui_sys u) = init_job_done"
    using assms(2) by (simp add: do_monitor_def monitor_on_def Let_def ui_say_def put_sys_def)
  moreover have "ui_signal u = Inl BadUnlock"
    using u(2) by (simp add: ui_signal_def signal_job_done_def init_job_done_def mutex_run)
  ultimately show ?thesis by (simp add: run_command_def signalled_def)
qed

text \<open>So the first thing the user types may be the last.\<close>

lemma monitor_after_start: "command_handler 1 self_world (line ''monitor'' []) (started demo_app) = Inl BadUnlock"
  using signal_without_job [of self_world "started demo_app" 0] self_world_idle by (simp add: started_def)

subsection \<open>Batch files\<close>

text \<open>Parameters that do not fit into \<^verbatim>\<open>param\<close>, on a line that fits into \<^verbatim>\<open>raw_cmd\<close>.\<close>

lemma batch_long_parameter:
  assumes "name_ok c" "list_all (\<lambda>x. x \<noteq> 10 \<and> x \<noteq> 0) p" "filename_max \<le> length p"
  shows "batch_command (c @ 32 # p @ [10]) = Inl OutOfBounds"
proof -
  have z: "list_all (\<lambda>x. x \<noteq> 0) (c @ 32 # p)" using name_facts [OF assms(1)] assms(2) by (auto simp: list_all_iff)
  have "scan_word max_cmd_len (c @ 32 # p) = c" by (rule scan_name(1) [OF assms(1)]) (simp add: isspace_def)
  then show ?thesis using assms(3)
    by (simp add: batch_command_def cstr_line [OF z, simplified] strip_line [of "_ @ 32 # _", simplified])
qed

text \<open>Two blanks in front of a command shift its parameters.\<close>

lemma batch_leading_blanks:
  "batch_command (ascii ''  read 0 0 1'' @ [10]) = Inr \<lparr>cmd_command = ascii ''read'', cmd_param = ascii ''d 0 0 1''\<rparr>"
  by (simp add: batch_command_def ascii_def of_char_def cstr_def strip_newline_def strip_param_def scan_word_def isspace_def max_cmd_len_def
      filename_max_def)

subsection \<open>The arguments of the program\<close>

text \<open>Without an argument \<^verbatim>\<open>main\<close> prints through a null pointer; \<^verbatim>\<open>app_main\<close> has a message for that case.\<close>

lemma main_without_argument:
  "sim_main [program] env file junk k w input app = Inl NullDeref"
  "\<exists>t. app_main 1 name env file junk k w input app = Inr (- 1, sys_out (app_sys app) @ [(None, t)], None)"
  by (simp_all add: sim_main_def app_main_def)

subsection \<open>A page in a frame that was used before\<close>

text \<open>
  A new page gets a frame as it is: it reads as what the frame held before, bytes of a deleted process for instance.
  The page counts as clean, so when it is evicted, the bytes are gone and it reads as its page of the disk.
\<close>

lemma recycled_frame:
  assumes "mmu_inv m" "mmu_lock m = rw_free" "m_bk m (vkey a) = None" "m_spare m = f # F"
    and "0 \<le> p" "disk_live (mmu_disk m) (nat p)" "p \<notin> ran (m_bk m)"
  shows "\<exists>m1 m2. mmu_alloc_page m a p = Inr (ecSuccess, m1) \<and> page_of m1 (vkey a) = Some (mm_page (mmu_mem m) f) \<and>
           prm_swap_out m1 a = Inr m2 \<and> page_of m2 (vkey a) = Some (disk_page (mmu_disk m) (nat p))"
proof -
  obtain m1 where m1: "mmu_alloc_page m a p = Inr (ecSuccess, m1)" "mmu_inv m1" "m_bk m1 = (m_bk m)(vkey a \<mapsto> p)"
      "m_abs m1 = (m_abs m)(vkey a \<mapsto> f)" "mmu_mem m1 = mmu_mem m" "mmu_disk m1 = mmu_disk m" "\<not> pd_dirty (m_pd m1 f)"
    using mmu_alloc_page_ok [OF assms(1-3,5-7)] assms(4) by auto
  then have f: "m_abs m1 (vkey a) = Some f" by simp
  obtain m2 where "prm_swap_out m1 a = Inr m2" "page_of m2 = (page_of m1)(vkey a \<mapsto> written_back m1 (vkey a) f)"
    using prm_swap_out_ok [OF m1(2) f] by blast
  moreover have "page_of m1 (vkey a) = Some (mm_page (mmu_mem m) f)" using m1(3-5) by (simp add: page_of_def)
  moreover have "written_back m1 (vkey a) f = disk_page (mmu_disk m) (nat p)" using m1(3,6,7) by (simp add: written_back_def)
  ultimately show ?thesis using m1(1) by auto
qed

subsection \<open>A process without a thread\<close>

text \<open>\<^verbatim>\<open>do_create_process\<close> does not look at what \<^verbatim>\<open>process_start\<close> returns.\<close>

lemma create_ignores_start:
  assumes "app_initialized (ui_app ui)" "create_process (wo_off w) (wo_oom w) (ui_sys ui) = Inr (pid, sys)" "0 \<le> pid"
    and "process_start (wo_start w) (sys_cont sys) (word_of_int pid) = Inr (err, cont)"
  shows "do_create_process w cmd ui = Inr (True, put_sys (sys\<lparr>sys_cont := cont\<rparr>) ui)"
  using assms by (simp add: do_create_process_def)

lemma start_fails:
  assumes "wt_lock th = rw_free" "rc \<noteq> 0"
  shows "\<exists>t. worker_thread_start_impl rc th arg f n = Inr (ecFail, t) \<and> wt_running t = wt_running th"
  using assms by (simp add: worker_thread_start_impl_def posix_errcode_def)

text \<open>Whoever deletes such a process waits for ever, the end of the program too.\<close>

lemma no_thread_never_deleted:
  assumes inv: "sys_inv sys" and live: "live_slot (pc_list (sys_cont sys)) i" and del: "\<not> prc_del (pc_list (sys_cont sys) ! i)"
    and thread: "\<not> wt_running (prc_thrd (pc_list (sys_cont sys) ! i))"
  shows "process_destroy off fo sys (word_of_int (int i)) = Inl Deadlock"
proof -
  let ?c = "sys_cont sys"
  have il: "i < length (pc_list ?c)" using live by (simp add: live_slot_def)
  obtain q where q: "queue_inv q" and destroy: "process_destroy off fo sys (word_of_int (int i)) =
       rbind (await_delete (Suc (length (mail_of ?c i))) off fo (word_of_int (int i)) (sys\<lparr>sys_cont := upd_slot i (marked q) ?c\<rparr>)) (\<lambda>sys1.
       rbind (pthread_mutex_lock (pc_mutex (sys_cont sys1))) (\<lambda>(_, m1).
       rbind (pthread_mutex_unlock m1) (\<lambda>(_, m2).
       Inr (ecSuccess, sys1\<lparr>sys_cont := (sys_cont sys1)\<lparr>pc_mutex := m2\<rparr>\<rparr>))))"
    using process_destroy_waits [OF inv live del] by blast
  have "pc_inv (vm_mmu (sys_vm sys)) (upd_slot i (marked q) ?c)"
    by (rule pc_inv_marked(1)) (use inv live q in \<open>simp_all add: sys_inv_def\<close>)
  from pc_proc_inv [OF this, of "word_of_int (int i)"] have "pc_proc (upd_slot i (marked q) ?c) (word_of_int (int i)) = Inr (marked q (pc_list ?c ! i))"
    using il pid_word [OF inv il] by simp
  then show ?thesis unfolding destroy using thread by (simp add: worker_thread_is_running_def marked_def)
qed

subsection \<open>Comments that say something else\<close>

text \<open>With the comparator that \<^verbatim>\<open>map.h\<close> asks for, true on equal keys, what was stored is not found.\<close>

lemma documented_comparator:
  "rbind (map_set (snd (map_init a b (=))) k v) (\<lambda>(_, m). map_get m k True) = Inr (ecNotFound, None)"
  by (simp add: map_set_def map_get_def map_init_def find_key_def arr_set_def arr_get_def)

text \<open>A write stops after as many characters as a page has, also in front of the end of the memory.\<close>

lemma sim_write_stops:
  fixes sys :: sys_t
  defines "ps \<equiv> mm_page_size (mmu_mem (vm_mmu (sys_vm sys)))"
  assumes "0 < ps" "ps \<le> amount"
  shows "sim_write sys a s amount = sim_write sys a s ps"
  using assms(2,3) by (simp add: sim_write_def ps_def [symmetric])

end
