(* ===== verification/Cunit.thy ===== *)
theory Cunit
  imports Linked_Queue Text
begin

text \<open>
  \<^verbatim>\<open>cunit/cunit.c\<close>: the runner of the unit tests, a client of the queue. \<open>su_tests\<close> is \<open>None\<close> before the
  first test is added. A test is what a call of it prints and returns.
\<close>

datatype cunit_err_t = ceSuccess | ceFail

type_synonym cunit_test_t = "(byte list \<times> cunit_err_t) res"

record cunit_test_rec_t =
  tr_test :: cunit_test_t
  tr_name :: "byte list"
  tr_idx :: int

record cunit_suite_t =
  su_tests :: "cunit_test_rec_t queue_t option"
  su_passed :: int
  su_failed :: int

definition g_suite :: cunit_suite_t where
  "g_suite = \<lparr>su_tests = None, su_passed = 0, su_failed = 0\<rparr>"

definition cunit_add_test :: "(nat \<Rightarrow> bool) \<Rightarrow> cunit_test_t \<Rightarrow> byte list \<Rightarrow> cunit_suite_t \<Rightarrow> (cunit_err_t \<times> cunit_suite_t) res" where
  "cunit_add_test oom test name suite =
     rbind (case su_tests suite of None \<Rightarrow> queue_init oom | Some q \<Rightarrow> Inr q) (\<lambda>q.
     let test_rec = \<lparr>tr_test = test, tr_name = name, tr_idx = queue_size q + 1\<rparr>
     in rbind (queue_push q test_rec) (\<lambda>(_, q1). Inr (ceSuccess, suite\<lparr>su_tests := Some q1\<rparr>)))"

text \<open>The escape sequences that set the colour.\<close>

definition colour :: "string \<Rightarrow> byte list" where
  "colour c = 27 # ascii ''['' @ ascii c @ ascii ''m''"

text \<open>The state of the loop over the tests: the suite and the text so far, or the fault of a test.\<close>

definition run_single_test :: "cunit_test_rec_t option \<Rightarrow> (cunit_suite_t \<times> byte list) res \<Rightarrow> (cunit_suite_t \<times> byte list) res" where
  "run_single_test param s =
     rbind s (\<lambda>(suite, out).
     case param of None \<Rightarrow> Inl NullDeref
     | Some test \<Rightarrow>
         rbind (tr_test test) (\<lambda>(text, retcode).
         let out1 = out @ text @ colour ''01;37'' @ fmt_d (tr_idx test) @ ascii ''. '' @ tr_name test @ ascii '' - ''
         in case retcode of
              ceSuccess \<Rightarrow> Inr (suite\<lparr>su_passed := su_passed suite + 1\<rparr>,
                             out1 @ colour ''01;32'' @ ascii ''PASS'' @ colour ''01;37'' @ [10])
            | ceFail \<Rightarrow> Inr (suite\<lparr>su_failed := su_failed suite + 1\<rparr>,
                          out1 @ colour ''22;31'' @ ascii ''FAIL'' @ colour ''01;37'' @ [10])))"

definition cunit_run_suite :: "cunit_suite_t \<Rightarrow> (cunit_err_t \<times> cunit_suite_t \<times> byte list) res" where
  "cunit_run_suite suite =
     (case su_tests suite of
        None \<Rightarrow> Inr (ceSuccess, suite, [])
      | Some q \<Rightarrow>
          let suite1 = suite\<lparr>su_passed := 0, su_failed := 0\<rparr>
          in rbind (queue_for_each q run_single_test (Inr (suite1, []))) (\<lambda>r.
             rbind r (\<lambda>(suite2, out).
             Inr (ceSuccess, suite2, out @ colour ''22;37'' @ ascii ''Passed: '' @ fmt_d (su_passed suite2) @ ascii ''/'' @
                    fmt_d (su_passed suite2 + su_failed suite2) @ [10]))))"

text \<open>What is left of the queue; its pointer in the suite dangles afterwards.\<close>

definition cunit_destroy :: "cunit_suite_t \<Rightarrow> cunit_test_rec_t queue_t option res" where
  "cunit_destroy suite =
     (case su_tests suite of
        None \<Rightarrow> Inl NullDeref
      | Some q \<Rightarrow> rbind (queue_drain (Suc (nat (queue_size q))) q) (\<lambda>q1. Inr (snd (queue_destroy q1))))"

subsection \<open>What the runner does\<close>

definition suite_inv :: "cunit_suite_t \<Rightarrow> bool" where
  "suite_inv suite = (case su_tests suite of None \<Rightarrow> True | Some q \<Rightarrow> queue_inv q)"

definition suite_tests :: "cunit_suite_t \<Rightarrow> cunit_test_rec_t list" where
  "suite_tests suite = (case su_tests suite of None \<Rightarrow> [] | Some q \<Rightarrow> queue_list q)"

lemma g_suite_ok: "suite_inv g_suite" "suite_tests g_suite = []"
  by (simp_all add: suite_inv_def suite_tests_def g_suite_def)

lemma cunit_add_test_ok:
  assumes "suite_inv suite" "\<And>n. \<not> oom n"
  shows "\<exists>suite'. cunit_add_test oom test name suite = Inr (ceSuccess, suite') \<and> suite_inv suite' \<and>
           suite_tests suite' = suite_tests suite @
             [\<lparr>tr_test = test, tr_name = name, tr_idx = int (length (suite_tests suite)) + 1\<rparr>]"
proof -
  have "\<exists>q. (case su_tests suite of None \<Rightarrow> queue_init oom | Some q \<Rightarrow> Inr q) = Inr q \<and> queue_inv q \<and>
      queue_list q = suite_tests suite"
  proof (cases "su_tests suite")
    case None
    then show ?thesis using queue_init_ok [OF assms(2)] by (simp add: suite_tests_def)
  qed (use assms(1) in \<open>simp add: suite_inv_def suite_tests_def\<close>)
  then obtain q where q: "(case su_tests suite of None \<Rightarrow> queue_init oom | Some q \<Rightarrow> Inr q) = Inr q" "queue_inv q"
      "queue_list q = suite_tests suite" by blast
  let ?r = "\<lparr>tr_test = test, tr_name = name, tr_idx = queue_size q + 1\<rparr>"
  obtain c q1 where "queue_push q ?r = Inr (c, q1)" "queue_inv q1" "queue_list q1 = queue_list q @ [?r]"
    using fq.push_any [OF q(2)] by blast
  then show ?thesis using q fq.count_ok [OF q(2)]
    by (simp add: cunit_add_test_def suite_inv_def suite_tests_def)
qed

text \<open>The outcome of tests that all return: every one is counted once.\<close>

definition verdicts :: "cunit_test_rec_t list \<Rightarrow> cunit_err_t list" where
  "verdicts ts = map (\<lambda>t. case tr_test t of Inr (_, r) \<Rightarrow> r | Inl _ \<Rightarrow> ceFail) ts"

lemma run_tests_counts:
  assumes "list_all (\<lambda>t. \<exists>x r. tr_test t = Inr (x, r)) ts"
  shows "\<exists>out'. fold (\<lambda>t. run_single_test (Some t)) ts (Inr (suite, out)) =
           Inr (suite\<lparr>su_passed := su_passed suite + int (count_list (verdicts ts) ceSuccess),
                     su_failed := su_failed suite + int (count_list (verdicts ts) ceFail)\<rparr>, out @ out')"
  using assms
proof (induction ts arbitrary: suite out)
  case (Cons t ts)
  then obtain x r where t: "tr_test t = Inr (x, r)" "list_all (\<lambda>t. \<exists>x r. tr_test t = Inr (x, r)) ts" by auto
  let ?s = "suite\<lparr>su_passed := su_passed suite + (if r = ceSuccess then 1 else 0),
                 su_failed := su_failed suite + (if r = ceFail then 1 else 0)\<rparr>"
  have "\<exists>e. run_single_test (Some t) (Inr (suite, out)) = Inr (?s, out @ e)"
    by (cases r) (simp_all add: run_single_test_def t(1))
  then obtain e where e: "run_single_test (Some t) (Inr (suite, out)) = Inr (?s, out @ e)" by blast
  have v: "verdicts (t # ts) = r # verdicts ts" by (simp add: verdicts_def t(1))
  obtain out' where "fold (\<lambda>t. run_single_test (Some t)) ts (Inr (?s, out @ e)) =
      Inr (?s\<lparr>su_passed := su_passed ?s + int (count_list (verdicts ts) ceSuccess),
             su_failed := su_failed ?s + int (count_list (verdicts ts) ceFail)\<rparr>, (out @ e) @ out')"
    using Cons.IH [OF t(2)] by blast
  with e v show ?case by (cases r) (auto simp: add_ac)
qed (simp add: verdicts_def)

lemma run_tests_fault: "fold (\<lambda>t. run_single_test (Some t)) ts (Inl e) = Inl e"
  by (induction ts) (simp_all add: run_single_test_def)

lemma verdicts_all: "count_list (verdicts ts) ceSuccess + count_list (verdicts ts) ceFail = length ts"
proof (induction ts)
  case (Cons t ts)
  moreover obtain v where "verdicts (t # ts) = v # verdicts ts" by (simp add: verdicts_def)
  ultimately show ?case by (cases v) simp_all
qed (simp add: verdicts_def)

text \<open>All tests run, in the order in which they were added, and the summary counts them all.\<close>

lemma cunit_run_suite_ok:
  assumes inv: "suite_inv suite" and some: "su_tests suite \<noteq> None"
    and ret: "list_all (\<lambda>t. \<exists>x r. tr_test t = Inr (x, r)) (suite_tests suite)"
  shows "\<exists>suite' out. cunit_run_suite suite = Inr (ceSuccess, suite', out @ colour ''22;37'' @ ascii ''Passed: '' @
             fmt_d (int (count_list (verdicts (suite_tests suite)) ceSuccess)) @ ascii ''/'' @
             fmt_d (int (length (suite_tests suite))) @ [10]) \<and>
           su_tests suite' = su_tests suite \<and>
           su_passed suite' + su_failed suite' = int (length (suite_tests suite))"
proof -
  obtain q where q: "su_tests suite = Some q" "queue_inv q" "suite_tests suite = queue_list q"
    using some inv by (auto simp: suite_inv_def suite_tests_def)
  obtain as where rep: "queue_rep q as (queue_list q)" using queue_inv_rep [OF q(2)] by blast
  let ?s = "suite\<lparr>su_passed := 0, su_failed := 0\<rparr>" and ?v = "verdicts (queue_list q)"
  obtain out where "fold (\<lambda>t. run_single_test (Some t)) (queue_list q) (Inr (?s, [])) =
      Inr (?s\<lparr>su_passed := int (count_list ?v ceSuccess), su_failed := int (count_list ?v ceFail)\<rparr>, out)"
    using run_tests_counts [OF ret, of ?s "[]"] q(3) by auto
  then have "queue_for_each q run_single_test (Inr (?s, [])) =
      Inr (Inr (?s\<lparr>su_passed := int (count_list ?v ceSuccess), su_failed := int (count_list ?v ceFail)\<rparr>, out))"
    by (simp add: queue_for_each_rep [OF rep])
  moreover have "int (count_list ?v ceSuccess) + int (count_list ?v ceFail) = int (length (queue_list q))"
    using verdicts_all [of "queue_list q"] by linarith
  ultimately show ?thesis using q(1,3) by (simp add: cunit_run_suite_def)
qed

lemma cunit_destroy_ok: "suite_inv suite \<Longrightarrow> su_tests suite \<noteq> None \<Longrightarrow> cunit_destroy suite = Inr None"
proof -
  assume "suite_inv suite" "su_tests suite \<noteq> None"
  then obtain q where q: "su_tests suite = Some q" "queue_inv q" by (auto simp: suite_inv_def)
  obtain q1 where "queue_drain (Suc (nat (queue_size q))) q = Inr q1" "queue_inv q1" "queue_list q1 = []"
    using queue_drain_ok [OF q(2), of "Suc (nat (queue_size q))"] fq.count_ok [OF q(2)] by auto
  then show ?thesis using q(1) fq.count_ok [of q1]
    by (simp add: cunit_destroy_def queue_destroy_def queue_size_def del: queue_drain.simps)
qed

text \<open>A suite to which nothing was added can be run, but not taken down: it has no queue.\<close>

lemma cunit_destroy_empty: "cunit_destroy g_suite = Inl NullDeref"
  by (simp add: cunit_destroy_def g_suite_def)

end
