(* ===== verification/Spec2Isabelle.thy ===== *)
theory Spec2Isabelle
  imports Demo_Mmu Demo_Threads Defects Ipt_Reach Cunit
begin

text \<open>
  A verification development of the virtual memory simulator: a C program that simulates processes
  which read and write a paged virtual memory, with a main memory of a few frames, an inverted page
  table, a swap disk, a page replacement manager and an ageing daemon, all behind a command prompt.

  \<^bold>\<open>The parts of the program and the theories that model them.\<close>

  \<^item> \<open>Prelude\<close>: the result type \<open>'a res\<close>: \<open>Inl\<close> of a \<open>fault\<close> (failed assertion, access out of bounds,
    null pointer, overflow, deadlock, bad unlock, bad free, divergence) or \<open>Inr\<close> of the value; checked array
    and block accesses; the types of \<^verbatim>\<open>util/vmsim_types.h\<close>. A theorem with \<open>Inr\<close> in its conclusion says that
    the operation returns and is memory safe.
  \<^item> \<open>Text\<close>: the \<^verbatim>\<open>printf\<close>, \<^verbatim>\<open>sscanf\<close>, \<^verbatim>\<open>fscanf\<close> and \<^verbatim>\<open>fgets\<close> conversions that the source uses, on byte
    lists, and \<^verbatim>\<open>util/logger.c\<close>. \<open>Address\<close>: the address arithmetic of \<^verbatim>\<open>util/app_util.c\<close> and
    \<^verbatim>\<open>util/pcb_util.c\<close>. \<open>Locks\<close>: \<^verbatim>\<open>util/locks.c\<close>.
  \<^item> The containers: \<open>Linked_Queue\<close> (\<^verbatim>\<open>util/list.c\<close>, \<^verbatim>\<open>util/queue.c\<close>; nodes on a heap of their own, with
    failing \<^verbatim>\<open>malloc\<close>), \<open>Assoc_Map\<close> (\<^verbatim>\<open>util/map.c\<close>), \<open>Bitmap\<close> (\<^verbatim>\<open>util/bitmap.c\<close>). \<open>Cunit\<close> (\<^verbatim>\<open>cunit/cunit.c\<close>), the
    runner of the unit tests, is a client of the queue.
  \<^item> The memories: \<open>Main_Memory\<close> (\<^verbatim>\<open>vmsim/mm.c\<close>, \<open>mm_t\<close>) and \<open>Disk\<close> (\<^verbatim>\<open>vmsim/disk.c\<close>, \<open>disk_t\<close>), which
    share the contract \<open>Paged\<close>.
  \<^item> The page table: \<open>Ipt\<close> (\<^verbatim>\<open>vmsim/ipt.c\<close>, \<open>ipt_t\<close>: entries, hash anchor table and free list), with
    \<open>Ipt_Chains\<close> (the doubly linked chains), \<open>Ipt_Proofs\<close>, \<open>Ipt_Map\<close> (the table as a partial map from
    pages to frames with a queue of spare frames) and \<open>Ipt_Reach\<close> (the tables that the operations make out of a new one).
  \<^item> The virtual memory: \<open>Mmu_Core\<close> (\<^verbatim>\<open>vmsim/mmu.c\<close>: \<open>mmu_t\<close> with table, memory, disk, the map from pages to disk
    pages and the statistics), \<open>Prm\<close> (\<^verbatim>\<open>vmsim/prm.c\<close>: its command queue \<open>prm_t\<close> and its thread), \<open>Aging\<close>
    (\<^verbatim>\<open>vmsim/aging_daemon.c\<close>), \<open>Mmu\<close> (\<^verbatim>\<open>mmu_read\<close>, \<^verbatim>\<open>mmu_write\<close> and the pinning of pages over the state \<open>vm_t\<close> of
    all three), with \<open>Mmu_Core_Proofs\<close>, \<open>Prm_Proofs\<close>, \<open>Mmu_Proofs\<close>, \<open>Mmu_Alloc\<close> and \<open>Vmem\<close>.
    \<open>Worker_Thread\<close> (\<^verbatim>\<open>util/worker_thread.c\<close>) is the loop that the threads run. \<open>Threads\<close> splits an access into the
    turns that it takes when several threads use the memory, with the lock of the MMU shared by the readers: the step
    relation \<open>th_step\<close> runs them and the manager in any order, and \<open>Threads_Proofs\<close> shows that the order does not matter
    and that nobody is stuck.
  \<^item> The processes: \<open>Pcb\<close> and \<open>Process\<close> (\<^verbatim>\<open>vmsim/pcb.c\<close>, \<^verbatim>\<open>util/pcb_util.c\<close>: the container \<open>proc_cont_t\<close>, mail
    boxes of posts, the decoders, \<^verbatim>\<open>sim_read\<close> to \<^verbatim>\<open>sim_loop_write\<close>, deletion; the state \<open>sys_t\<close> adds the
    virtual memory, the outstanding job and the files and the text written), with \<open>Container\<close>,
    \<open>Process_Create\<close>, \<open>Process_Delete\<close>, \<open>Linear_Memory\<close>, \<open>Mail\<close>, \<open>Jobs\<close>.
  \<^item> The application: \<open>App\<close> (\<^verbatim>\<open>util/app_util.c\<close>: loading a configuration, taking down, requests to
    processes), \<open>Print\<close> (its dumps, to the byte), with \<open>Startup\<close>, \<open>Shutdown\<close> and \<open>Requests\<close>; \<open>Ui\<close>
    (\<^verbatim>\<open>vmsim/ui_app.c\<close>: parsing, the handlers, batch files, the loop of \<^verbatim>\<open>app_main\<close>, and \<^verbatim>\<open>main.c\<close>; state \<open>ui_t\<close>), with
    \<open>Command_Text\<close>, \<open>Ui_Fuel\<close>, \<open>Ui_Invariant\<close>, \<open>Ui_Session\<close>, \<open>Session\<close> and \<open>Program\<close>.
  \<^item> \<open>Demo\<close>, \<open>Demo_Mmu\<close>, \<open>Demo_Threads\<close> and \<open>Demo_Ui\<close> hold small concrete states, on which the witnesses evaluate the code.
    \<open>Defects\<close> proves what the model shows of the code that its authors did not mean.

  \<^bold>\<open>How the parts interact.\<close> The user interface parses a command and calls its handler; a request to a
  process becomes a post in the process' mail box (\<open>compose_mail\<close>), and the interface waits for the job.
  The thread of the process takes a post (\<open>process_func\<close>), decodes it and reads or writes through the MMU.
  An access to a page that is not in memory pushes a command into the queue of the page replacement
  manager and waits; the manager's thread evicts the oldest page and loads the missing one. Every access
  is counted, and after enough of them the ageing daemon makes a round. A wait is modelled as the place
  where the thread waited for makes its rounds; when there is no such thread, it is the fault \<open>Deadlock\<close>. The threads of the processes are scheduled by the
  environment: \<open>wo_others\<close> of \<open>world_t\<close> is what they do while the interface waits, and \<open>reachable\<close> lets
  them serve mail in any order between two commands.

  \<^bold>\<open>Interfaces.\<close> What one component promises another is a locale, with the lemmas of the client, and
  interpreted on the model's operations: \<open>fifo\<close> (\<open>Linked_Queue\<close>; the free list, the commands, the mail boxes),
  \<open>keyed_store\<close> (\<open>Assoc_Map\<close>; the map from pages to disk pages), \<open>slots\<close> (\<open>Bitmap\<close>; interpreted on the bits and, in
  \<open>Disk\<close>, on its pages), \<open>paged\<close> (\<open>Paged\<close>; interpreted on main memory and disk), \<open>translation\<close> and its extension
  \<open>frame_table\<close> (\<open>Ipt_Map\<close>; lookup, and adding and removing pages), and \<open>virtual_memory\<close> (\<open>Vmem\<close>; interpreted on
  \<^verbatim>\<open>mmu_read\<close> and \<^verbatim>\<open>mmu_write\<close>).

  \<^bold>\<open>The invariants.\<close> \<open>map_inv\<close>, \<open>bitmap_inv\<close>, \<open>queue_inv\<close>, \<open>mm_inv\<close>, \<open>disk_inv\<close> and \<open>ipt_inv\<close> per component;
  \<open>mmu_inv\<close> and \<open>vm_inv\<close> join them: every allocated page has a disk page of its own. \<open>page_of\<close> is what a page
  holds at the moment, wherever it lives, and \<open>vmem\<close> (\<open>vm_view\<close> of a \<open>vm_t\<close>) is the part of it that is guaranteed to stay: a page
  in memory that is clean although its frame and its page of the disk differ is not in it, as an eviction would change what it
  holds. Only a page that got a used frame and was not written since can be such a page; its first write makes it guaranteed.
  \<open>sys_inv\<close>: every live process owns one block of the disk and all pages of
  its address space, nobody owns anything else; \<open>sys_wf\<close> adds that all mail is well formed, and \<open>ui_wf\<close> the
  interface. \<open>load_app_data\<close> establishes them, every command and every piece of mail keeps them.

  \<^bold>\<open>The properties below.\<close> C1--C14 are about the whole program, down from the bytes of the configuration file
  and of the input: what it prints and that it ends; what requests, deletion, creation and shutdown do; what becomes of lines
  that are no commands; how text becomes commands, and which of the loops over them end. C15--C25
  are about the virtual memory: the refinement of a plain memory, by one thread and by several that interleave, faults,
  eviction, ageing. The plain memory of C15 and C16 (\<open>plain_steps\<close>) fixes the answers on the pages that it knows, and a page
  that was allocated and not written yet reads as anything. C26--C33 are about the page table and the disk, C34--C38 about
  containers, addresses and threads, C39--C40 about the start.

  \<^bold>\<open>Fuel.\<close> Loops that the type system does not bound carry fuel and give \<open>Diverges\<close> when it runs out; the
  properties prove that they return. The fuel is never a limit that the code does not have: the walks
  through a chain (\<open>vaddr_walk\<close>, \<open>last_walk\<close>) get one more than the number of entries, those through a queue
  (\<open>for_each_walk\<close>) one more than the number of nodes ever allocated, so a longer walk has visited a node
  twice and, nothing being changed, never ends; \<open>queue_drain\<close> and \<open>await_delete\<close> get one more than the
  length of the queue; \<open>advance_loop\<close> gets one more than the offset, which every round with a positive page size decreases;
  \<open>wait_for_completion\<close> gets one more than the commands in the queue, as each round of the manager serves
  one. \<open>fault_loop\<close>, \<open>swap_loop\<close> and \<open>wait_updated\<close> get two: a second test of the loop condition that fails, as
  nobody else runs in between. Each round of \<open>batch_loop\<close> reads at least one byte of the file, so one more than its length is
  never used up. \<open>main_loop\<close> returns within as many rounds as the input has bytes, or never: at the end of the input it reads empty
  commands without end, and \<open>Diverges\<close> is then what the code does (both in C13). \<open>command_handler\<close> takes the depth to which batch files may run
  other batch files as an argument, as a file that runs itself recurses until the stack of the program is full (C14).

  \<^bold>\<open>Parameters.\<close> \<open>world_t\<close> holds what is outside the source: the files that exist, which files can be opened for
  writing, whether a request for memory fails, what the other threads do while the interface waits, and the text of a float
  (\<open>wo_ratio\<close>). A file that exists can be opened any number of times. \<open>env_t\<close> says which of the allocations, the lock and the
  threads of the start succeed; the arguments \<open>app\<close> and \<open>junk\<close> hold what fresh memory contains.

  \<^bold>\<open>The schedule.\<close> \<open>wo_others\<close> gets the other threads their turn when a command starts and when the interface waits, and
  may be any function of the state. The mutex of the outstanding job has no owner, as the thread that unlocks it (\<open>signal_job_done\<close>) is never
  the one that locked it (\<open>wait_job_done\<close>); unlocking it while nobody holds it is the fault \<open>BadUnlock\<close>, which is what a process runs into that
  serves a request before the interface waits for it (C4). C1 and C2 therefore ask for a \<open>patient\<close> schedule: the process
  serves, at a turn of its choice, from when the interface has the mutex until the interface cannot go on without. C3 is
  for all schedules, as a fault leaves no state to speak of.

  \<^bold>\<open>Not modelled.\<close>
  \<^item> Interleavings finer than the turns of \<open>Threads\<close>: the test for the page with its count, the copy of the bytes, a fault up to its
    wait, a round of the manager and a round of ageing are one turn each. Every thread there is that of one process and uses
    the pages of this process. Above the MMU a handler or a piece of mail is one step. The locks are modelled as states, so a
    lock taken twice by one flow of control, or one released without being held, is a fault.
  \<^item> The state of condition variables: waiting on one is the place where the other thread runs.
  \<^item> The messages that the components log (the level and the text of a message are in \<open>Text\<close>).
  \<^item> The failure of small allocations other than those in \<open>env_t\<close>, the nodes of a queue and the interface's own, and
    the deallocation of posts and of a thread's argument.
  \<^item> Counters at \<open>2 ^ 31\<close> and above where the source counts in an unbounded way, and \<^verbatim>\<open>abs_time_from_delta\<close>, which reads the clock.
  \<^item> \<^verbatim>\<open>dump_list\<close>, which is commented out, the \<^verbatim>\<open>main\<close> that runs the unit tests, and the tests.
\<close>

section \<open>The program\<close>



text \<open>C2: A text without blanks that fits a page, written anywhere into the memory of the process and
  read from there by the commands of a session, comes back on the standard output, one character a line, after the two
  prompts of these commands and that of the end. As in C1 this is for every patient schedule of the process' thread (it
  takes a request only when the interface holds the lock of the job, and not later than the interface needs it), with the
  requests for memory and threads granted.\<close>

theorem typed_text_is_printed:
  assumes "config_fits cf" "0 < unat (cf_nproc cf)" "env_ok env" "\<not> app_initialized app"
    and "patient w 0" "\<And>n. \<not> wo_oom w n" "wo_start w = 0"
    and "word_ok s" "list_all (\<lambda>x. x \<noteq> 10 \<and> x \<noteq> 0) s" "length s \<le> unat (cf_page_size cf)" "length s \<le> 4000"
    and "a + length s \<le> unat (cf_n_proc_pages cf) * unat (cf_page_size cf)" "a + length s < 2 ^ 31"
  shows "app_main 2 file_name env (Some (config_text cf)) junk (Suc k) w
           (cmd_text create_cmd @ job_texts 0 [JWrite a s, JRead a (length s)]) app =
         Inr (0, sys_out (app_sys app) @ [prompt, created 0, prompt, prompt, prompt, (None, print_bytes s), goodbye], None)"
proof -
  have s: "0 < length s" using assms(8) by (simp add: word_ok_def)
  then have "a + (length s - Suc 0) < unat (cf_n_proc_pages cf) * unat (cf_page_size cf)" using assms(12) by linarith
  with s have js: "list_all (session_ok (wo_fopen w) (unat (cf_n_proc_pages cf) * unat (cf_page_size cf)) 0)
      [JWrite a s, JRead a (length s)]"
    using assms(8,9,11-13) typed_cmd_ok [of "JWrite a s" 0] typed_cmd_ok [of "JRead a (length s)" 0]
    by (simp add: session_ok_def typed_ok_def job_ok_def sink_ok_def del: typed.simps)
  show ?thesis using program_ok [OF assms(1-7) js] plain_write_read [OF _ assms(10)] by fastforce
qed

theorem typed_text_is_printed_witness:
  "app_main 2 (ascii ''a.cfg'') demo_env (Some (config_text demo_config)) demo_config 1 demo_world
     (cmd_text create_cmd @ job_texts 0 [JWrite 6 (ascii ''abc''), JRead 6 3]) blank_app =
   Inr (0, [prompt, created 0, prompt, prompt, prompt, (None, [97, 10, 98, 10, 99, 10]), goodbye], None)"
proof -
  have abc: "ascii ''abc'' = [97, 98, 99]" by (simp add: ascii_def of_char_def)
  have sizes: "unat (cf_nproc demo_config) = 2" "unat (cf_n_proc_pages demo_config) = 3"
      "unat (cf_page_size demo_config) = 4" "\<not> app_initialized blank_app" "sys_out (app_sys blank_app) = []"
    by (simp_all add: demo_config_def blank_app_def)
  show ?thesis
    unfolding abc
    using typed_text_is_printed [OF demo_config_fits _ demo_env_ok sizes(4) demo_world_facts(1-3), of "[97, 98, 99]" 6 "ascii ''a.cfg''" demo_config 0]
      sizes by (simp add: word_ok_def print_bytes_def numeral_3_eq_3)
qed

text \<open>C3: On a configuration of fitting sizes (among others, a block of the disk for every process) and with a
  system that does not run out of memory, every state that the program reaches by commands of the user, whatever they are, and by mail
  that the processes serve in between, in any order, is well formed: the mail waiting for a process has the
  arguments its decoder takes, the pages of a process are there, and two processes have no block of the
  disk in common.\<close>

theorem reachable_states_are_good:
  assumes "config_fits cf" "env_ok env" "load_config env cf app = Inr (True, app')" "world_ok w"
    and "reachable w (started app') ui"
  defines "ps \<equiv> pc_list (sys_cont (ui_sys ui))" and "b \<equiv> pc_blk (sys_cont (ui_sys ui))"
  shows "ui_wf ui \<and>
    (\<forall>i. live_slot ps i \<longrightarrow> list_all (post_wf (ui_psize ui)) (mail_of (sys_cont (ui_sys ui)) i)) \<and>
    (\<forall>i page. live_slot ps (unat i) \<and> unat page < b \<longrightarrow> page_of (vm_mmu (sys_vm (ui_sys ui))) (i, page) \<noteq> None) \<and>
    (\<forall>i j. live_slot ps i \<and> live_slot ps j \<and> block_of b (ps ! i) = block_of b (ps ! j) \<longrightarrow> i = j)"
proof -
  have "ui_wf (started app')" using started_wf [OF assms(1,2), of app] assms(3) by auto
  then have wf: "ui_wf ui" by (rule reachable_wf [OF assms(5,4)])
  then have W: "sys_inv (ui_sys ui)" "mail_wf (ui_sys ui)" by (simp_all add: whole)
  have "page_of (vm_mmu (sys_vm (ui_sys ui))) (i, page) \<noteq> None" if "live_slot ps (unat i)" "unat page < b" for i page
    using own_page_backed [OF W(1), of "\<lparr>va_pid = i, va_page = page, va_offset = 0\<rparr>"] that
    by (auto simp: vkey_def ps_def b_def)
  moreover have "i = j" if "live_slot ps i" "live_slot ps j" "block_of b (ps ! i) = block_of b (ps ! j)" for i j
    using blocks_distinct [of "vm_mmu (sys_vm (ui_sys ui))" "sys_cont (ui_sys ui)" i j] W(1) that
    by (simp add: whole ps_def b_def)
  ultimately show ?thesis using wf W(2) unfolding mail_wf_def ps_def b_def by blast
qed

theorem reachable_states_are_good_witness:
  "reachable demo_world (started demo_app) demo_run \<and> ui_wf demo_run \<and>
     page_of (vm_mmu (sys_vm (ui_sys demo_run))) (0, 2) \<noteq> None"
proof -
  have r: "reachable demo_world (started demo_app) demo_run"
    by (rule reachable.command [OF reachable.start demo_run_facts(1)])
  show ?thesis
    using reachable_states_are_good [OF demo_config_fits demo_env_ok demo_app_facts(1) demo_world_ok r] r
      demo_run_facts(5) demo_run_sys(4) by simp
qed

section \<open>Processes\<close>

text \<open>C4: A request of any of the six kinds, made while no other is outstanding to a process with an empty mail box that
  is not about to be deleted, puts one post into its mail box. When the interface has taken the lock of the job (\<open>wait_job_done\<close> returns at
  once) and the process takes the post out, it performs the plain job on its memory: what is guaranteed of the bytes that
  the job does not write stays, the bytes it writes are guaranteed from then on, it prints what the job reads, reports that it is done, and the
  lock is free again. A process
  that takes the post out before the interface has the lock ends by unlocking a mutex that nobody holds.\<close>

theorem request_is_served:
  assumes "sys_wf sys" "live_slot (pc_list (sys_cont sys)) i" "\<not> prc_del (pc_list (sys_cont sys) ! i)"
    and "mail_of (sys_cont sys) i = []" "sys_job sys = job_is_done" "job_start j < 2 ^ 31"
    and "job_ok (pc_blk (sys_cont sys) * vm_psize (sys_vm sys)) j" "fo \<or> job_sink j = None \<or> job_sink j = Some None"
  shows "\<exists>sys1 jb sys2 bs. issue sys (int i) j = Inr (ecSuccess, sys1) \<and> wait_job_done (sys_job sys1) = Inr jb \<and>
           process_func off fo (word_of_int (int i)) (sys1\<lparr>sys_job := jb\<rparr>) = Inr (False, sys2) \<and> sys_inv sys2 \<and>
           mail_of (sys_cont sys2) i = [] \<and> sys_job sys2 = job_is_done \<and> sys_out sys2 = sys_out sys @ job_out j bs \<and>
           job_put (vm_psize (sys_vm sys)) (word_of_int (int i)) j (cells (sys_vm sys)) \<subseteq>\<^sub>m cells (sys_vm sys2) \<and>
           (job_sink j \<noteq> None \<longrightarrow> job_reads (word_of_int (int i)) j (cells (sys_vm sys)) bs) \<and>
           process_func off fo (word_of_int (int i)) sys1 = Inl BadUnlock"
proof -
  obtain k where "sys_page_size sys = 2 ^ k" "k < 31" using sys_wfD(3) [OF assms(1)] by (auto simp: sizes_ok_def)
  then show ?thesis using issue_and_serve [OF sys_wfD(1) [OF assms(1)] _ _ assms(2-8)] by blast
qed

theorem request_is_served_witness:
  "\<exists>sys1 jb sys2 bs. issue (ui_sys demo_run) 0 (JRead 7 5) = Inr (ecSuccess, sys1) \<and> wait_job_done (sys_job sys1) = Inr jb \<and>
     process_func 0 True 0 (sys1\<lparr>sys_job := jb\<rparr>) = Inr (False, sys2) \<and> length bs = 5 \<and>
     sys_out sys2 = sys_out (ui_sys demo_run) @ [(None, print_bytes bs)]"
proof -
  let ?s = "ui_sys demo_run"
  have "\<not> prc_del (pc_list (sys_cont ?s) ! 0)" "mail_of (sys_cont ?s) 0 = []" "sys_job ?s = job_is_done"
    using demo_run_facts(2) by (simp_all add: quiet_def seated_def)
  then show ?thesis
    using request_is_served [of ?s 0 "JRead 7 5" True 0] demo_run_sys(1,3,4) demo_run_facts(3)
    by (fastforce simp: job_ok_def job_reads_def job_out_def simp del: issue.simps)
qed

text \<open>C5: Deleting an idle process takes its pages and its block away and leaves every other process
  as it was, with all contents that are guaranteed to it.\<close>

theorem deletion_frees_process:
  assumes "sys_inv sys" "idle_proc sys i"
  shows "\<exists>sys'. process_destroy off fo sys (word_of_int (int i)) = Inr (ecSuccess, sys') \<and> sys_inv sys' \<and>
           (\<forall>j. live_slot (pc_list (sys_cont sys')) j \<longleftrightarrow> j \<noteq> i \<and> live_slot (pc_list (sys_cont sys)) j) \<and>
           (\<forall>j. j \<noteq> i \<longrightarrow> pc_list (sys_cont sys') ! j = pc_list (sys_cont sys) ! j) \<and>
           (\<forall>page. page_of (vm_mmu (sys_vm sys')) (word_of_int (int i), page) = None) \<and>
           (\<forall>pid page. unat pid \<noteq> i \<longrightarrow> vm_view (sys_vm sys') (pid, page) = vm_view (sys_vm sys) (pid, page))"
  by (rule process_destroy_frees [OF assms])

theorem deletion_frees_process_witness:
  "\<exists>sys'. process_destroy 0 True (ui_sys demo_run) 0 = Inr (ecSuccess, sys') \<and>
     \<not> live_slot (pc_list (sys_cont sys')) 0 \<and> page_of (vm_mmu (sys_vm sys')) (0, 2) = None"
  using deletion_frees_process [OF demo_run_sys(2) quiet_idle [OF demo_run_facts(2)], of 0 True] by fastforce

text \<open>C6: When every process is idle, the end of the program deletes all of them, finds no lock taken and
  no command waiting, prints nothing, and gives everything back.\<close>

theorem shutdown_succeeds:
  assumes "sys_inv (app_sys app)"
    and "\<And>j. live_slot (pc_list (sys_cont (app_sys app))) j \<Longrightarrow> idle_proc (app_sys app) j"
  shows "free_app_data off fo app = Inr (None, sys_out (app_sys app))"
  by (rule free_app_data_ok [OF assms])

theorem shutdown_succeeds_witness:
  "free_app_data 0 True (ui_app demo_run) = Inr (None, sys_out (app_sys (ui_app demo_run)))"
  using shutdown_succeeds [OF demo_run_sys(2), of 0 True] quiet_idle [OF demo_run_facts(2)] demo_run_facts(5) by fastforce

text \<open>C7: What becomes of the request for a new process, when the system does not run out of memory: with a free slot and a
  free block of the disk the process gets the first free slot. With no free slot there is the code \<open>- 1\<close>, and nothing but the
  message changes. With a free slot on a full disk the search for a block leaves the bitmap, or the slot is freed: an invalid free,
  unless it is the first slot, with which all of them go. On a disk with a block for every slot the last does not happen.\<close>

theorem creation_outcome:
  assumes "sys_inv sys" "\<And>n. \<not> oom n"
  defines "ps \<equiv> pc_list (sys_cont sys)" and "d \<equiv> mmu_disk (vm_mmu (sys_vm sys))"
  defines "full \<equiv> used_blocks (pc_blk (sys_cont sys)) ps = {..<disk_nblocks d}"
  shows "(case find (\<lambda>i. \<not> live_slot ps i) [0..<length ps] of
      None \<Rightarrow> \<exists>sys'. create_process off oom sys = Inr (- 1, sys') \<and> sys_vm sys' = sys_vm sys \<and> sys_cont sys' = sys_cont sys
    | Some i \<Rightarrow>
        if \<not> full then
          \<exists>sys'. create_process off oom sys = Inr (int i, sys') \<and> sys_inv sys' \<and>
             (\<forall>j. live_slot (pc_list (sys_cont sys')) j \<longleftrightarrow> j = i \<or> live_slot ps j)
        else if disk_pages d mod disk_bsize d = 0 \<and> d_npages d mod 8 = 0 then create_process off oom sys = Inl OutOfBounds
        else if i = 0 then \<exists>sys'. create_process off oom sys = Inr (- 2, sys') \<and> pc_processes (sys_cont sys') = None
        else create_process off oom sys = Inl BadFree) \<and>
    (length ps \<le> disk_nblocks d \<and> (\<exists>i < length ps. \<not> live_slot ps i) \<longrightarrow> \<not> full)"
  unfolding ps_def d_def full_def
  by (rule conjI, rule create_process_outcome [OF assms(1), of oom off, OF assms(2)]) (use block_left [of sys] in blast)

theorem creation_outcome_witness:
  "\<exists>sys'. create_process 0 (\<lambda>_. False) (ui_sys (started demo_app)) = Inr (0, sys') \<and> sys_inv sys' \<and>
     live_slot (pc_list (sys_cont sys')) 0"
proof -
  let ?s = "ui_sys (started demo_app)" let ?ps = "pc_list (sys_cont ?s)"
  have wf: "sys_wf ?s" using demo_app_facts(3) by (simp add: ui_wf_def)
  have slots: "\<not> live_slot ?ps i" "0 < length ?ps" for i using demo_app_facts(4,7) by (auto simp: started_def)
  have fits: "length ?ps \<le> disk_nblocks (mmu_disk (vm_mmu (sys_vm ?s)))" using sys_wfD(3) [OF wf] by (simp add: sizes_ok_def)
  have first: "find (\<lambda>i. \<not> live_slot ?ps i) [0..<length ?ps] = Some 0" using slots by (simp add: upt_conv_Cons)
  note outcome = creation_outcome [OF sys_wfD(1) [OF wf], of "\<lambda>_. False" 0, simplified not_False_eq_True, unfolded first option.case, OF TrueI]
  have "used_blocks (pc_blk (sys_cont ?s)) ?ps \<noteq> {..<disk_nblocks (mmu_disk (vm_mmu (sys_vm ?s)))}"
    using conjunct2 [OF outcome] slots fits by blast
  then show ?thesis using conjunct1 [OF outcome] by auto
qed

text \<open>C8: Mail for a process that does not exist, is not there or is about to go is refused and changes
  nothing. The number just past the last slot passes the check of the bounds, though, and the slot
  there is outside of the array.\<close>

theorem mail_to_nobody:
  assumes "sys_inv sys"
  defines "c \<equiv> sys_cont sys"
  shows "(length (pc_list c) < unat pid \<longrightarrow> compose_mail c pid post = Inr (ecNotFound, c)) \<and>
    (unat pid < length (pc_list c) \<and> (\<not> live_slot (pc_list c) (unat pid) \<or> prc_del (pc_list c ! unat pid)) \<longrightarrow>
       compose_mail c pid post = Inr (ecNotFound, c)) \<and>
    (unat pid = length (pc_list c) \<longrightarrow> compose_mail c pid post = Inl OutOfBounds)"
proof -
  have c: "pc_inv (vm_mmu (sys_vm sys)) c" using assms(1) by (simp add: sys_inv_def c_def)
  have n: "unat (pc_max_num_of_proc c) = length (pc_list c)" using pc_invD(2) [OF c] by simp
  have "pid > pc_max_num_of_proc c \<longleftrightarrow> length (pc_list c) < unat pid" by (simp add: word_less_nat_alt n)
  moreover have "pid = pc_max_num_of_proc c \<longleftrightarrow> unat pid = length (pc_list c)" by (metis n word_unat_eq_iff)
  ultimately show ?thesis using compose_mail_none [OF c, of pid post] by blast
qed

theorem mail_to_nobody_witness:
  "compose_mail (sys_cont demo_two) 2 (create_post fcDel [] 0) = Inl OutOfBounds \<and>
   compose_mail (sys_cont demo_two) 3 (create_post fcDel [] 0) = Inr (ecNotFound, sys_cont demo_two)"
  using mail_to_nobody [OF demo_two_facts(2), of 2 "create_post fcDel [] 0"]
    mail_to_nobody [OF demo_two_facts(2), of 3 "create_post fcDel [] 0"] demo_two_facts(6) by simp

text \<open>C9: An access to bytes of a page that is not one of the process, or by a process that is not there, ends in a
  failed assertion, for reading and for writing: the page gets a frame, there is no page of the disk to load it from, and the
  page replacement manager aborts the program.\<close>

theorem foreign_access_aborts:
  assumes "sys_inv sys" "\<not> live_slot (pc_list (sys_cont sys)) (unat (va_pid a)) \<or> pc_blk (sys_cont sys) \<le> unat (va_page a)"
    and "unat (va_offset a) + unat n \<le> vm_psize (sys_vm sys)"
  shows "mmu_read (sys_vm sys) a n = Inl AssertFailed \<and> mmu_write (sys_vm sys) a n buf = Inl AssertFailed"
proof -
  have I: "pc_inv (vm_mmu (sys_vm sys)) (sys_cont sys)" "vm_inv (sys_vm sys)" using assms(1) by (simp_all add: sys_inv_def)
  then have "vm_bk (sys_vm sys) (vkey a) = None" using assms(2) by (auto simp: pc_invD(9) proc_pages_def vkey_def)
  then show ?thesis using unbacked [OF I(2) _ assms(3)] by blast
qed

theorem foreign_access_aborts_witness:
  "mmu_read (sys_vm demo_two) \<lparr>va_pid = 1, va_page = 3, va_offset = 0\<rparr> 1 = Inl AssertFailed \<and>
   mmu_write (sys_vm demo_two) \<lparr>va_pid = 1, va_page = 3, va_offset = 0\<rparr> 1 [5] = Inl AssertFailed"
  using foreign_access_aborts [OF demo_two_facts(2), of "\<lparr>va_pid = 1, va_page = 3, va_offset = 0\<rparr>" 1 "[5]"]
    demo_two_facts(3,5) by simp

section \<open>Commands\<close>

text \<open>C10: What is typed is what is run: a command written as a line is read back from the standard input,
  with the rest of the input left, and from a line of a batch file, with or without parameters.\<close>

theorem command_is_read_back:
  assumes "cmd_ok c"
  shows "get_command (cmd_text c @ rest) = Inr (c, rest) \<and> batch_command (cmd_text c) = Inr c"
  using get_command_text [OF assms] batch_command_text [OF assms] by blast

theorem command_is_read_back_witness:
  "get_command (cmd_text create_cmd @ cmd_text create_cmd) = Inr (create_cmd, cmd_text create_cmd) \<and>
     batch_command (cmd_text create_cmd) = Inr create_cmd"
  by (rule command_is_read_back [OF create_cmd_ok])

text \<open>C11: Running a batch file is running its commands one after the other until one of them ends the
  program, and so is typing them: only the prompt before each command is printed in addition.\<close>

theorem batch_equals_typing:
  assumes "list_all cmd_ok cs" "app_initialized (ui_app ui)" "wo_file w (cmd_param cmd) = Some (concat (map cmd_text cs))"
    and "length cs \<le> n"
  shows "do_batch_file (command_handler k w) w cmd ui = run_cmds (command_handler k w) cs ui \<and>
    main_loop n k w (concat (map cmd_text cs) @ rest) ui =
      rbind (run_cmds (prompted (command_handler k w)) cs ui)
        (\<lambda>(go, ui1). if go then main_loop (n - length cs) k w rest ui1 else Inr ui1)"
  using do_batch_file_text [OF assms(2,3,1)] main_loop_text [OF assms(1,4)] by blast

theorem batch_equals_typing_witness:
  "do_batch_file (command_handler 1 demo_world) demo_world \<lparr>cmd_command = [], cmd_param = [65]\<rparr> (started demo_app) =
     Inr (True, demo_run)"
proof -
  have "app_initialized (ui_app (started demo_app))" using demo_app_facts(2) by (simp add: started_def)
  moreover have "wo_file demo_world [65] = Some (concat (map cmd_text [create_cmd]))" by (simp add: demo_world_def)
  ultimately show ?thesis
    using batch_equals_typing [of "[create_cmd]" "started demo_app" demo_world "\<lparr>cmd_command = [], cmd_param = [65]\<rparr>" 1 1 "[]"]
      create_cmd_ok demo_run_facts(1) by (simp del: command_handler.simps)
qed

text \<open>C12: What lines that are no commands become. A blank line in a batch file makes the code read in front of the text of the
  command, which is the start of the structure. One blank behind a command changes nothing: the character in front of the empty
  parameter is the last one of the command's own array, which is zero. At the end of the standard input a command without
  a newline is taken as it is, and after it there are only empty commands.\<close>

theorem irregular_lines:
  assumes "name_ok c" "list_all isspace l" "list_all (\<lambda>x. x \<noteq> 0) l"
  shows "batch_command (l @ [10]) = Inl OutOfBounds \<and> batch_command (c @ [32, 10]) = Inr \<lparr>cmd_command = c, cmd_param = []\<rparr> \<and>
         get_command c = Inr (\<lparr>cmd_command = c, cmd_param = []\<rparr>, []) \<and>
         get_command l = Inr (\<lparr>cmd_command = [], cmd_param = []\<rparr>, [])"
  using batch_blank_line [OF assms(2,3)] batch_trailing_blank [OF assms(1)] get_command_unended [OF assms(1)]
    get_command_eof [OF assms(2)] by blast

theorem irregular_lines_witness:
  "batch_command ([32, 9] @ [10]) = Inl OutOfBounds \<and>
   batch_command (ascii ''exit'' @ [32, 10]) = Inr \<lparr>cmd_command = ascii ''exit'', cmd_param = []\<rparr> \<and>
   get_command (ascii ''exit'') = Inr (\<lparr>cmd_command = ascii ''exit'', cmd_param = []\<rparr>, [])"
proof -
  have "name_ok (ascii ''exit'')" by (simp add: name_ok_def ascii_def isspace_def max_cmd_len_def of_char_def)
  moreover have "list_all isspace [32, 9 :: byte]" "list_all (\<lambda>x. x \<noteq> 0) [32, 9 :: byte]" by (simp_all add: isspace_def)
  ultimately show ?thesis using irregular_lines by blast
qed

text \<open>C13: Which loops of the interface end, and what the bounds of the model are worth. The loop over a batch file ends by itself:
  every line takes bytes of the file, so a bound above its length is never reached. The loop over the standard input does not: it
  returns when a command ends it, which happens within as many rounds as the input has bytes; when only blanks are left, it
  reads empty commands and never returns, however many rounds it gets. The depth to which batch files may nest does not
  matter to a command that returns or faults within it.\<close>

theorem loops_of_the_interface:
  assumes "length f < m" "command_handler k w cmd ui \<noteq> Inl Diverges"
  shows "batch_loop m handler f ui = batch_loop (Suc (length f)) handler f ui \<and>
    (main_loop n k w input ui\<^sub>0 = Inr ui' \<longrightarrow> main_loop (Suc (length input)) k w input ui\<^sub>0 = Inr ui') \<and>
    (list_all isspace input \<longrightarrow> main_loop n k w input ui\<^sub>0 \<noteq> Inr ui') \<and>
    command_handler (k + j) w cmd ui = command_handler k w cmd ui"
  using batch_loop_fuel [OF assms(1) lessI] main_loop_fuel [of n k w input ui\<^sub>0 ui' "Suc (length input)"]
    main_loop_eof [of input n k w ui\<^sub>0 ui'] command_handler_nesting [of k w j] assms(2)
  unfolding settled_def by blast

theorem loops_of_the_interface_witness:
  "(\<forall>n ui ui'. main_loop n 1 demo_world [32, 10] ui \<noteq> Inr ui') \<and>
   command_handler 5 demo_world create_cmd (started demo_app) = Inr (True, demo_run)"
proof -
  have run: "command_handler 1 demo_world create_cmd (started demo_app) \<noteq> Inl Diverges"
    unfolding demo_run_facts(1) by simp
  have f: "length ([] :: byte list) < 1" by simp
  have "list_all isspace [32, 10 :: byte]" by (simp add: isspace_def)
  then have "main_loop n 1 demo_world [32, 10] ui \<noteq> Inr ui'" for n ui ui'
    using loops_of_the_interface [OF f run, of "\<lambda>c u. Inr (False, u)" n "[32, 10]" ui ui' 4] by blast
  moreover have "command_handler (1 + 4) demo_world create_cmd (started demo_app) = Inr (True, demo_run)"
    using loops_of_the_interface [OF f run] unfolding demo_run_facts(1) by blast
  ultimately show ?thesis by (simp del: main_loop.simps command_handler.simps)
qed

text \<open>C14: A batch file whose first line runs the file itself never ends, however deep the recursion goes: in an
  application that has been initialised, with the other threads at rest, and a file that can be opened again each time.\<close>

theorem batch_file_runs_itself:
  assumes "cmd_ok cmd" "cmd_command cmd = ascii ''batchFile''" "wo_file w (cmd_param cmd) = Some (cmd_text cmd @ rest)"
    and "wo_others w (ui_sys ui) = Inr (ui_sys ui)" "app_initialized (ui_app ui)"
  shows "command_handler k w cmd ui = Inl Diverges"
  by (rule batch_file_diverges [OF assms])

theorem batch_file_runs_itself_witness: "command_handler 7 self_world self_cmd (started demo_app) = Inl Diverges"
  using batch_file_runs_itself [OF self_cmd_facts self_world_idle] demo_app_facts(2) by (simp add: started_def)

section \<open>The memory that a process sees\<close>

text \<open>C15: A sequence of reads and writes through the MMU, of any pages that are allocated, gives the answers of a plain memory
  in which every page is always present, whatever is evicted and loaded on the way; no access fails, deadlocks or
  runs for ever. The plain memory (\<open>plain_steps\<close>) knows the pages with guaranteed contents, \<open>A\<close>. A page
  that is not among them, one that was allocated and not written since, reads as anything, and not always as the same (in a frame that was
  used before it may change when it is evicted); its first write fixes all of its bytes, and from then on
  it is known. When all pages of the sequence are known, the answers are exactly those of the function \<open>plain_run\<close>.\<close>

theorem mmu_refines_plain_memory:
  assumes "vm_inv vm" "A \<subseteq>\<^sub>m vm_view vm" "list_all (request_ok (vm_psize vm) (dom (vm_bk vm))) rs"
  shows "\<exists>ls vm' A'. vm_run mmu_read mmu_write rs vm = Inr (answers ls, vm') \<and> map fst ls = rs \<and>
           plain_steps (vm_psize vm) A ls A' \<and> A' \<subseteq>\<^sub>m vm_view vm' \<and>
           vm_inv vm' \<and> vm_psize vm' = vm_psize vm \<and> dom (vm_bk vm') = dom (vm_bk vm) \<and>
           (list_all (request_ok (vm_psize vm) (dom A)) rs \<longrightarrow>
              answers ls = fst (plain_run rs A) \<and> A' = snd (plain_run rs A))"
proof -
  obtain ls vm' A' where L: "vm_run mmu_read mmu_write rs vm = Inr (answers ls, vm')" "map fst ls = rs"
      "plain_steps (vm_psize vm) A ls A'" "vm_inv vm'" "vm_psize vm' = vm_psize vm" "dom (vm_bk vm') = dom (vm_bk vm)"
      "A' \<subseteq>\<^sub>m vm_view vm'"
    using vm.refines_plain [OF assms(1,2)] assms(3) unfolding dom_page_of by blast
  then show ?thesis using plain_steps_exact [OF L(3)] by blast
qed

theorem mmu_refines_plain_memory_witness:
  "\<exists>b vm'. vm_run mmu_read mmu_write [Rd demo_addr2 2, Wr demo_addr2 2 [1, 2], Rd demo_addr2 2] demo_vm = Inr ([b, [1, 2]], vm') \<and>
     length b = 2 \<and> vm_inv vm'"
proof -
  let ?rs = "[Rd demo_addr2 2, Wr demo_addr2 2 [1, 2], Rd demo_addr2 2]"
  obtain pg where "page_of (vm_mmu demo_vm) (vkey demo_addr2) = Some pg"
    using demo_vm_backed [of demo_addr2] by (auto simp: demo_addr2_def)
  then have "vkey demo_addr2 \<in> dom (vm_bk demo_vm)" by (metis dom_page_of domI)
  then have "list_all (request_ok (vm_psize demo_vm) (dom (vm_bk demo_vm))) ?rs"
    by (simp add: demo_vm_facts(2)) (simp add: demo_addr2_def)
  from mmu_refines_plain_memory [OF demo_vm_facts(1) map_le_empty this]
  obtain ls vm' A' where L: "vm_run mmu_read mmu_write ?rs demo_vm = Inr (answers ls, vm')" "map fst ls = ?rs"
      "plain_steps 4 Map.empty ls A'" "vm_inv vm'"
    unfolding demo_vm_facts(2) by (elim exE conjE) (rule that)
  then obtain b c d where ls: "ls = [(Rd demo_addr2 2, b), (Wr demo_addr2 2 [1, 2], c), (Rd demo_addr2 2, d)]"
    by (auto simp: map_eq_Cons_conv)
  have "answers ls = [b, [1, 2]]" "length b = 2"
    using L(3) by (auto simp: ls page_get_def page_put_def overwrite_def demo_addr2_def)
  with L(1,4) show ?thesis by auto
qed

text \<open>C16: Processes that use the memory at the same time do not disturb each other: whatever the order of
  the turns of their threads and of the page replacement manager, several of them holding the lock of the MMU
  for reading at once, the answers are those of one plain memory on which the accesses are done one after
  the other, in the order in which they were completed. Every process uses its own pages, which are all allocated; the
  plain memory is that of C15, in which a page that was not written since its allocation reads as anything.\<close>

theorem interleaved_accesses_are_atomic:
  assumes "vm_inv vm" "K \<subseteq> dom (vm_bk vm)" "A \<subseteq>\<^sub>m vm_view vm"
    and "th_run (vm_psize vm) K \<lparr>th_vm = vm, th_phase = \<lambda>_. Idle\<rparr> ls s"
  shows "\<exists>A'. plain_steps (vm_psize vm) A ls A' \<and> A' \<subseteq>\<^sub>m vm_view (th_vm s) \<and>
           (list_all (request_ok (vm_psize vm) (dom A)) (map fst ls) \<longrightarrow>
              answers ls = fst (plain_run (map fst ls) A) \<and> A' = snd (plain_run (map fst ls) A))"
proof -
  obtain A' where "plain_steps (vm_psize vm) A ls A'" "th_inv (vm_psize vm) K A' s"
    using th_run_ok [OF assms(4) th_start [OF assms(1-3)]] by blast
  then show ?thesis using plain_steps_exact by (auto simp: th_inv_def calm_def)
qed

theorem interleaved_accesses_are_atomic_witness:
  "\<exists>ls s. th_run 4 (dom (vm_bk demo_shared)) demo_threads ls s \<and> map fst ls = demo_requests \<and> answers ls = [[1, 2], [3, 4]]"
proof -
  obtain ls s where ls: "th_run 4 (dom (vm_bk demo_shared)) demo_threads ls s" "map fst ls = demo_requests"
    using demo_run by blast
  have "list_all (request_ok 4 (dom demo_pages)) (map fst ls)"
    unfolding ls(2) demo_shared_facts(4) by (simp add: demo_requests_def) (simp add: demo_addr_def demo_addr2_def)
  then show ?thesis
    using interleaved_accesses_are_atomic [OF demo_shared_facts(1) subset_refl demo_shared_facts(3), of ls s] demo_requests_answers ls
    by (auto simp: demo_shared_facts(2) demo_threads_def)
qed

text \<open>C17: However far the threads have come, none of them is stuck: the turn of every thread goes through
  without a fault; that of the manager, when it has a command, waits while a thread has a page pinned and
  goes through otherwise; and every access that has begun or is about to begin can be completed by its thread and
  the manager, when the threads that have a page pinned finish their accesses, whatever the others have asked for.
  Each thread uses pages of its own process, out of the allocated pages \<open>K\<close>.\<close>

theorem no_access_is_stuck:
  assumes "vm_inv vm" "K \<subseteq> dom (vm_bk vm)"
    and "th_run (vm_psize vm) K \<lparr>th_vm = vm, th_phase = \<lambda>_. Idle\<rparr> ls s" "own_request (vm_psize vm) K t r"
  shows "(\<exists>x. thread_turn (th_phase s t) r (th_vm s) = Inr x) \<and>
         (queue_list (prm_queue (vm_prm (th_vm s))) \<noteq> [] \<longrightarrow>
            (if pinners (th_phase s) = {} then \<exists>vm'. manager_turn (th_vm s) = Inr vm'
             else manager_turn (th_vm s) = Inl Deadlock)) \<and>
         completes (vm_psize vm) K s t (current (th_phase s t) r)"
proof -
  obtain A where inv: "th_inv (vm_psize vm) K A s"
    using th_run_ok [OF assms(3) th_start [OF assms(1,2) map_le_empty]] by blast
  show ?thesis using all_turns_ok [OF inv assms(4)] all_complete [OF inv assms(4)] by blast
qed

theorem no_access_is_stuck_witness:
  "\<exists>ls s. th_run 4 (dom (vm_bk demo_shared)) demo_threads ls s \<and> map fst ls = demo_requests \<and>
     completes 4 (dom (vm_bk demo_shared)) s 1 (current (th_phase s 1) (Rd demo_addr2 2))"
proof -
  obtain ls s where ls: "th_run 4 (dom (vm_bk demo_shared)) demo_threads ls s" "map fst ls = demo_requests"
    using demo_run by blast
  have own: "own_request (vm_psize demo_shared) (dom (vm_bk demo_shared)) 1 (Rd demo_addr2 2)"
    using demo_requests_own by (simp add: demo_shared_facts(2) demo_requests_def) (simp add: demo_addr2_def)
  show ?thesis
    using no_access_is_stuck [OF demo_shared_facts(1) subset_refl _ own, of ls s] ls
    by (auto simp: demo_shared_facts(2) demo_threads_def)
qed

text \<open>C18: What has been written to an allocated page is what the next read of the same bytes
  returns, also for a page that was never written before.\<close>

theorem read_returns_last_write:
  assumes "vm_inv vm" "page_of (vm_mmu vm) (vkey a) = Some pg"
    and "unat (va_offset a) + unat n \<le> vm_psize vm" "unat n = length buf"
  shows "\<exists>vm1 vm2. mmu_write vm a n buf = Inr (ecSuccess, vm1) \<and> mmu_read vm1 a n = Inr (ecSuccess, buf, vm2) \<and>
           vm_inv vm2"
proof -
  obtain vm1 where vm1: "mmu_write vm a n buf = Inr (ecSuccess, vm1)" "vm_inv vm1" "vm_psize vm1 = vm_psize vm"
      "vm_view vm1 (vkey a) = Some (page_put pg a n buf)"
    using mmu_write_ok [OF assms(1-3), of buf] assms(4) map_le_updD by (fastforce simp: access_def page_put_def)
  have "length pg = vm_psize vm" using page_of_length [OF _ assms(2)] assms(1) by (simp add: vm_inv_def)
  then have "page_get (page_put pg a n buf) a n = buf"
    using assms(3,4) by (simp add: page_get_def page_put_def overwrite_def)
  then show ?thesis using vm.rd_ok [OF vm1(2) vmem_page_of [OF vm1(4)]] vm1(1,3) assms(3) by metis
qed

theorem read_returns_last_write_witness:
  "\<exists>vm1 vm2. mmu_write (sys_vm demo_two) \<lparr>va_pid = 1, va_page = 2, va_offset = 0\<rparr> 4 [1, 2, 3, 4] = Inr (ecSuccess, vm1) \<and>
     mmu_read vm1 \<lparr>va_pid = 1, va_page = 2, va_offset = 0\<rparr> 4 = Inr (ecSuccess, [1, 2, 3, 4], vm2) \<and> vm_inv vm2"
proof -
  let ?a = "\<lparr>va_pid = 1, va_page = 2, va_offset = 0\<rparr>"
  obtain pg where "page_of (vm_mmu (sys_vm demo_two)) (vkey ?a) = Some pg" using demo_page [of ?a] by auto
  then show ?thesis
    using read_returns_last_write [of "sys_vm demo_two" ?a pg 4 "[1, 2, 3, 4]"] demo_two_facts(2,3)
    by (simp add: sys_inv_def)
qed

text \<open>C19: A write changes the bytes it names and nothing else: all other contents that the virtual
  memory guarantees, of any process, are as before.\<close>

theorem write_is_local:
  assumes "vm_inv vm" "page_of (vm_mmu vm) (vkey a) = Some pg"
    and "unat (va_offset a) + unat n \<le> vm_psize vm" "unat n \<le> length buf"
  shows "\<exists>vm'. mmu_write vm a n buf = Inr (ecSuccess, vm') \<and>
           vm_view vm' (vkey a) = Some (overwrite pg (unat (va_offset a)) (take (unat n) buf)) \<and>
           (\<forall>k pg'. k \<noteq> vkey a \<and> vm_view vm k = Some pg' \<longrightarrow> vm_view vm' k = Some pg')"
proof -
  obtain vm' where vm': "mmu_write vm a n buf = Inr (ecSuccess, vm')"
      "(vm_view vm)(vkey a \<mapsto> overwrite pg (unat (va_offset a)) (take (unat n) buf)) \<subseteq>\<^sub>m vm_view vm'"
    using mmu_write_ok [OF assms] by auto
  have "vm_view vm' k = Some pg'" if "k \<noteq> vkey a \<and> vm_view vm k = Some pg'" for k pg'
    using vm'(2) that unfolding map_le_def by (metis domI fun_upd_apply)
  then show ?thesis using vm'(1) map_le_updD [OF vm'(2)] by blast
qed

theorem write_is_local_witness:
  "\<exists>vm' pg. mmu_write demo_vm \<lparr>va_pid = 1, va_page = 0, va_offset = 3\<rparr> 1 [5] = Inr (ecSuccess, vm') \<and>
     vm_view demo_vm (vkey demo_addr) = Some pg \<and> vm_view vm' (vkey demo_addr) = Some pg"
proof -
  let ?a = "\<lparr>va_pid = 1, va_page = 0, va_offset = 3\<rparr>"
  obtain pg where pg: "vm_view demo_vm (vkey demo_addr) = Some pg" using demo_vm_facts(3) by blast
  obtain pg' where pg': "page_of (vm_mmu demo_vm) (vkey ?a) = Some pg'"
    using demo_vm_backed [of ?a] by auto
  have "vkey demo_addr \<noteq> vkey ?a" by (simp add: demo_addr_def vkey_def)
  then show ?thesis
    using write_is_local [OF demo_vm_facts(1) pg', of 1 "[5]"] demo_vm_facts(2) pg
    by (auto simp del: split_paired_All)
qed

section \<open>Page faults\<close>

text \<open>C20: A page fault on an allocated page that is not in memory is always served. With a spare frame
  the page gets the first spare one and nothing is evicted; with none, the only page that leaves is a
  page of smallest age, and its frame is reused. No page changes its contents, the loaded one included, but possibly the evicted
  one: from now on it holds what has been written back, its frame when it was dirty and its page of the
  disk otherwise. The two differ only for a page that got a used frame and was not written since; what is
  guaranteed (\<open>vmem\<close>) stays. The lock is free as before, and the loaded page agrees with its copy on the disk or will be written
  back.\<close>

theorem page_fault_is_served:
  assumes "mmu_inv m" "mmu_lock m = rw_free" "prm_idle p"
    and "m_abs m (vkey a) = None" "m_bk m (vkey a) = Some b"
  shows "\<exists>m' p'. prm_pagefault m p a = Inr (ecSuccess, m', p') \<and> prm_idle p' \<and> mmu_inv m' \<and>
           mmu_lock m' = rw_free \<and> m_bk m' = m_bk m \<and> vmem m \<subseteq>\<^sub>m vmem m' \<and> stable m' (vkey a) \<and>
           (case m_spare m of
              f # F \<Rightarrow> m_abs m' = (m_abs m)(vkey a \<mapsto> f) \<and> m_spare m' = F \<and> page_of m' = page_of m
            | [] \<Rightarrow> \<exists>f v. is_oldest (m_pd m) (mm_frames (mmu_mem m)) (vkey a) f \<and> v = vkey (pd_addr (m_pd m f)) \<and>
                       m_abs m' = (m_abs m)(v := None, vkey a \<mapsto> f) \<and> m_spare m' = [] \<and>
                       page_of m' = (page_of m)(v \<mapsto> (if pd_dirty (m_pd m f) then mm_page (mmu_mem m) f
                                                     else disk_page (mmu_disk m) (nat (the (m_bk m v))))))"
proof -
  obtain m' p' where "prm_pagefault m p a = Inr (ecSuccess, m', p')" "prm_idle p'" "mmu_inv m'" "same_rest m m'"
      "fault_exact m (vkey a) m'" "vmem m \<subseteq>\<^sub>m vmem m'" "stable m' (vkey a)"
    using prm_pagefault_ok [OF assms] by blast
  then show ?thesis using assms(2)
    by (intro exI [of _ m'] exI [of _ p'], cases "m_spare m") (auto simp: same_rest_def fault_exact_def written_back_def)
qed

theorem page_fault_is_served_witness:
  "\<exists>m' p' f. prm_pagefault demo_mmu demo_prm (page_addr 2) = Inr (ecSuccess, m', p') \<and> m_abs m' (0, 2) = Some f"
proof -
  have k: "m_abs demo_mmu (vkey (page_addr 2)) = None" "m_bk demo_mmu (vkey (page_addr 2)) = Some 2"
    by (simp_all add: demo_mmu_facts(3,4))
  show ?thesis
    using page_fault_is_served [OF demo_mmu_facts(1,2) demo_prm_idle k] demo_mmu_facts(5) by auto
qed

text \<open>C21: The page chosen for eviction is mapped, is not the page to be loaded, and no mapped page is
  older; among equally old pages it is the one in the first frame. The choice changes nothing but
  the bookkeeping of the search.\<close>

theorem victim_is_oldest:
  assumes "mmu_inv m" "evictable (m_pd m) (vkey a) i" "i < mm_frames (mmu_mem m)"
  shows "\<exists>v m' s' k. get_page_to_swap m s a = Inr (v, m', s') \<and> vkey v \<noteq> vkey a \<and> m_abs m (vkey v) = Some k \<and>
           (\<forall>j < mm_frames (mmu_mem m). pd_valid (m_pd m j) \<and> vkey (pd_addr (m_pd m j)) \<noteq> vkey a \<longrightarrow>
              pd_page_age (m_pd m k) \<le> pd_page_age (m_pd m j) \<and>
              (j < k \<longrightarrow> pd_page_age (m_pd m k) < pd_page_age (m_pd m j))) \<and>
           m_abs m' = m_abs m \<and> m_spare m' = m_spare m \<and> m_pd m' = m_pd m"
proof -
  obtain v m' s' k where v: "get_page_to_swap m s a = Inr (v, m', s')"
      "is_oldest (m_pd m) (mm_frames (mmu_mem m)) (vkey a) k" "v = pd_addr (m_pd m k)" "m_abs m (vkey v) = Some k"
      "m_abs m' = m_abs m" "m_spare m' = m_spare m" "m_pd m' = m_pd m"
    using get_page_to_swap_ok [OF assms] by blast
  then show ?thesis
    by (intro exI [of _ v] exI [of _ m'] exI [of _ s'] exI [of _ k]) (auto simp: is_oldest_def evictable_def)
qed

theorem victim_is_oldest_witness:
  "\<exists>v m' s' k. get_page_to_swap demo_mmu (prm_oldest demo_prm) (page_addr 2) = Inr (v, m', s') \<and>
     m_abs demo_mmu (vkey v) = Some k"
  using victim_is_oldest [OF demo_mmu_facts(1) demo_evictable, of "prm_oldest demo_prm"] by blast

text \<open>C22: A second command for a page that an earlier one has already brought in makes the page
  replacement thread fail its assertion.\<close>

theorem second_fault_aborts:
  assumes "mmu_inv m" "mmu_lock m = rw_free" "m_abs m (vkey a) = Some f"
  shows "prm_serve m s a = Inl AssertFailed"
  by (rule prm_serve_mapped [OF assms])

theorem second_fault_aborts_witness:
  "prm_serve demo_mmu (prm_oldest demo_prm) (page_addr 1) = Inl AssertFailed"
  by (rule second_fault_aborts [of _ _ 1]) (simp_all add: demo_mmu_facts)

text \<open>C23: Every access, a read and a write, counts one reference, and a hit exactly when its page was in memory; the
  page is in memory afterwards. This holds while the two counters, which are \<^verbatim>\<open>int\<close>s, are below their greatest value.\<close>

theorem accesses_are_counted:
  assumes "vm_inv vm" "page_of (vm_mmu vm) (vkey a) = Some pg" "unat (va_offset a) + unat n \<le> vm_psize vm"
    and "unat n \<le> length buf"
    and "st_nrefs (mmu_stats (vm_mmu vm)) < 2 ^ 31 - 1" "st_hits (mmu_stats (vm_mmu vm)) < 2 ^ 31 - 1"
  defines "counted vm' \<equiv>
      st_nrefs (mmu_stats (vm_mmu vm')) = st_nrefs (mmu_stats (vm_mmu vm)) + 1 \<and> st_nrefs (mmu_stats (vm_mmu vm')) < 2 ^ 31 \<and>
      st_hits (mmu_stats (vm_mmu vm')) = st_hits (mmu_stats (vm_mmu vm)) +
        (if m_abs (vm_mmu vm) (vkey a) \<noteq> None then 1 else 0) \<and> st_hits (mmu_stats (vm_mmu vm')) < 2 ^ 31 \<and>
      m_abs (vm_mmu vm') (vkey a) \<noteq> None"
  shows "(\<exists>vm'. mmu_read vm a n = Inr (ecSuccess, take (unat n) (drop (unat (va_offset a)) pg), vm') \<and> counted vm') \<and>
         (\<exists>vm'. mmu_write vm a n buf = Inr (ecSuccess, vm') \<and> counted vm')"
proof -
  have "counted vm'" if "access vm (vkey a) vm'" for vm'
  proof -
    have pin: "pin_effect (vm_mmu vm) (vkey a) (vm_mmu vm')" using that by (simp add: access_def)
    then have "m_abs (vm_mmu vm') (vkey a) \<noteq> None"
      using fault_effect_mapped [of "vm_mmu vm" "vkey a"] by (auto simp: pin_effect_def split: if_splits)
    then show ?thesis using pin assms(5,6) by (simp add: counted_def pin_effect_def count_ref_def split: if_splits)
  qed
  then show ?thesis using mmu_read_ok [OF assms(1-3)] mmu_write_ok [OF assms(1-4)] by blast
qed

theorem accesses_are_counted_witness:
  "(\<exists>vm' b. mmu_read demo_small (page_addr 2) 2 = Inr (ecSuccess, b, vm') \<and> st_nrefs (mmu_stats (vm_mmu vm')) = 1) \<and>
   (\<exists>vm'. mmu_write demo_small (page_addr 2) 2 [5, 6] = Inr (ecSuccess, vm') \<and> st_nrefs (mmu_stats (vm_mmu vm')) = 1)"
proof -
  obtain pg where pg: "page_of (vm_mmu demo_small) (vkey (page_addr 2)) = Some pg" using demo_small_facts(3) by blast
  have fit: "unat (va_offset (page_addr 2)) + unat (2 :: u32) \<le> vm_psize demo_small"
    by (simp add: page_addr_def demo_small_facts(2))
  show ?thesis
    using accesses_are_counted [OF demo_small_facts(1) pg fit, of "[5, 6]"] demo_small_facts(4) by auto
qed

section \<open>Ageing\<close>

text \<open>C24: When enough references have been made, the ageing daemon ages every mapped page once and the
  count starts again at zero; before that nothing happens. No contents and no mapping change.\<close>

theorem ageing_round:
  assumes "vm_inv vm"
  shows "\<exists>m' ag'. mmu_age_pages_if_needed vm = Inr (ecSuccess, vm\<lparr>vm_mmu := m', vm_aging := ag'\<rparr>) \<and>
           vm_inv (vm\<lparr>vm_mmu := m', vm_aging := ag'\<rparr>) \<and> m_abs m' = m_abs (vm_mmu vm) \<and> vmem m' = vm_view vm \<and>
           (if ipt_ref_count (mmu_mem_ipt (vm_mmu vm)) \<ge> mmu_aging_freq (vm_mmu vm)
            then ipt_ref_count (mmu_mem_ipt m') = 0 \<and>
                 (\<forall>k. m_pd m' k = (if k < mm_frames (mmu_mem (vm_mmu vm)) \<and> pd_valid (m_pd (vm_mmu vm) k)
                                 then age_page (word_of_int (int k)) (m_pd (vm_mmu vm) k) else m_pd (vm_mmu vm) k))
            else m' = vm_mmu vm)"
proof -
  obtain m' ag' where "mmu_age_pages_if_needed vm = Inr (ecSuccess, vm\<lparr>vm_mmu := m', vm_aging := ag'\<rparr>)"
      "vm_inv (vm\<lparr>vm_mmu := m', vm_aging := ag'\<rparr>)" "ipt_only (vm_mmu vm) m'" "vmem m' = vm_view vm"
      "if ipt_ref_count (mmu_mem_ipt (vm_mmu vm)) \<ge> mmu_aging_freq (vm_mmu vm)
       then ipt_ref_count (mmu_mem_ipt m') = 0 \<and> m_pd m' = aged (mm_frames (mmu_mem (vm_mmu vm))) (m_pd (vm_mmu vm))
       else m' = vm_mmu vm"
    using age_if_needed_ok [OF assms] by blast
  then show ?thesis using ipt_only_facts(4)
    by (intro exI [of _ m'] exI [of _ ag']) (simp add: aged_def split: if_splits)
qed

theorem ageing_round_witness:
  "\<exists>m' ag'. mmu_age_pages_if_needed demo_vm = Inr (ecSuccess, demo_vm\<lparr>vm_mmu := m', vm_aging := ag'\<rparr>)"
  using ageing_round [OF demo_vm_facts(1)] by blast

text \<open>C25: A page that was referenced since the last round is younger after it than every page that was
  not; among pages of which both or neither were referenced the order of the ages never turns round.\<close>

theorem ageing_prefers_referenced:
  assumes "pd_referenced q \<longrightarrow> pd_referenced p" "pd_page_age q \<le> pd_page_age p \<or> pd_referenced p \<and> \<not> pd_referenced q"
  shows "pd_page_age (age_page a q) \<le> pd_page_age (age_page b p) \<and>
         (pd_referenced p \<and> \<not> pd_referenced q \<longrightarrow> pd_page_age (age_page a q) < pd_page_age (age_page b p))"
  using age_page_mono [OF assms(1)] age_page_less [of p q] assms(2) by (auto simp: order_less_imp_le)

theorem ageing_prefers_referenced_witness:
  "pd_page_age (age_page 0 (zero_page_data\<lparr>pd_page_age := 0xFFFFFFFF\<rparr>)) <
   pd_page_age (age_page 1 (zero_page_data\<lparr>pd_referenced := True\<rparr>))"
  using ageing_prefers_referenced [of "zero_page_data\<lparr>pd_page_age := 0xFFFFFFFF\<rparr>"
      "zero_page_data\<lparr>pd_referenced := True\<rparr>" 0 1]
  by (simp add: zero_page_data_def)

section \<open>The inverted page table\<close>

text \<open>C26: In every page table that the operations make out of a new one, pages added, removed, referenced, searched and aged in any
  order, every frame is either on the free list or holds exactly one page: nothing is lost and nothing
  is used twice. None of the operations that move frames faults on such a table.\<close>

theorem frames_are_partitioned:
  assumes "ipt_reachable n t" "0 < n" "n < 2 ^ 31"
  shows "set (ipt_spare t) \<union> ran (ipt_abs t) = {..<n} \<and> set (ipt_spare t) \<inter> ran (ipt_abs t) = {} \<and>
         distinct (ipt_spare t) \<and> (\<forall>a b k. ipt_abs t a = Some k \<and> ipt_abs t b = Some k \<longrightarrow> a = b) \<and>
         length (ipt_spare t) + card (ran (ipt_abs t)) = n \<and>
         (\<exists>ec t'. ipt_remove t a = Inr (ec, t')) \<and>
         (ipt_has_translation t a = Inr False \<longrightarrow>
            (\<exists>t'. ipt_add t a = Inr (if ipt_spare t = [] then ecFail else ecSuccess, t')))"
proof -
  have inv: "ipt_inv t" "ipt_n t = n" using ipt_reachable_inv [OF assms] by blast+
  show ?thesis
    using ft.partition [OF inv(1)] ft.spare_distinct [OF inv(1)] ft.frame_inj [OF inv(1)] ft.frames_balance [OF inv(1)]
      ipt_reachable_runs [OF assms] unfolding inv(2) by blast
qed

theorem frames_are_partitioned_witness:
  "ipt_reachable 2 demo_ipt_two \<and> ran (ipt_abs demo_ipt_two) = {..<2} \<and> (\<exists>ec t'. ipt_remove demo_ipt_two (page_addr 0) = Inr (ec, t'))"
  using frames_are_partitioned [OF demo_ipt_two_reachable, of "page_addr 0"] demo_ipt_two_reachable demo_ipt_two_facts(3) by simp

text \<open>C27: The lookup through hash table and chain finds a page exactly when one of the entries holds it,
  and translates it to that entry's frame; a page that is not there makes the assertion fail.\<close>

theorem lookup_equals_search:
  assumes "ipt_inv ipt"
  shows "ipt_has_translation ipt addr = Inr (\<exists>k < ipt_n ipt. ipt_valid ipt k \<and> ipt_key ipt k = vkey addr) \<and>
         ipt_translate ipt addr = (case find (\<lambda>k. ipt_valid ipt k \<and> ipt_key ipt k = vkey addr) [0..<ipt_n ipt] of
           None \<Rightarrow> Inl AssertFailed | Some k \<Rightarrow> Inr (ecSuccess, word_of_int (int k)))"
  using ft.has_ok [OF assms] ft.translate_ok [OF assms] ipt_abs_None [of ipt "vkey addr"]
  by (auto simp: ipt_abs_def)

theorem lookup_equals_search_witness:
  "ipt_has_translation demo_ipt (page_addr 5) = Inr False"
  using lookup_equals_search [OF demo_ipt_facts(1), of "page_addr 5"] ipt_abs_None [of demo_ipt "vkey (page_addr 5)"]
    demo_ipt_facts(3) by auto

text \<open>C28: Adding a page that is absent takes the first spare frame, enters the page with fresh page data
  and leaves every other page where it is.\<close>

theorem ipt_add_maps:
  assumes "ipt_inv ipt" "ipt_abs ipt (vkey addr) = None" "ipt_spare ipt = k # F"
  shows "\<exists>ipt'. ipt_add ipt addr = Inr (ecSuccess, ipt') \<and> ipt_inv ipt' \<and>
           ipt_translate ipt' addr = Inr (ecSuccess, word_of_int (int k)) \<and>
           ipt_abs ipt' = (ipt_abs ipt)(vkey addr \<mapsto> k) \<and> ipt_spare ipt' = F \<and>
           ipt_pd ipt' = (ipt_pd ipt)(k := fresh_pd addr (ipt_pd ipt k))"
  using ipt_add_ok [OF assms] ipt_translate_inv [of _ addr] by fastforce

theorem ipt_add_maps_witness:
  "\<exists>t. ipt_add demo_ipt (page_addr 3) = Inr (ecSuccess, t) \<and> ipt_translate t (page_addr 3) = Inr (ecSuccess, 0)"
  using ipt_add_maps [OF demo_ipt_facts(1) _ demo_ipt_facts(4), of "page_addr 3"] demo_ipt_facts(3) by auto

text \<open>C29: Removing a page gives its frame back at the end of the free list, for every position of the
  page in its chain; the other pages stay. Removing an absent page changes nothing.\<close>

theorem ipt_remove_unmaps:
  assumes "ipt_inv ipt"
  shows "\<exists>ec ipt'. ipt_remove ipt addr = Inr (ec, ipt') \<and> ipt_inv ipt' \<and>
           ipt_abs ipt' = (ipt_abs ipt)(vkey addr := None) \<and>
           (case ipt_abs ipt (vkey addr) of
              None \<Rightarrow> ec = ecNotFound \<and> ipt' = ipt
            | Some k \<Rightarrow> ec = ecSuccess \<and> ipt_spare ipt' = ipt_spare ipt @ [k])"
proof (cases "ipt_abs ipt (vkey addr)")
  case None
  then show ?thesis using ipt_remove_absent [OF assms None] assms by (auto simp: fun_upd_idem)
next
  case (Some k)
  then show ?thesis using ipt_remove_ok [OF assms Some] by auto
qed

theorem ipt_remove_unmaps_witness:
  "\<exists>t. ipt_remove demo_ipt_two (page_addr 0) = Inr (ecSuccess, t) \<and> ipt_abs t (0, 0) = None \<and>
     ipt_abs t (0, 1) = Some 1 \<and> ipt_spare t = [0]"
  using ipt_remove_unmaps [OF demo_ipt_two_facts(1), of "page_addr 0"] demo_ipt_two_facts(2,3) by auto

section \<open>Allocation\<close>

text \<open>C30: Allocating consecutive pages backs every one of them by the next disk page, whether or not
  there are frames for them, and freeing the same pages afterwards restores the allocation; what is guaranteed of other
  contents stays in both.\<close>

theorem allocate_then_free:
  assumes "mmu_inv m" "mmu_lock m = rw_free" "0 \<le> n" "n < 2 ^ 31"
    and "page_keys a (nat n) \<inter> dom (m_bk m) = {}"
    and "\<And>i. i < nat n \<Longrightarrow> 0 \<le> b + int i \<and> disk_live (mmu_disk m) (nat (b + int i)) \<and> b + int i \<notin> ran (m_bk m)"
  shows "\<exists>m1 m2. mmu_alloc_multiple off m a n b = Inr (ecSuccess, m1) \<and> mmu_inv m1 \<and>
           (\<forall>i < nat n. m_bk m1 (page_key a i) = Some (b + int i)) \<and> vmem m \<subseteq>\<^sub>m vmem m1 \<and>
           mmu_free_multiple off m1 a n = Inr (ecSuccess, m2) \<and> mmu_inv m2 \<and> m_bk m2 = m_bk m \<and>
           vmem m \<subseteq>\<^sub>m vmem m2"
  by (rule alloc_free_multiple [OF assms])

theorem allocate_then_free_witness:
  "\<exists>m1 m2. mmu_alloc_multiple 0 demo_mmu_new (page_addr 0) 3 0 = Inr (ecSuccess, m1) \<and>
     m_bk m1 (0, 2) = Some 2 \<and> mmu_free_multiple 0 m1 (page_addr 0) 3 = Inr (ecSuccess, m2) \<and> m_bk m2 = Map.empty"
proof -
  have pages: "0 \<le> 0 + int i \<and> disk_live (mmu_disk demo_mmu_new) (nat (0 + int i)) \<and> 0 + int i \<notin> ran (m_bk demo_mmu_new)"
    if "i < nat 3" for i
    using that by (simp add: demo_mmu_new_facts demo_disk_facts)
  obtain m1 m2 where m: "mmu_alloc_multiple 0 demo_mmu_new (page_addr 0) 3 0 = Inr (ecSuccess, m1)"
      "\<forall>i < nat 3. m_bk m1 (page_key (page_addr 0) i) = Some (0 + int i)"
      "mmu_free_multiple 0 m1 (page_addr 0) 3 = Inr (ecSuccess, m2)" "m_bk m2 = m_bk demo_mmu_new"
    using allocate_then_free [OF demo_mmu_new_facts(1,2), of 3 "page_addr 0" 0 0] pages demo_mmu_new_facts(3) by auto
  have "page_key (page_addr 0) 2 = (0, 2)" by (simp add: page_key_def page_addr_def)
  then have "m_bk m1 (0, 2) = Some 2" using m(2) [rule_format, of 2] by simp
  then show ?thesis using m demo_mmu_new_facts(3) by auto
qed

section \<open>The disk and the memory\<close>

text \<open>C31: A process block is allocated first-fit: the first free block is found, its pages and no others
  become allocated, and freeing it restores the allocation.\<close>

theorem disk_block_first_fit:
  assumes "disk_inv d" "disk_blocks d K" "k < disk_nblocks d" "k \<notin> K" "\<And>j. j < k \<Longrightarrow> j \<in> K"
  shows "\<exists>d1 d2. disk_alloc_process_block d = Inr (ecSuccess, int (k * disk_bsize d), d1) \<and> disk_inv d1 \<and>
           disk_blocks d1 (insert k K) \<and>
           disk_free_process_block d1 (int (k * disk_bsize d)) = Inr (ecSuccess, d2) \<and> disk_inv d2 \<and> disk_blocks d2 K"
proof -
  obtain d1 where d1: "disk_alloc_process_block d = Inr (ecSuccess, int (k * disk_bsize d), d1)" "disk_inv d1"
      "same_disk d d1" "disk_blocks d1 (insert k K)"
    using disk_alloc_found [OF assms] by blast
  have b: "disk_bsize d1 = disk_bsize d" using d1(3) unfolding same_disk_def by (cases d; cases d1) simp
  show ?thesis using disk_free_found [OF d1(2,4), of k] d1 assms(4) unfolding b by auto
qed

theorem disk_block_first_fit_witness:
  "\<exists>d1 d2. disk_alloc_process_block demo_disk = Inr (ecSuccess, 3, d1) \<and> disk_blocks d1 {0, 1} \<and>
     disk_free_process_block d1 3 = Inr (ecSuccess, d2) \<and> disk_blocks d2 {0}"
  using disk_block_first_fit [OF demo_disk_facts(2,3), of 1] demo_disk_facts(4,5) by (auto simp: insert_commute)

text \<open>C32: With every block in use an allocation never succeeds. It fails properly when pages are left
  behind the last block or when the number of pages is no multiple of eight; otherwise the search
  reads past the end of the bitmap.\<close>

theorem disk_full:
  assumes "disk_inv d" "disk_blocks d {..<disk_nblocks d}"
  shows "if disk_pages d mod disk_bsize d \<noteq> 0 then \<exists>p. disk_alloc_process_block d = Inr (ecFail, p, d)
         else if d_npages d mod 8 \<noteq> 0 then disk_alloc_process_block d = Inr (ecFail, - 1, d)
         else disk_alloc_process_block d = Inl OutOfBounds"
  using disk_alloc_leftover [OF assms] disk_alloc_full [OF assms] disk_alloc_overrun [OF assms] by simp

theorem disk_full_witness:
  "\<exists>d p. disk_blocks d {0, 1} \<and> disk_alloc_process_block d = Inr (ecFail, p, d)"
proof -
  obtain d where d: "disk_inv d" "disk_blocks d {0, 1}" "same_disk demo_disk d"
    using disk_alloc_found [OF demo_disk_facts(2,3), of 1] demo_disk_facts(4) by (auto simp: insert_commute)
  then obtain bm where bm: "d = demo_disk\<lparr>d_alloc_bitmap := bm\<rparr>" by (auto simp: same_disk_def)
  have sz: "disk_pages d = 7" "disk_bsize d = 3" using demo_disk_facts(5,6) by (simp_all add: bm)
  then have n: "disk_nblocks d = 2" by (simp add: disk_nblocks_def)
  have "{..<disk_nblocks d} = {0, 1}" unfolding n by auto
  with disk_full [OF d(1)] d(2) sz show ?thesis by auto
qed

text \<open>C33: A page written to the disk is read back as it was written, the other allocated pages are
  unchanged, and a page that is not allocated can be neither read nor written.\<close>

theorem disk_page_round_trip:
  assumes "disk_inv d" "disk_live d i" "length buf = disk_psize d" "disk_live d j" "\<not> disk_live d u" "u < disk_pages d"
  shows "\<exists>d'. disk_set_page d (int i) buf = Inr (ecSuccess, d') \<and> disk_inv d' \<and>
           disk_get_page d' (int j) = Inr (ecSuccess, Some (if j = i then buf else disk_page d j), d') \<and>
           disk_get_page d' (int u) = Inr (ecFail, None, d') \<and> disk_set_page d' (int u) buf = Inr (ecFail, d')"
proof -
  obtain d' where d': "disk_set_page d (int i) buf = Inr (ecSuccess, d')" "disk_inv d'" "disk_live d' = disk_live d"
      "disk_pages d' = disk_pages d" "\<forall>j < disk_pages d. disk_page d' j = (if j = i then buf else disk_page d j)"
    using dp.put_ok [OF assms(1-3)] by blast
  then show ?thesis
    using assms(4-6) dp.get_ok [OF d'(2), of j] dp.refused [OF d'(2), of u] dp.live_inside [OF assms(1,4)] by simp
qed

theorem disk_page_round_trip_witness:
  "\<exists>d'. disk_set_page demo_disk 1 [1, 2, 3, 4] = Inr (ecSuccess, d') \<and>
     disk_get_page d' 1 = Inr (ecSuccess, Some [1, 2, 3, 4], d') \<and> disk_get_page d' 5 = Inr (ecFail, None, d')"
  using disk_page_round_trip [OF demo_disk_facts(2), of 1 "[1, 2, 3, 4]" 1 5] demo_disk_facts(6-8) by auto

section \<open>Containers\<close>

text \<open>C34: The linked queue is first-in first-out: an item is appended at the end, the item that a pop
  returns is the first one. A push returns 1 exactly when the queue was empty.\<close>

theorem queue_is_fifo:
  assumes "queue_inv q"
  shows "\<exists>q1 y q2. queue_push q x = Inr (if queue_list q = [] then 1 else 0, q1) \<and> queue_inv q1 \<and>
           queue_list q1 = queue_list q @ [x] \<and> queue_size q1 = queue_size q + 1 \<and>
           queue_pop q1 = Inr (Some y, q2) \<and> queue_inv q2 \<and> y # queue_list q2 = queue_list q @ [x]"
proof -
  obtain q1 where q1: "queue_push q x = Inr (if queue_list q = [] then 1 else 0, q1)" "queue_inv q1"
      "queue_list q1 = queue_list q @ [x]"
    using fq.push_ok [OF assms] by blast
  obtain y ys where y: "queue_list q @ [x] = y # ys" by (cases "queue_list q @ [x]") auto
  obtain q2 where "queue_pop q1 = Inr (Some y, q2)" "queue_inv q2" "queue_list q2 = ys"
    using fq.pop_cons [OF q1(2), of y ys] q1(3) y by auto
  moreover have "queue_size q1 = queue_size q + 1"
    unfolding fq.count_ok [OF assms] fq.count_ok [OF q1(2)] q1(3) by simp
  ultimately show ?thesis using q1 y by auto
qed

theorem queue_is_fifo_witness:
  "\<exists>q q1 q2. queue_init (\<lambda>_. False) = Inr q \<and> queue_push q (5 :: nat) = Inr (1, q1) \<and> queue_pop q1 = Inr (Some 5, q2)"
proof -
  obtain q :: "nat queue_t" where q: "queue_init (\<lambda>_. False) = Inr q" "queue_inv q" "queue_list q = []"
    using queue_init_ok [of "\<lambda>_. False"] by auto
  show ?thesis using queue_is_fifo [OF q(2), of 5] q(1,3) by auto
qed

text \<open>C35: The map stores and forgets by key class: a lookup after an insertion finds the new value for
  equal keys and is unchanged for all others; after a removal the key is not found.\<close>

theorem map_lookup_after_update:
  assumes "map_inv kc m"
  shows "\<exists>m1 m2. map_set m k v = Inr (ecSuccess, m1) \<and> map_inv kc m1 \<and>
           map_get m1 k' True = (if kc k' = kc k then Inr (ecSuccess, Some v) else map_get m k' True) \<and>
           map_remove m1 k = Inr (ecSuccess, m2) \<and> map_inv kc m2 \<and> map_get m2 k True = Inr (ecNotFound, None) \<and>
           (kc k' \<noteq> kc k \<longrightarrow> map_get m2 k' True = map_get m k' True)"
proof -
  obtain m1 where m1: "map_set m k v = Inr (ecSuccess, m1)" "map_inv kc m1" "map_abs kc m1 = (map_abs kc m)(kc k \<mapsto> v)"
    using ks.store_ok [OF assms] by blast
  obtain m2 where m2: "map_remove m1 k = Inr (ecSuccess, m2)" "map_inv kc m2" "map_abs kc m2 = (map_abs kc m1)(kc k := None)"
    using ks.discard_ok [OF m1(2), of k] m1(3) by auto
  show ?thesis using m1 m2 ks.fetch_ok [OF assms] ks.fetch_ok [OF m1(2)] ks.fetch_ok [OF m2(2)] by auto
qed

theorem map_lookup_after_update_witness:
  "\<exists>m1. map_set (snd (map_init 4 4 (\<lambda>x y. x \<noteq> y)) :: (nat, int) map_t) 3 7 = Inr (ecSuccess, m1) \<and>
     map_get m1 3 True = Inr (ecSuccess, Some 7)"
  using map_lookup_after_update [OF map_init_inv [of "\<lambda>x. x" 4 4], of 3 7 3] by auto

text \<open>C36: On a bitmap without a clear bit whose size is a multiple of eight the search reads past the end
  of the blocks; with any other size it reports that nothing was found.\<close>

theorem bitmap_search_overrun:
  assumes "bitmap_inv bm" "\<And>i. int i < bm_size bm \<Longrightarrow> bm_bit bm i"
  shows "bitmap_first_clear bm = (if bm_size bm mod 8 = 0 then Inl OutOfBounds else Inr (ecNotFound, - 1))"
  using bitmap_first_clear_full [OF assms] bitmap_first_clear_overrun [OF assms] by auto

theorem bitmap_search_overrun_witness:
  "bitmap_first_clear \<lparr>bm_data = [0xFF], bm_size = 8\<rparr> = Inl OutOfBounds"
proof -
  have "bitmap_inv \<lparr>bm_data = [0xFF], bm_size = 8\<rparr>" by (simp add: bitmap_inv_def)
  moreover have "bm_bit \<lparr>bm_data = [0xFF], bm_size = 8\<rparr> i" if "int i < 8" for i
    using that byte_eq_ff_iff [of "0xFF"] by (simp add: bm_bit_def)
  ultimately show ?thesis using bitmap_search_overrun [of "\<lparr>bm_data = [0xFF], bm_size = 8\<rparr>"] by simp
qed

section \<open>Addresses, locks and threads\<close>

text \<open>C37: Advancing an address by \<open>n\<close> bytes carries into the page number as often as the offset passes
  the page size, and ends with an offset inside the page.\<close>

theorem advance_carries:
  assumes "0 < ps" "ps < 2 ^ 31" "unat (va_offset a) < ps" "n < 2 ^ 31"
  shows "advance_virt_addr a (int n) (int ps) = Inr (a\<lparr>
    va_page := va_page a + word_of_int (int ((unat (va_offset a) + n) div ps)),
    va_offset := word_of_int (int ((unat (va_offset a) + n) mod ps))\<rparr>)"
  by (rule advance_virt_addr_ok [OF assms])

theorem advance_carries_witness:
  "advance_virt_addr \<lparr>va_pid = 1, va_page = 4, va_offset = 3\<rparr> 10 4 = Inr \<lparr>va_pid = 1, va_page = 7, va_offset = 1\<rparr>"
  using advance_carries [of 4 "\<lparr>va_pid = 1, va_page = 4, va_offset = 3\<rparr>" 10] by simp

text \<open>C38: The loop of a worker thread calls its function until the function or another thread asks it to
  stop, and then ends: the state is that after exactly so many calls, the thread is marked as not
  running and its lock is free.\<close>

theorem worker_thread_stops:
  assumes "wt_lock thread = rw_free" "\<not> wt_stop thread" "n < k"
    and "\<And>i. i < n \<Longrightarrow> \<exists>s'. iterate_call call i s = Inr (False, s') \<and> \<not> env i"
    and "iterate_call call n s = Inr (b, s1)" "b \<or> env n"
  shows "\<exists>thread'. worker_thread_func k call env thread s = Inr (wt_arg thread, thread', s1) \<and>
           wt_lock thread' = rw_free \<and> \<not> wt_running thread'"
  by (rule worker_thread_func_stops [OF assms])

theorem worker_thread_stops_witness:
  "\<exists>thread'. worker_thread_func 5 (\<lambda>s. Inr (s = 2, s + 1)) (\<lambda>_. False) (prc_thrd zero_process) (0 :: nat) =
     Inr (None, thread', 3) \<and> \<not> wt_running thread'"
proof -
  have run: "iterate_call (\<lambda>s. Inr (s = 2, s + 1)) i s = Inr (s + i = 2, s + i + 1)" for i and s :: nat
    by (induction i arbitrary: s) simp_all
  have "\<exists>thread'. worker_thread_func 5 (\<lambda>s. Inr (s = 2, s + 1)) (\<lambda>_. False) (prc_thrd zero_process) (0 :: nat) =
     Inr (wt_arg (prc_thrd zero_process), thread', 3) \<and> wt_lock thread' = rw_free \<and> \<not> wt_running thread'"
    by (rule worker_thread_stops [where n = 2 and b = True]) (simp_all only: run, simp_all add: zero_process_def)
  moreover have "wt_arg (prc_thrd zero_process) = None" by (simp add: zero_process_def)
  ultimately show ?thesis by auto
qed

section \<open>Building the simulator\<close>

text \<open>C39: From a configuration file whose numbers are positive and make the memory and the disk fit into
  an \<^verbatim>\<open>int\<close>, and with a system that grants its requests, a simulator is built that satisfies the
  invariants of all components: no process, no page allocated, the sizes of the file.\<close>

theorem loading_establishes_invariant:
  assumes "config_ok (scan_config junk f)" "env_ok env" "\<not> app_initialized app"
  shows "\<exists>app'. load_app_data env file_name (Some f) junk app = Inr (True, app') \<and> app_initialized app' \<and>
           sys_inv (app_sys app') \<and> vm_bk (sys_vm (app_sys app')) = Map.empty \<and>
           vm_psize (sys_vm (app_sys app')) = unat (cf_page_size (scan_config junk f)) \<and>
           length (pc_list (sys_cont (app_sys app'))) = unat (cf_nproc (scan_config junk f)) \<and>
           (\<forall>i. \<not> live_slot (pc_list (sys_cont (app_sys app'))) i)"
  using load_config_ok [OF assms(1,2), of app] assms(3) by (auto simp: load_app_data_def)

theorem loading_establishes_invariant_witness:
  "\<exists>app'. load_app_data demo_env (ascii ''a.cfg'') (Some (config_text demo_config)) demo_config blank_app =
     Inr (True, app') \<and> sys_inv (app_sys app') \<and> vm_psize (sys_vm (app_sys app')) = 4"
  using loading_establishes_invariant [of demo_config "config_text demo_config" demo_env blank_app "ascii ''a.cfg''"]
    demo_config_ok demo_env_ok by (auto simp: scan_config_text blank_app_def demo_config_def)

text \<open>C40: A new process gets the first free slot and the first free block of the disk, all its pages and
  an empty mail box; the invariants hold again and no process loses contents.\<close>

theorem creation_keeps_invariant:
  assumes "sys_inv sys" "\<And>n. \<not> oom n"
    and "i < length (pc_list (sys_cont sys))" "\<not> live_slot (pc_list (sys_cont sys)) i"
      "\<And>j. j < i \<Longrightarrow> live_slot (pc_list (sys_cont sys)) j"
    and "k < disk_nblocks (mmu_disk (vm_mmu (sys_vm sys)))"
      "k \<notin> used_blocks (pc_blk (sys_cont sys)) (pc_list (sys_cont sys))"
      "\<And>j. j < k \<Longrightarrow> j \<in> used_blocks (pc_blk (sys_cont sys)) (pc_list (sys_cont sys))"
  shows "\<exists>sys' mail. create_process off oom sys = Inr (int i, sys') \<and> sys_inv sys' \<and>
           pc_list (sys_cont sys') =
             (pc_list (sys_cont sys))[i := new_slot i (int (k * pc_blk (sys_cont sys))) mail] \<and>
           queue_list mail = [] \<and> vm_view (sys_vm sys) \<subseteq>\<^sub>m vm_view (sys_vm sys') \<and>
           (\<forall>page. unat page < pc_blk (sys_cont sys) \<longrightarrow>
              page_of (vm_mmu (sys_vm sys')) (word_of_int (int i), page) \<noteq> None)"
  by (rule create_process_backs [OF assms])

theorem creation_keeps_invariant_witness:
  "\<exists>sys'. create_process 0 (\<lambda>_. False) demo_one = Inr (1, sys') \<and> sys_inv sys' \<and>
     page_of (vm_mmu (sys_vm sys')) (1, 2) \<noteq> None"
proof -
  have blk: "disk_nblocks (mmu_disk (vm_mmu (sys_vm demo_one))) = 2"
    using demo_one_facts(2,4,5) pc_invD(7) by (fastforce simp: sys_inv_def disk_nblocks_def)
  then show ?thesis
    using creation_keeps_invariant [OF demo_one_facts(2), of "\<lambda>_. False" 1 1 0] demo_one_facts by fastforce
qed

end
